(* ===== verification/Uninstall_Verdict.thy ===== *)
theory Uninstall_Verdict
  imports Prelude
begin

text \<open>
  The Uninstall check's vocabulary and folds: \<open>analyser/verdict.rs\<close> (which blockers are
  unknowns, the fold of a blocker set into a disposition, the seal a later step compares
  against) and \<open>analyser/compose.rs\<close> (what the remotes' answers say of the uncovered roots,
  and which blockers a push could discharge). The enums are the wire's
  (\<open>protocol/schema/protocol.json\<close>).
\<close>

section \<open>Blockers and dispositions\<close>

datatype uninstall_blocker =
    UnpushedCommits | UncommittedChanges | StashPresent | UntrackedPrecious | IgnoredPrecious
  | SubmoduleUnsafe | LinkedWorktree | ShallowClone | RemoteUnreachable | RemoteIsLocalMirror
  | StashUnreadable | LiveSession | RefusedPath | NeverObserved | NoRemote | UnpushedTag
  | InterruptedOperation | BorrowedByAnotherRepository | RefsUnreadable | HiddenFromStatus
  | LfsUnverified | NestingTooDeep

datatype uninstall_disposition = DispSafe | DispBlocked | DispUnknown

fun is_unknown :: "uninstall_blocker \<Rightarrow> bool" where
  "is_unknown ShallowClone = True"
| "is_unknown RemoteUnreachable = True"
| "is_unknown RemoteIsLocalMirror = True"
| "is_unknown StashUnreadable = True"
| "is_unknown NeverObserved = True"
| "is_unknown RefsUnreadable = True"
| "is_unknown HiddenFromStatus = True"
| "is_unknown LfsUnverified = True"
| "is_unknown NestingTooDeep = True"
| "is_unknown UnpushedCommits = False"
| "is_unknown UncommittedChanges = False"
| "is_unknown StashPresent = False"
| "is_unknown UntrackedPrecious = False"
| "is_unknown IgnoredPrecious = False"
| "is_unknown SubmoduleUnsafe = False"
| "is_unknown LinkedWorktree = False"
| "is_unknown LiveSession = False"
| "is_unknown RefusedPath = False"
| "is_unknown NoRemote = False"
| "is_unknown UnpushedTag = False"
| "is_unknown InterruptedOperation = False"
| "is_unknown BorrowedByAnotherRepository = False"

definition is_unknown_blocker :: "uninstall_blocker \<Rightarrow> bool" where
  "is_unknown_blocker b = is_unknown b"

definition fold_disposition :: "uninstall_blocker list \<Rightarrow> uninstall_disposition" where
  "fold_disposition blockers =
     (if blockers = [] then DispSafe
      else if \<exists>b \<in> set blockers. \<not> is_unknown b then DispBlocked
      else DispUnknown)"

fun blocker_slug :: "uninstall_blocker \<Rightarrow> string" where
  "blocker_slug UnpushedCommits = ''unpushed_commits''"
| "blocker_slug UncommittedChanges = ''uncommitted_changes''"
| "blocker_slug StashPresent = ''stash_present''"
| "blocker_slug UntrackedPrecious = ''untracked_precious''"
| "blocker_slug IgnoredPrecious = ''ignored_precious''"
| "blocker_slug SubmoduleUnsafe = ''submodule_unsafe''"
| "blocker_slug LinkedWorktree = ''linked_worktree''"
| "blocker_slug ShallowClone = ''shallow_clone''"
| "blocker_slug RemoteUnreachable = ''remote_unreachable''"
| "blocker_slug RemoteIsLocalMirror = ''remote_is_local_mirror''"
| "blocker_slug StashUnreadable = ''stash_unreadable''"
| "blocker_slug LiveSession = ''live_session''"
| "blocker_slug RefusedPath = ''refused_path''"
| "blocker_slug NeverObserved = ''never_observed''"
| "blocker_slug NoRemote = ''no_remote''"
| "blocker_slug UnpushedTag = ''unpushed_tag''"
| "blocker_slug InterruptedOperation = ''interrupted_operation''"
| "blocker_slug BorrowedByAnotherRepository = ''borrowed_by_another_repository''"
| "blocker_slug RefsUnreadable = ''refs_unreadable''"
| "blocker_slug HiddenFromStatus = ''hidden_from_status''"
| "blocker_slug LfsUnverified = ''lfs_unverified''"
| "blocker_slug NestingTooDeep = ''nesting_too_deep''"

fun disposition_slug :: "uninstall_disposition \<Rightarrow> string" where
  "disposition_slug DispSafe = ''safe''"
| "disposition_slug DispBlocked = ''blocked''"
| "disposition_slug DispUnknown = ''unknown''"

text \<open>\<open>VerdictSeal::of\<close>: the disposition and the blockers' names, sorted and without repeats.\<close>

definition verdict_seal :: "uninstall_blocker list \<Rightarrow> uninstall_disposition \<Rightarrow> string" where
  "verdict_seal blockers disposition =
     (let names = remdups_adj (sort (map blocker_slug blockers))
      in disposition_slug disposition @ ''|'' @ join_with '','' names)"

text \<open>Derived \<open>Debug\<close> names: the key \<open>finish\<close> and \<open>analyse_nested\<close> sort by.\<close>

fun blocker_debug :: "uninstall_blocker \<Rightarrow> string" where
  "blocker_debug UnpushedCommits = ''UnpushedCommits''"
| "blocker_debug UncommittedChanges = ''UncommittedChanges''"
| "blocker_debug StashPresent = ''StashPresent''"
| "blocker_debug UntrackedPrecious = ''UntrackedPrecious''"
| "blocker_debug IgnoredPrecious = ''IgnoredPrecious''"
| "blocker_debug SubmoduleUnsafe = ''SubmoduleUnsafe''"
| "blocker_debug LinkedWorktree = ''LinkedWorktree''"
| "blocker_debug ShallowClone = ''ShallowClone''"
| "blocker_debug RemoteUnreachable = ''RemoteUnreachable''"
| "blocker_debug RemoteIsLocalMirror = ''RemoteIsLocalMirror''"
| "blocker_debug StashUnreadable = ''StashUnreadable''"
| "blocker_debug LiveSession = ''LiveSession''"
| "blocker_debug RefusedPath = ''RefusedPath''"
| "blocker_debug NeverObserved = ''NeverObserved''"
| "blocker_debug NoRemote = ''NoRemote''"
| "blocker_debug UnpushedTag = ''UnpushedTag''"
| "blocker_debug InterruptedOperation = ''InterruptedOperation''"
| "blocker_debug BorrowedByAnotherRepository = ''BorrowedByAnotherRepository''"
| "blocker_debug RefsUnreadable = ''RefsUnreadable''"
| "blocker_debug HiddenFromStatus = ''HiddenFromStatus''"
| "blocker_debug LfsUnverified = ''LfsUnverified''"
| "blocker_debug NestingTooDeep = ''NestingTooDeep''"

definition sort_dedup :: "uninstall_blocker list \<Rightarrow> uninstall_blocker list" where
  "sort_dedup bs = remdups_adj (sort_key blocker_debug bs)"

section \<open>What the remotes say\<close>

datatype did_not_answer =
    NameRefused | Unresolved | DnaNotAdmitted | TransportRefused | Deadline | Unparseable
  | DnaFailed | Unverifiable

datatype remote_reading =
    ReadSameMachine
  | Answered (present: "string list") (fetched: "string list")
  | DidNotAnswer did_not_answer

record remote_summary =
  network :: nat
  answered :: nat
  same_machine :: nat
  covered :: "string list"

definition empty_summary :: remote_summary where
  "empty_summary = \<lparr>network = 0, answered = 0, same_machine = 0, covered = []\<rparr>"

fun summary_step :: "remote_summary \<Rightarrow> remote_reading \<Rightarrow> remote_summary" where
  "summary_step s ReadSameMachine = s\<lparr>same_machine := same_machine s + 1\<rparr>"
| "summary_step s (Answered p f) =
     s\<lparr>network := network s + 1, answered := answered s + 1, covered := covered s @ p\<rparr>"
| "summary_step s (DidNotAnswer w) = s\<lparr>network := network s + 1\<rparr>"

definition remote_summary_of :: "remote_reading list \<Rightarrow> remote_summary" where
  "remote_summary_of readings =
     (let s = foldl summary_step empty_summary readings
      in s\<lparr>covered := remdups_adj (sort (covered s))\<rparr>)"

record uncovered =
  unc_commit :: bool
  unc_tag :: bool

definition compose_remote_blockers :: "remote_summary \<Rightarrow> uncovered \<Rightarrow> uninstall_blocker list" where
  "compose_remote_blockers s u =
     (if \<not> unc_commit u \<and> \<not> unc_tag u then []
      else
        (if network s = 0
         then [NoRemote] @ (if unc_commit u then [UnpushedCommits] else [])
                         @ (if unc_tag u then [UnpushedTag] else [])
         else if answered s = network s
         then (if unc_commit u then [UnpushedCommits] else [])
              @ (if unc_tag u then [UnpushedTag] else [])
         else [RemoteUnreachable])
        @ (if same_machine s > 0 then [RemoteIsLocalMirror] else []))"

section \<open>What could discharge a blocker\<close>

datatype governed_act = Uninstall

datatype escape = PushToExisting | PushToNew | CheckAgain

datatype discharge = Never | Escapes "escape list" | NestedOwn | Accompanies

fun discharge_for :: "governed_act \<Rightarrow> uninstall_blocker \<Rightarrow> discharge" where
  "discharge_for Uninstall UnpushedCommits = Escapes [PushToExisting, PushToNew, CheckAgain]"
| "discharge_for Uninstall UnpushedTag = Escapes [PushToExisting, PushToNew]"
| "discharge_for Uninstall NoRemote = Escapes [PushToNew]"
| "discharge_for Uninstall RemoteUnreachable = Escapes [CheckAgain]"
| "discharge_for Uninstall SubmoduleUnsafe = NestedOwn"
| "discharge_for Uninstall RemoteIsLocalMirror = Accompanies"
| "discharge_for Uninstall StashPresent = Never"
| "discharge_for Uninstall UncommittedChanges = Never"
| "discharge_for Uninstall UntrackedPrecious = Never"
| "discharge_for Uninstall IgnoredPrecious = Never"
| "discharge_for Uninstall LinkedWorktree = Never"
| "discharge_for Uninstall LiveSession = Never"
| "discharge_for Uninstall RefusedPath = Never"
| "discharge_for Uninstall InterruptedOperation = Never"
| "discharge_for Uninstall BorrowedByAnotherRepository = Never"
| "discharge_for Uninstall ShallowClone = Never"
| "discharge_for Uninstall StashUnreadable = Never"
| "discharge_for Uninstall NeverObserved = Never"
| "discharge_for Uninstall RefsUnreadable = Never"
| "discharge_for Uninstall HiddenFromStatus = Never"
| "discharge_for Uninstall LfsUnverified = Never"
| "discharge_for Uninstall NestingTooDeep = Never"

definition is_undischargeable :: "governed_act \<Rightarrow> uninstall_blocker \<Rightarrow> bool" where
  "is_undischargeable act b = (discharge_for act b = Never)"

section \<open>Lemmas\<close>

lemma fold_safe_iff: "fold_disposition bs = DispSafe \<longleftrightarrow> bs = []"
  by (simp add: fold_disposition_def)

lemma fold_blocked_iff: "fold_disposition bs = DispBlocked \<longleftrightarrow> (\<exists>b \<in> set bs. \<not> is_unknown b)"
  by (cases bs) (auto simp: fold_disposition_def)

lemma fold_unknown_iff:
  "fold_disposition bs = DispUnknown \<longleftrightarrow> bs \<noteq> [] \<and> (\<forall>b \<in> set bs. is_unknown b)"
  by (auto simp: fold_disposition_def)

lemma set_sort_dedup [simp]: "set (sort_dedup bs) = set bs"
  by (simp add: sort_dedup_def)

lemma sort_dedup_Nil_iff [simp]: "sort_dedup bs = [] \<longleftrightarrow> bs = []"
  using set_sort_dedup [of bs] by (metis set_empty)

lemma fold_disposition_set:
  assumes "set bs = set cs"
  shows "fold_disposition bs = fold_disposition cs"
proof -
  have "bs = [] \<longleftrightarrow> cs = []" using assms by (metis set_empty)
  with assms show ?thesis by (simp add: fold_disposition_def)
qed

lemma fold_sort_dedup [simp]: "fold_disposition (sort_dedup bs) = fold_disposition bs"
  by (rule fold_disposition_set) simp

lemma verdict_seal_set:
  assumes "set bs = set cs"
  shows "verdict_seal bs d = verdict_seal cs d"
proof -
  have "set (map blocker_slug bs) = set (map blocker_slug cs)"
    using assms by simp
  then show ?thesis
    unfolding verdict_seal_def using sort_dedup_eqI by metis
qed

lemma blocker_slug_inj: "blocker_slug a = blocker_slug b \<Longrightarrow> a = b"
  by (cases a; cases b; simp)

lemma foldl_summary:
  "network (foldl summary_step s rs) =
     network s + length (filter (\<lambda>r. r \<noteq> ReadSameMachine) rs)"
  "answered (foldl summary_step s rs) =
     answered s + length (filter is_Answered rs)"
  "same_machine (foldl summary_step s rs) =
     same_machine s + length (filter (\<lambda>r. r = ReadSameMachine) rs)"
  "set (covered (foldl summary_step s rs)) =
     set (covered s) \<union> (\<Union>r \<in> set (filter is_Answered rs). set (present r))"
proof -
  show "network (foldl summary_step s rs) =
     network s + length (filter (\<lambda>r. r \<noteq> ReadSameMachine) rs)"
  proof (induction rs arbitrary: s)
    case (Cons r rs) then show ?case by (cases r) simp_all
  qed simp
  show "answered (foldl summary_step s rs) = answered s + length (filter is_Answered rs)"
  proof (induction rs arbitrary: s)
    case (Cons r rs) then show ?case by (cases r) simp_all
  qed simp
  show "same_machine (foldl summary_step s rs) =
     same_machine s + length (filter (\<lambda>r. r = ReadSameMachine) rs)"
  proof (induction rs arbitrary: s)
    case (Cons r rs) then show ?case by (cases r) simp_all
  qed simp
  show "set (covered (foldl summary_step s rs)) =
     set (covered s) \<union> (\<Union>r \<in> set (filter is_Answered rs). set (present r))"
  proof (induction rs arbitrary: s)
    case (Cons r rs) then show ?case by (cases r) auto
  qed simp
qed

lemma summary_of_counts:
  "network (remote_summary_of rs) = length (filter (\<lambda>r. r \<noteq> ReadSameMachine) rs)"
  "answered (remote_summary_of rs) = length (filter is_Answered rs)"
  "same_machine (remote_summary_of rs) = length (filter (\<lambda>r. r = ReadSameMachine) rs)"
  by (simp_all add: remote_summary_of_def foldl_summary empty_summary_def Let_def)

lemma summary_of_covered:
  "set (covered (remote_summary_of rs)) = (\<Union>r \<in> set (filter is_Answered rs). set (present r))"
  by (simp add: remote_summary_of_def foldl_summary empty_summary_def Let_def)

lemma compose_Nil_iff:
  "compose_remote_blockers s u = [] \<longleftrightarrow> \<not> unc_commit u \<and> \<not> unc_tag u"
  by (auto simp: compose_remote_blockers_def)

lemma answered_le_network: "answered (remote_summary_of rs) \<le> network (remote_summary_of rs)"
proof -
  have "length (filter is_Answered rs) \<le> length (filter (\<lambda>r. r \<noteq> ReadSameMachine) rs)"
    by (induction rs) auto
  then show ?thesis by (simp add: summary_of_counts)
qed

end
