(* ===== verification/Uninstall_Worktree.thy ===== *)
theory Uninstall_Worktree
  imports Uninstall_Verdict "HOL-Library.Product_Lexorder"
begin

text \<open>
  What the Uninstall check reads of the disk: the repository handle (\<open>git/repo.rs\<close>), the path
  gates (\<open>analyser/gates.rs\<close>), the junk rule (\<open>analyser/junk.rs\<close>), the worktree walk
  (\<open>analyser/worktree.rs\<close>) and the nested candidates (\<open>analyser/nested.rs\<close>).
  A path is the list of its components on a Unix file system, \<open>[]\<close> the root. The file
  system is a record of the calls the code makes, each total with its error a value, and the
  directory trees the recursive walks visit are finite trees (\<open>fs_node\<close>), so the walks are
  structural recursions.
\<close>

section \<open>Paths and the file system\<close>

type_synonym path = "string list"

definition comps :: "string \<Rightarrow> path" where
  "comps s = filter (\<lambda>c. c \<noteq> [] \<and> c \<noteq> ''.'') (split_on (CHR ''/'') s)"

definition path_join :: "path \<Rightarrow> string \<Rightarrow> path" where
  "path_join base s = (if starts_with ''/'' s then comps s else base @ comps s)"

datatype io_error = NotFound | OtherIo

datatype fkind = KFile | KDir | KSymlink

datatype fs_node = Gone | Leaf nat | DirNode (git_here: bool) "fs_child list option"
and fs_child = BadEntry | Child string "fkind option" fs_node

record fs =
  lstat :: "path \<Rightarrow> (fkind \<times> nat) option"
  stat_is_dir :: "path \<Rightarrow> io_error + bool"
  read_dir :: "path \<Rightarrow> io_error + string option list"
  tree_at :: "path \<Rightarrow> fs_node"
  canonicalize :: "path \<Rightarrow> path option"
  read_to_string :: "path \<Rightarrow> io_error + string"
  is_file :: "path \<Rightarrow> bool"
  is_directory :: "path \<Rightarrow> bool"
  home_dir :: "path option"

section \<open>Repository handles\<close>

record repo_handle =
  work_dir :: path
  git_dir :: path
  common_dir :: path
  rh_store :: string
  rh_class :: store_class
  rh_trusted :: bool

datatype resolve_error = PathGone | StaleRepo | UnreadableRepo

fun find_gitdir :: "string list \<Rightarrow> string option" where
  "find_gitdir [] = None"
| "find_gitdir (l # ls) =
     (case strip_prefix ''gitdir:'' (trim l) of Some t \<Rightarrow> Some t | None \<Rightarrow> find_gitdir ls)"

definition resolve_handle ::
  "fs \<Rightarrow> path \<Rightarrow> string \<Rightarrow> store_class \<Rightarrow> resolve_error + repo_handle" where
  "resolve_handle d work store class =
     (let dot_git = work @ [''.git''];
          gd = (case stat_is_dir d dot_git of
                  Inl NotFound \<Rightarrow> Inl PathGone
                | Inl OtherIo \<Rightarrow> Inl StaleRepo
                | Inr True \<Rightarrow> Inr dot_git
                | Inr False \<Rightarrow>
                    (case read_to_string d dot_git of
                       Inl _ \<Rightarrow> Inl StaleRepo
                     | Inr text \<Rightarrow>
                         (case find_gitdir (str_lines text) of
                            None \<Rightarrow> Inl UnreadableRepo
                          | Some target \<Rightarrow> Inr (path_join work (trim target)))))
      in case gd of
           Inl e \<Rightarrow> Inl e
         | Inr g \<Rightarrow>
             Inr \<lparr>work_dir = work, git_dir = g,
                  common_dir = (case read_to_string d (g @ [''commondir'']) of
                                  Inl _ \<Rightarrow> g
                                | Inr text \<Rightarrow> path_join g (trim text)),
                  rh_store = store, rh_class = class, rh_trusted = False\<rparr>)"

definition bare_handle :: "path \<Rightarrow> string \<Rightarrow> store_class \<Rightarrow> repo_handle" where
  "bare_handle g store class =
     \<lparr>work_dir = g, git_dir = g, common_dir = g, rh_store = store, rh_class = class,
      rh_trusted = False\<rparr>"

definition with_trust :: "repo_handle \<Rightarrow> bool \<Rightarrow> repo_handle" where
  "with_trust r t = r\<lparr>rh_trusted := t\<rparr>"

section \<open>The gates\<close>

record other_location =
  other_path :: path
  other_common_dir :: "path option"

definition gate_shallow :: "bool \<Rightarrow> uninstall_blocker option" where
  "gate_shallow s = (if s then Some ShallowClone else None)"

fun roots_scan :: "path \<Rightarrow> path list \<Rightarrow> bool \<Rightarrow> bool option" where
  "roots_scan p [] found = Some found"
| "roots_scan p (r # rs) found =
     (if p = r then None else roots_scan p rs (found \<or> prefix r p))"

definition gate_path :: "fs \<Rightarrow> path \<Rightarrow> path list \<Rightarrow> uninstall_blocker option" where
  "gate_path d p roots =
     (case lstat d p of
        None \<Rightarrow> Some RefusedPath
      | Some (k, _) \<Rightarrow>
          if k = KSymlink then Some RefusedPath
          else (case lstat d (p @ [''.git'']) of
                  Some (KDir, _) \<Rightarrow>
                    if p = [] then Some RefusedPath
                    else if home_dir d = Some p then Some RefusedPath
                    else (case roots_scan p roots False of
                            Some True \<Rightarrow> None
                          | _ \<Rightarrow> Some RefusedPath)
                | _ \<Rightarrow> Some RefusedPath))"

definition gate_contains ::
  "path \<Rightarrow> other_location list \<Rightarrow> path list \<Rightarrow> uninstall_blocker option" where
  "gate_contains p others roots =
     (let inside = (\<lambda>q. q \<noteq> p \<and> prefix p q)
      in if list_ex (\<lambda>l. inside (other_path l)) others \<or> list_ex inside roots
         then Some RefusedPath else None)"

definition gate_gitdir_outside :: "repo_handle \<Rightarrow> path \<Rightarrow> uninstall_blocker option" where
  "gate_gitdir_outside r p =
     (if git_dir r \<noteq> common_dir r then None
      else if \<not> prefix p (git_dir r) \<or> \<not> prefix p (common_dir r) then Some RefusedPath
      else None)"

definition gate_linked_worktree :: "fs \<Rightarrow> repo_handle \<Rightarrow> uninstall_blocker option" where
  "gate_linked_worktree d r =
     (if git_dir r \<noteq> common_dir r then Some LinkedWorktree
      else case read_dir d (common_dir r @ [''worktrees'']) of
             Inr [] \<Rightarrow> None
           | Inr (None # _) \<Rightarrow> Some RefsUnreadable
           | Inr (Some _ # _) \<Rightarrow> Some LinkedWorktree
           | Inl NotFound \<Rightarrow> None
           | Inl OtherIo \<Rightarrow> Some RefsUnreadable)"

definition canonical :: "fs \<Rightarrow> path \<Rightarrow> path" where
  "canonical d p = (case canonicalize d p of Some q \<Rightarrow> q | None \<Rightarrow> p)"

definition lender_under :: "fs \<Rightarrow> path \<Rightarrow> path \<Rightarrow> string \<Rightarrow> bool" where
  "lender_under d canonical_path objects line =
     (let line = trim line
      in line \<noteq> [] \<and> \<not> starts_with ''#'' line
         \<and> prefix canonical_path (canonical d (path_join objects line)))"

fun borrow_scan ::
  "fs \<Rightarrow> path \<Rightarrow> path \<Rightarrow> other_location list \<Rightarrow> bool \<Rightarrow> uninstall_blocker option" where
  "borrow_scan d p cp [] unreadable = (if unreadable then Some RefsUnreadable else None)"
| "borrow_scan d p cp (l # ls) unreadable =
     (if prefix p (other_path l) then borrow_scan d p cp ls unreadable
      else case other_common_dir l of
             None \<Rightarrow> borrow_scan d p cp ls unreadable
           | Some cd \<Rightarrow>
               if prefix p cd then Some BorrowedByAnotherRepository
               else (let objects = cd @ [''objects'']
                     in case read_to_string d (objects @ [''info'', ''alternates'']) of
                          Inr text \<Rightarrow>
                            if list_ex (lender_under d cp objects) (str_lines text)
                            then Some BorrowedByAnotherRepository
                            else borrow_scan d p cp ls unreadable
                        | Inl NotFound \<Rightarrow> borrow_scan d p cp ls unreadable
                        | Inl OtherIo \<Rightarrow> borrow_scan d p cp ls True))"

definition gate_borrowed :: "fs \<Rightarrow> path \<Rightarrow> other_location list \<Rightarrow> uninstall_blocker option" where
  "gate_borrowed d p others = borrow_scan d p (canonical d p) others False"

definition gate_lfs :: "fs \<Rightarrow> repo_handle \<Rightarrow> uninstall_blocker option" where
  "gate_lfs d r =
     (case read_dir d (common_dir r @ [''lfs'', ''objects'']) of
        Inr [] \<Rightarrow> None
      | Inr (_ # _) \<Rightarrow> Some LfsUnverified
      | Inl NotFound \<Rightarrow> None
      | Inl OtherIo \<Rightarrow> Some LfsUnverified)"

definition gate_first_day :: "int option \<Rightarrow> int option \<Rightarrow> uninstall_blocker option" where
  "gate_first_day refstate worktree =
     (if refstate = None \<or> worktree = None then Some NeverObserved else None)"

section \<open>Junk\<close>

definition JUNK_PATTERNS :: "string list" where
  "JUNK_PATTERNS =
     [''node_modules'', ''target'', ''dist'', ''build'', ''.next'', ''__pycache__'', ''.venv'',
      ''venv'', ''vendor'', ''.gradle'', ''.terraform'', ''Pods'']"

definition holds_git :: "fs \<Rightarrow> path \<Rightarrow> bool" where
  "holds_git d p \<longleftrightarrow> lstat d (p @ [''.git'']) \<noteq> None"

definition is_junk :: "fs \<Rightarrow> path \<Rightarrow> path \<Rightarrow> bool \<Rightarrow> bool" where
  "is_junk d root rel is_dir =
     (let names = filter (\<lambda>c. c \<noteq> ''..'') rel;
          above = (if is_dir then names else butlast names)
      in list_ex (\<lambda>n. List.member JUNK_PATTERNS n) above
         \<and> \<not> list_ex (\<lambda>k. holds_git d (root @ take k above)) [1..<Suc (length above)])"

section \<open>The worktree walk\<close>

text \<open>
  \<open>size_of\<close> and \<open>find_nested\<close> walk a directory; both push the nested repositories they
  meet. The node is the subtree at the walked path.
\<close>

fun dir_with_git :: "fkind option \<Rightarrow> fs_node \<Rightarrow> bool" where
  "dir_with_git (Some KDir) (DirNode g _) = g"
| "dir_with_git _ _ = False"

fun size_of :: "fs_node \<Rightarrow> path \<Rightarrow> path list \<Rightarrow> int option \<times> path list"
and size_children ::
  "fs_child list \<Rightarrow> path \<Rightarrow> int \<Rightarrow> bool \<Rightarrow> path list \<Rightarrow> int option \<times> path list"
where
  "size_of Gone rel nested = (None, nested)"
| "size_of (Leaf n) rel nested = ((if int n \<le> i64_max then Some (int n) else None), nested)"
| "size_of (DirNode g None) rel nested = (None, nested)"
| "size_of (DirNode g (Some cs)) rel nested = size_children cs rel 0 True nested"
| "size_children [] rel tot known nested = ((if known then Some tot else None), nested)"
| "size_children (BadEntry # cs) rel tot known nested = size_children cs rel tot False nested"
| "size_children (Child nm k nd # cs) rel tot known nested =
     (if dir_with_git k nd then size_children cs rel tot known (nested @ [rel @ [nm]])
      else (case size_of nd (rel @ [nm]) nested of
              (Some b, nested') \<Rightarrow> size_children cs rel (sat_i64 (tot + b)) known nested'
            | (None, nested') \<Rightarrow> size_children cs rel tot False nested'))"

fun find_nested :: "fs_node \<Rightarrow> path \<Rightarrow> path list \<Rightarrow> bool \<times> path list"
and find_children :: "fs_child list \<Rightarrow> path \<Rightarrow> bool \<Rightarrow> path list \<Rightarrow> bool \<times> path list"
where
  "find_nested Gone rel nested = (False, nested)"
| "find_nested (Leaf n) rel nested = (False, nested)"
| "find_nested (DirNode g None) rel nested = (False, nested)"
| "find_nested (DirNode g (Some cs)) rel nested = find_children cs rel True nested"
| "find_children [] rel complete nested = (complete, nested)"
| "find_children (BadEntry # cs) rel complete nested = find_children cs rel False nested"
| "find_children (Child nm k nd # cs) rel complete nested =
     (case k of
        None \<Rightarrow> find_children cs rel False nested
      | Some kd \<Rightarrow>
          if kd \<noteq> KDir then find_children cs rel complete nested
          else if dir_with_git k nd then find_children cs rel complete (nested @ [rel @ [nm]])
          else (case find_nested nd (rel @ [nm]) nested of
                  (ok, nested') \<Rightarrow> find_children cs rel (complete \<and> ok) nested'))"

datatype status_entry = Changed string string | Unmerged string | Untracked string | Ignored string

record index_entry =
  ie_mode :: string
  ie_oid :: string
  ie_stage :: nat
  ie_path :: string

record worktree_scan =
  ws_entries :: "status_entry list"
  ws_hidden :: "string list"
  ws_index :: "index_entry list"

record precious_entry =
  pe_path_display :: string
  pe_bytes :: "int option"

record precious_summary =
  ps_entries :: "precious_entry list"
  ps_total_count :: int
  ps_total_bytes :: "int option"
  ps_truncated :: bool

record worktree_findings =
  wf_blockers :: "uninstall_blocker list"
  wf_precious :: "precious_summary option"
  wf_gitlinks :: "path list"
  wf_in_tree :: "path list"

definition no_findings :: worktree_findings where
  "no_findings = \<lparr>wf_blockers = [], wf_precious = None, wf_gitlinks = [], wf_in_tree = []\<rparr>"

definition PRECIOUS_DISPLAY_CAP :: nat where "PRECIOUS_DISPLAY_CAP = 20"

text \<open>Largest first, an unknown size last, then by path.\<close>

definition precious_key :: "precious_entry \<Rightarrow> int \<times> int \<times> string" where
  "precious_key e =
     (case pe_bytes e of Some b \<Rightarrow> (0, - b, pe_path_display e) | None \<Rightarrow> (1, 0, pe_path_display e))"

fun total_bytes :: "int \<Rightarrow> precious_entry list \<Rightarrow> int option" where
  "total_bytes acc [] = Some acc"
| "total_bytes acc (e # es) =
     (case pe_bytes e of None \<Rightarrow> None | Some b \<Rightarrow> total_bytes (sat_i64 (acc + b)) es)"

definition summarise :: "precious_entry list \<Rightarrow> precious_summary" where
  "summarise es =
     (let es = sort_key precious_key es
      in \<lparr>ps_entries = take PRECIOUS_DISPLAY_CAP es,
          ps_total_count = min i64_max (int (length es)),
          ps_total_bytes = total_bytes 0 es,
          ps_truncated = PRECIOUS_DISPLAY_CAP < length es\<rparr>)"

definition push_blocker :: "uninstall_blocker \<Rightarrow> worktree_findings \<Rightarrow> worktree_findings" where
  "push_blocker b f = f\<lparr>wf_blockers := wf_blockers f @ [b]\<rparr>"

definition other_entry_step ::
  "fs \<Rightarrow> path \<Rightarrow> bool \<Rightarrow> string \<Rightarrow> worktree_findings \<times> precious_entry list
   \<Rightarrow> worktree_findings \<times> precious_entry list" where
  "other_entry_step d root ignored p acc =
     (let (f, es) = acc;
          is_dir = ends_with ''/'' p;
          rel = comps (if is_dir then butlast p else p);
          abs = root @ rel
      in if holds_git d abs then (f\<lparr>wf_in_tree := wf_in_tree f @ [rel]\<rparr>, es)
         else if is_junk d root rel is_dir then
           (if is_dir then
              (case find_nested (tree_at d abs) rel (wf_in_tree f) of
                 (ok, nested) \<Rightarrow>
                   let f' = f\<lparr>wf_in_tree := nested\<rparr>
                   in (if ok then f' else push_blocker NeverObserved f', es))
            else (f, es))
         else
           (case size_of (tree_at d abs) rel (wf_in_tree f) of
              (bytes, nested) \<Rightarrow>
                (push_blocker (if ignored then IgnoredPrecious else UntrackedPrecious)
                   (f\<lparr>wf_in_tree := nested\<rparr>),
                 es @ [\<lparr>pe_path_display = p, pe_bytes = bytes\<rparr>])))"

fun entry_step ::
  "fs \<Rightarrow> path \<Rightarrow> worktree_findings \<times> precious_entry list \<Rightarrow> status_entry
   \<Rightarrow> worktree_findings \<times> precious_entry list" where
  "entry_step d root (f, es) (Changed _ _) = (push_blocker UncommittedChanges f, es)"
| "entry_step d root (f, es) (Unmerged _) = (push_blocker UncommittedChanges f, es)"
| "entry_step d root (f, es) (Untracked p) = other_entry_step d root False p (f, es)"
| "entry_step d root (f, es) (Ignored p) = other_entry_step d root True p (f, es)"

fun hook_step ::
  "fs \<Rightarrow> path \<Rightarrow> worktree_findings \<times> precious_entry list \<Rightarrow> string option
   \<Rightarrow> worktree_findings \<times> precious_entry list" where
  "hook_step d hooks (f, es) None = (f, es)"
| "hook_step d hooks (f, es) (Some name) =
     (case lstat d (hooks @ [name]) of
        None \<Rightarrow> (push_blocker NeverObserved f, es)
      | Some (k, len) \<Rightarrow>
          if k = KDir \<or> ends_with ''.sample'' name then (f, es)
          else (push_blocker UntrackedPrecious f,
                es @ [\<lparr>pe_path_display = ''.git/hooks/'' @ name,
                       pe_bytes = (if int len \<le> i64_max then Some (int len) else None)\<rparr>]))"

definition analyse_worktree ::
  "fs \<Rightarrow> repo_handle \<Rightarrow> worktree_scan option \<Rightarrow> worktree_findings" where
  "analyse_worktree d r scan =
     (case scan of
        None \<Rightarrow> no_findings\<lparr>wf_blockers := [NeverObserved]\<rparr>
      | Some s \<Rightarrow>
          let root = work_dir r;
              (f, es) = foldl (entry_step d root) (no_findings, []) (ws_entries s);
              f = (if list_ex (\<lambda>p. lstat d (path_join root p) \<noteq> None) (ws_hidden s)
                   then push_blocker HiddenFromStatus f else f);
              hooks = common_dir r @ [''hooks''];
              (f, es) = (case read_dir d hooks of
                           Inr hs \<Rightarrow> foldl (hook_step d hooks) (f, es) hs
                         | Inl NotFound \<Rightarrow> (f, es)
                         | Inl OtherIo \<Rightarrow> (push_blocker NeverObserved f, es))
          in f\<lparr>wf_gitlinks := map (\<lambda>e. comps (ie_path e))
                 (filter (\<lambda>e. ie_mode e = ''160000'' \<and> ie_stage e = 0) (ws_index s)),
               wf_precious := Some (summarise es)\<rparr>)"

section \<open>Nested repositories\<close>

definition MAX_NESTING :: nat where "MAX_NESTING = 3"

datatype nested_kind = Submodule | ModuleGitdir | Independent

record candidate =
  cand_kind :: nested_kind
  cand_rel :: path
  cand_repo :: "repo_handle option"

definition resolve_nested :: "fs \<Rightarrow> repo_handle \<Rightarrow> path \<Rightarrow> repo_handle option" where
  "resolve_nested d parent dir =
     (case resolve_handle d dir (rh_store parent) (rh_class parent) of
        Inl _ \<Rightarrow> None
      | Inr r \<Rightarrow> Some (with_trust r (rh_trusted parent)))"

fun module_gitdirs :: "fs \<Rightarrow> fs_node \<Rightarrow> path \<Rightarrow> path list"
and module_children :: "fs \<Rightarrow> fs_child list \<Rightarrow> path \<Rightarrow> path list" where
  "module_gitdirs d Gone p = []"
| "module_gitdirs d (Leaf n) p = []"
| "module_gitdirs d (DirNode g None) p = []"
| "module_gitdirs d (DirNode g (Some cs)) p = module_children d cs p"
| "module_children d [] p = []"
| "module_children d (BadEntry # cs) p = module_children d cs p"
| "module_children d (Child nm k nd # cs) p =
     (if k \<noteq> Some KDir then []
      else if is_file d (p @ [nm, ''HEAD'']) \<and> is_directory d (p @ [nm, ''objects''])
      then [p @ [nm]]
      else module_gitdirs d nd (p @ [nm]))
     @ module_children d cs p"

definition candidates :: "fs \<Rightarrow> repo_handle \<Rightarrow> path list \<Rightarrow> path list \<Rightarrow> candidate list" where
  "candidates d parent gitlinks in_tree =
     (let subs = map (\<lambda>rel. \<lparr>cand_kind = Submodule, cand_rel = rel,
                              cand_repo = resolve_nested d parent (work_dir parent @ rel)\<rparr>)
                   (filter (\<lambda>rel. holds_git d (work_dir parent @ rel)) gitlinks);
          named = map (\<lambda>r. canonical d (git_dir r)) (List.map_filter cand_repo subs);
          modules = common_dir parent @ [''modules''];
          gitdirs = filter (\<lambda>g. \<not> List.member named (canonical d g))
                      (module_gitdirs d (tree_at d modules) modules);
          mods = map (\<lambda>g. \<lparr>cand_kind = ModuleGitdir,
                            cand_rel = (if prefix (common_dir parent) g
                                        then ''.git'' # drop (length (common_dir parent)) g
                                        else g),
                            cand_repo = Some (with_trust
                              (bare_handle g (rh_store parent) (rh_class parent))
                              (rh_trusted parent))\<rparr>) gitdirs;
          indep = map (\<lambda>rel. \<lparr>cand_kind = Independent, cand_rel = rel,
                               cand_repo = resolve_nested d parent (work_dir parent @ rel)\<rparr>)
                    in_tree
      in subs @ mods @ indep)"

end
