(* ===== verification/Uninstall_Analysis.thy ===== *)
theory Uninstall_Analysis
  imports Uninstall_Worktree
begin

text \<open>
  The Uninstall check itself: the roots (\<open>analyser/roots.rs\<close>), the live identity
  (\<open>analyser/identity.rs\<close>, \<open>identity/lineage.rs\<close>), and the analysis with its recursion over
  nested repositories (\<open>analyser/mod.rs\<close>). \<open>uninstall_env\<close> holds what one run reads from
  outside: git's answers per repository (an error is \<open>None\<close>, as the code drops it), the remote
  verifier's readings, the time budget's answer at each of its four checks, the file system, the
  SHA-256 digest and the trash.
\<close>

section \<open>What a run reads\<close>

datatype interrupted_operation =
  OpMerge | OpCherryPick | OpRevert | OpRebaseMerge | OpRebaseApply | OpSequencer | OpBisect

datatype head_state = Symbolic string | Detached string | Unborn

record ref_entry =
  re_name :: string
  re_oid :: string
  re_object_type :: string

record ref_listing =
  rl_head :: head_state
  rl_refs :: "ref_entry list"

datatype stash_entries = StashList "string list" | StashListUnreadable

record git_version =
  gv_major :: nat
  gv_minor :: nat
  gv_patch :: nat

datatype checkpoint = BeforeRoots | BeforeTree | BeforeRemotes | BeforeCoverage

datatype trash_refusal_kind =
  TrashUnsupported | NetworkDrive | OversizedFolder | DisabledOnVolume | CapacityUnknown

datatype trash_availability = TrashAvailable | TrashUnavailable trash_refusal_kind

record 'snap uninstall_env =
  env_fs :: fs
  env_is_shallow :: "repo_handle \<Rightarrow> bool option"
  env_root_commits :: "repo_handle \<Rightarrow> string list option"
  env_sha256_hex :: "string \<Rightarrow> string"
  env_version :: "git_version option"
  env_interrupted :: "repo_handle \<Rightarrow> interrupted_operation list option"
  env_refs :: "repo_handle \<Rightarrow> ref_listing option"
  env_stash :: "repo_handle \<Rightarrow> stash_entries option"
  env_scan :: "repo_handle \<Rightarrow> worktree_scan option"
  env_urls :: "repo_handle \<Rightarrow> (string \<times> string) list option"
  env_read_remote :: "repo_handle \<Rightarrow> string \<Rightarrow> remote_reading"
  env_any_uncovered :: "repo_handle \<Rightarrow> string list \<Rightarrow> string list \<Rightarrow> bool option"
  env_exhausted :: "repo_handle \<Rightarrow> checkpoint \<Rightarrow> bool"
  env_snapshot :: "repo_handle \<Rightarrow> uninstall_blocker + 'snap"
  env_trash :: "path \<Rightarrow> trash_availability"

section \<open>Roots\<close>

record roots =
  walked :: "string list"
  tags :: "string list"
  stash :: "string list"

definition need_elsewhere :: "roots \<Rightarrow> bool" where
  "need_elsewhere r \<longleftrightarrow> walked r \<noteq> [] \<or> tags r \<noteq> []"

definition canonical_oids :: "string list \<Rightarrow> string list" where
  "canonical_oids xs = remdups_adj (sort xs)"

definition read_roots :: "'s uninstall_env \<Rightarrow> repo_handle \<Rightarrow> uninstall_blocker + roots" where
  "read_roots e r =
     (case env_refs e r of
        None \<Rightarrow> Inl RefsUnreadable
      | Some listing \<Rightarrow>
          let kept = filter (\<lambda>x. re_name x \<noteq> ''refs/stash'') (rl_refs listing);
              tag_oids = map re_oid (filter (\<lambda>x. re_object_type x = ''tag'') kept);
              heads = map re_oid kept
                      @ (case rl_head listing of Detached oid \<Rightarrow> [oid] | _ \<Rightarrow> [])
          in case env_stash e r of
               Some (StashList entries) \<Rightarrow>
                 Inr \<lparr>walked = canonical_oids heads, tags = canonical_oids tag_oids,
                      stash = entries\<rparr>
             | _ \<Rightarrow> Inl StashUnreadable)"

definition uncovered_roots ::
  "'s uninstall_env \<Rightarrow> repo_handle \<Rightarrow> roots \<Rightarrow> string list \<Rightarrow> uninstall_blocker + uncovered" where
  "uncovered_roots e r ro cov =
     (case env_any_uncovered e r (walked ro) cov of
        None \<Rightarrow> Inl RefsUnreadable
      | Some c \<Rightarrow> Inr \<lparr>unc_commit = c,
                       unc_tag = list_ex (\<lambda>t. \<not> List.member cov t) (tags ro)\<rparr>)"

section \<open>Identity\<close>

definition lineage_key :: "(string \<Rightarrow> string) \<Rightarrow> string list \<Rightarrow> bool \<Rightarrow> string option" where
  "lineage_key sha oids shallow =
     (if shallow \<or> oids = [] then None
      else Some (sha (join_with [CHR 0x0A] (remdups_adj (sort (map to_lower oids))))))"

datatype derivation = Lineage "string option" | DerShallow | DerFailed

datatype identity_outcome = IdMatch | IdMismatch | IdShallow | IdUnreadable

definition derive_identity :: "'s uninstall_env \<Rightarrow> repo_handle \<Rightarrow> derivation" where
  "derive_identity e r =
     (case env_is_shallow e r of
        None \<Rightarrow> DerFailed
      | Some True \<Rightarrow> DerShallow
      | Some False \<Rightarrow>
          (case env_root_commits e r of
             None \<Rightarrow> DerFailed
           | Some oids \<Rightarrow> Lineage (lineage_key (env_sha256_hex e) oids False)))"

definition identify :: "'s uninstall_env \<Rightarrow> repo_handle \<Rightarrow> string option \<Rightarrow> identity_outcome" where
  "identify e r row_lineage =
     (case derive_identity e r of
        Lineage live \<Rightarrow> if live = row_lineage then IdMatch else IdMismatch
      | DerShallow \<Rightarrow> IdShallow
      | DerFailed \<Rightarrow> IdUnreadable)"

definition GOVERNED_GIT_FLOOR :: "nat \<times> nat \<times> nat" where "GOVERNED_GIT_FLOOR = (2, 29, 0)"

definition meets_governed_floor :: "git_version \<Rightarrow> bool" where
  "meets_governed_floor v \<longleftrightarrow> GOVERNED_GIT_FLOOR \<le> (gv_major v, gv_minor v, gv_patch v)"

section \<open>The analysis of one repository\<close>

record nested_repository =
  nr_path_display :: string
  nr_kind :: nested_kind
  nr_disposition :: uninstall_disposition
  nr_blockers :: "uninstall_blocker list"

record findings =
  f_blockers :: "uninstall_blocker list"
  f_nested :: "nested_repository list"
  f_precious :: "precious_summary option"
  f_verified :: bool

definition findings_of :: "uninstall_blocker list \<Rightarrow> findings" where
  "findings_of bs = \<lparr>f_blockers = bs, f_nested = [], f_precious = None, f_verified = False\<rparr>"

definition opt_list :: "'a option \<Rightarrow> 'a list" where
  "opt_list x = (case x of None \<Rightarrow> [] | Some b \<Rightarrow> [b])"

fun keep_first :: "'a list \<Rightarrow> 'a list \<Rightarrow> 'a list" where
  "keep_first names [] = names"
| "keep_first names (n # ns) =
     keep_first (if List.member names n then names else names @ [n]) ns"

definition elsewhere ::
  "'s uninstall_env \<Rightarrow> repo_handle \<Rightarrow> roots \<Rightarrow> uninstall_blocker list \<times> bool" where
  "elsewhere e r ro =
     (if env_exhausted e r BeforeRemotes then ([RemoteUnreachable], False)
      else case env_urls e r of
        None \<Rightarrow> ([RemoteUnreachable], False)
      | Some urls \<Rightarrow>
          let names = keep_first [] (map fst urls);
              s = remote_summary_of (map (env_read_remote e r) names)
          in ((if env_exhausted e r BeforeCoverage then [RefsUnreadable]
               else case uncovered_roots e r ro (covered s) of
                 Inr u \<Rightarrow> compose_remote_blockers s u
               | Inl b \<Rightarrow> [b]),
              answered s > 0))"

definition display :: "path \<Rightarrow> string" where
  "display p = replace_char (CHR 0x5C) (CHR ''/'') (join_with ''/'' p)"

definition unknown_nested :: "candidate \<Rightarrow> uninstall_blocker \<Rightarrow> nested_repository list" where
  "unknown_nested c b =
     [\<lparr>nr_path_display = display (cand_rel c), nr_kind = cand_kind c,
       nr_disposition = DispUnknown, nr_blockers = [b]\<rparr>]"

definition child_blockers :: "nested_repository list \<Rightarrow> uninstall_blocker list" where
  "child_blockers entries =
     (case entries of
        [] \<Rightarrow> []
      | child # _ \<Rightarrow>
          (case nr_disposition child of
             DispBlocked \<Rightarrow> [SubmoduleUnsafe]
           | DispUnknown \<Rightarrow> filter is_unknown_blocker (nr_blockers child)
           | DispSafe \<Rightarrow> []))"

definition tree_findings :: "'s uninstall_env \<Rightarrow> repo_handle \<Rightarrow> worktree_findings" where
  "tree_findings e r =
     (if work_dir r = git_dir r then no_findings
      else analyse_worktree (env_fs e) r (env_scan e r))"

definition repo_candidates :: "'s uninstall_env \<Rightarrow> repo_handle \<Rightarrow> candidate list" where
  "repo_candidates e r =
     candidates (env_fs e) r (wf_gitlinks (tree_findings e r)) (wf_in_tree (tree_findings e r))"

definition before_roots :: "'s uninstall_env \<Rightarrow> repo_handle \<Rightarrow> uninstall_blocker list" where
  "before_roots e r =
     opt_list (gate_lfs (env_fs e) r)
     @ (case env_interrupted e r of
          Some [] \<Rightarrow> []
        | Some _ \<Rightarrow> [InterruptedOperation]
        | None \<Rightarrow> [RefsUnreadable])"

definition roots_blockers :: "uninstall_blocker + roots \<Rightarrow> uninstall_blocker list" where
  "roots_blockers x =
     (case x of Inl b \<Rightarrow> [b] | Inr ro \<Rightarrow> if stash ro \<noteq> [] then [StashPresent] else [])"

definition last_step ::
  "'s uninstall_env \<Rightarrow> governed_act \<Rightarrow> repo_handle \<Rightarrow> uninstall_blocker + roots
   \<Rightarrow> uninstall_blocker list \<Rightarrow> uninstall_blocker list \<times> bool" where
  "last_step e act r ro found =
     (case ro of
        Inr roots \<Rightarrow>
          if need_elsewhere roots \<and> \<not> list_ex (is_undischargeable act) found
          then (case elsewhere e r roots of (bs, v) \<Rightarrow> (found @ bs, v))
          else (found, False)
      | Inl _ \<Rightarrow> (found, False))"

function (sequential) analyse_repo ::
  "'s uninstall_env \<Rightarrow> governed_act \<Rightarrow> repo_handle \<Rightarrow> nat \<Rightarrow> uninstall_blocker list \<Rightarrow> findings"
and analyse_nested ::
  "'s uninstall_env \<Rightarrow> governed_act \<Rightarrow> candidate \<Rightarrow> nat \<Rightarrow> nested_repository list"
where
  "analyse_repo e act r depth found =
     (let found = found @ before_roots e r
      in if env_exhausted e r BeforeRoots then findings_of (found @ [RefsUnreadable])
      else let ro = read_roots e r;
               found = found @ roots_blockers ro
      in if env_exhausted e r BeforeTree then findings_of (found @ [NeverObserved])
      else let tree = tree_findings e r;
               found = found @ wf_blockers tree;
               nested = map (\<lambda>c. analyse_nested e act c (depth + 1)) (repo_candidates e r);
               found = found @ concat (map child_blockers nested)
      in case last_step e act r ro found of
           (found, verified) \<Rightarrow>
             \<lparr>f_blockers = found, f_nested = concat nested, f_precious = wf_precious tree,
              f_verified = verified\<rparr>)"
| "analyse_nested e act c depth =
     (if MAX_NESTING < depth then unknown_nested c NestingTooDeep
      else case cand_repo c of
             None \<Rightarrow> unknown_nested c NeverObserved
           | Some r \<Rightarrow>
               let f = analyse_repo e act r depth [];
                   blockers = sort_dedup (f_blockers f)
               in \<lparr>nr_path_display = display (cand_rel c), nr_kind = cand_kind c,
                   nr_disposition = fold_disposition blockers, nr_blockers = blockers\<rparr>
                  # map (\<lambda>n. n\<lparr>nr_path_display :=
                             display (cand_rel c) @ ''/'' @ nr_path_display n\<rparr>) (f_nested f))"
  by pat_completeness auto
termination
  by (relation "measure (\<lambda>x. case x of
        Inl (_, _, _, depth, _) \<Rightarrow> Suc (2 * (4 - depth))
      | Inr (_, _, _, depth) \<Rightarrow> if MAX_NESTING < depth then 0 else 2 * (4 - depth) + 2)")
     (auto simp: MAX_NESTING_def)

declare analyse_repo.simps [simp del] analyse_nested.simps [simp del]

section \<open>The analysis of a location\<close>

record location_row =
  lr_path :: path
  lr_lineage_key :: "string option"
  lr_removed_at :: "int option"
  lr_refstate_observed_at :: "int option"
  lr_worktree_observed_at :: "int option"
  lr_store :: string
  lr_trusted :: bool
  lr_scan_roots :: "path list"
  lr_live_session :: bool
  lr_others :: "other_location list"

record uninstall_verdict =
  v_disposition :: uninstall_disposition
  v_blockers :: "uninstall_blocker list"
  v_remote_verified_at :: "int option"
  v_trash_available :: bool
  v_computed_at :: int
  v_nested :: "nested_repository list"
  v_precious :: "precious_summary option"
  v_trash_refusal :: "trash_refusal_kind option"

record 'snap analysis =
  a_verdict :: uninstall_verdict
  a_seal :: string
  a_snapshot :: "'snap option"

definition resolve_row :: "'s uninstall_env \<Rightarrow> location_row \<Rightarrow> repo_handle option" where
  "resolve_row e row =
     (case resolve_handle (env_fs e) (lr_path row) (lr_store row) Local of
        Inl _ \<Rightarrow> None
      | Inr r \<Rightarrow> Some (r\<lparr>rh_trusted := lr_trusted row\<rparr>))"

definition local_gates :: "'s uninstall_env \<Rightarrow> location_row \<Rightarrow> uninstall_blocker list" where
  "local_gates e row =
     (if lr_removed_at row \<noteq> None then [RefusedPath] else [])
     @ opt_list (gate_path (env_fs e) (lr_path row) (lr_scan_roots row))
     @ opt_list (gate_contains (lr_path row) (lr_others row) (lr_scan_roots row))
     @ opt_list (gate_borrowed (env_fs e) (lr_path row) (lr_others row))
     @ opt_list (gate_first_day (lr_refstate_observed_at row) (lr_worktree_observed_at row))
     @ (if lr_live_session row then [LiveSession] else [])"

fun trash_refusal_of :: "trash_availability \<Rightarrow> trash_refusal_kind option" where
  "trash_refusal_of TrashAvailable = None"
| "trash_refusal_of (TrashUnavailable k) = Some k"

definition finish :: "'s uninstall_env \<Rightarrow> findings \<Rightarrow> location_row \<Rightarrow> int \<Rightarrow> 's analysis" where
  "finish e f row now =
     (let blockers = sort_dedup (f_blockers f);
          disposition = fold_disposition blockers;
          refusal = trash_refusal_of (env_trash e (lr_path row))
      in \<lparr>a_verdict =
            \<lparr>v_disposition = disposition, v_blockers = blockers,
             v_remote_verified_at = (if f_verified f then Some now else None),
             v_trash_available = (refusal = None), v_computed_at = now,
             v_nested = f_nested f, v_precious = f_precious f, v_trash_refusal = refusal\<rparr>,
          a_seal = verdict_seal blockers disposition,
          a_snapshot = None\<rparr>)"

definition analyse_resolved ::
  "'s uninstall_env \<Rightarrow> governed_act \<Rightarrow> location_row \<Rightarrow> repo_handle \<Rightarrow> uninstall_blocker list
   \<Rightarrow> int \<Rightarrow> 's analysis" where
  "analyse_resolved e act row r found now =
     (let found = found @ local_gates e row @ opt_list (gate_gitdir_outside r (work_dir r))
                  @ opt_list (gate_linked_worktree (env_fs e) r)
      in if \<not> (case env_version e of Some v \<Rightarrow> meets_governed_floor v | None \<Rightarrow> False)
         then finish e (findings_of (found @ [RefsUnreadable])) row now
         else let f = analyse_repo e act r 0 found
              in if f_blockers f = [] then
                   (case env_snapshot e r of
                      Inr s \<Rightarrow> (finish e f row now)\<lparr>a_snapshot := Some s\<rparr>
                    | Inl b \<Rightarrow> finish e (f\<lparr>f_blockers := f_blockers f @ [b]\<rparr>) row now)
                 else finish e f row now)"

definition analyse ::
  "'s uninstall_env \<Rightarrow> location_row \<Rightarrow> governed_act \<Rightarrow> int \<Rightarrow> 's analysis" where
  "analyse e row act now =
     (case resolve_row e row of
        None \<Rightarrow> finish e (findings_of (local_gates e row @ [NeverObserved])) row now
      | Some r \<Rightarrow>
          (case identify e r (lr_lineage_key row) of
             IdMatch \<Rightarrow> analyse_resolved e act row r [] now
           | IdShallow \<Rightarrow> analyse_resolved e act row r (opt_list (gate_shallow True)) now
           | IdMismatch \<Rightarrow> finish e (findings_of [RefusedPath]) row now
           | IdUnreadable \<Rightarrow> finish e (findings_of [RefsUnreadable]) row now))"

datatype act_refusal =
  Unresolvable | IdentityChanged | NotSnapshotted | SnapshotUnreadable uninstall_blocker
  | ChangedSince

text \<open>The last read before the act, over a fresh environment; \<open>digest\<close> is \<open>Snapshot::digest\<close>.\<close>

definition reread_before_act ::
  "'s uninstall_env \<Rightarrow> ('s \<Rightarrow> string) \<Rightarrow> location_row \<Rightarrow> 's analysis \<Rightarrow> act_refusal + string option"
where
  "reread_before_act e digest row a =
     (case a_snapshot a of
        None \<Rightarrow> Inl NotSnapshotted
      | Some recorded \<Rightarrow>
          (case resolve_row e row of
             None \<Rightarrow> Inl Unresolvable
           | Some r \<Rightarrow>
               if identify e r (lr_lineage_key row) \<noteq> IdMatch then Inl IdentityChanged
               else (case env_snapshot e r of
                       Inl b \<Rightarrow> Inl (SnapshotUnreadable b)
                     | Inr live \<Rightarrow>
                         if digest live \<noteq> digest recorded then Inl ChangedSince
                         else Inr (lr_lineage_key row))))"

end
