(* ===== verification/Uninstall_Safety.thy ===== *)
theory Uninstall_Safety
  imports Uninstall_Analysis
begin

text \<open>
  What a Safe verdict means. \<open>settled\<close> states, over what git, the disk and the remotes answered,
  that nothing in a repository or in any repository nested in it exists here only; \<open>row_clear\<close> and
  \<open>handle_clear\<close> state what the path gates promise. None of them mentions blockers. The lemmas
  show that each gate and each step of the analysis reports nothing exactly when its part holds,
  and the properties at the end put them together.
\<close>

section \<open>The specification\<close>

definition row_clear :: "fs \<Rightarrow> location_row \<Rightarrow> bool" where
  "row_clear d row =
     (let p = lr_path row
      in lr_removed_at row = None
       \<and> (\<exists>k n m. lstat d p = Some (k, n) \<and> k \<noteq> KSymlink
                  \<and> lstat d (p @ [''.git'']) = Some (KDir, m))
       \<and> p \<noteq> [] \<and> home_dir d \<noteq> Some p
       \<and> p \<notin> set (lr_scan_roots row) \<and> (\<exists>r \<in> set (lr_scan_roots row). prefix r p)
       \<and> (\<forall>q \<in> other_path ` set (lr_others row) \<union> set (lr_scan_roots row). prefix p q \<longrightarrow> q = p)
       \<and> (\<forall>l \<in> set (lr_others row). \<forall>cd. other_common_dir l = Some cd \<longrightarrow> \<not> prefix p (other_path l) \<longrightarrow>
            \<not> prefix p cd
            \<and> (case read_to_string d (cd @ [''objects'', ''info'', ''alternates'']) of
                 Inr text \<Rightarrow> \<forall>line \<in> set (str_lines text).
                               \<not> lender_under d (canonical d p) (cd @ [''objects'']) line
               | Inl err \<Rightarrow> err = NotFound))
       \<and> lr_refstate_observed_at row \<noteq> None \<and> lr_worktree_observed_at row \<noteq> None
       \<and> \<not> lr_live_session row)"

definition nothing_in :: "(io_error + string option list) \<Rightarrow> bool" where
  "nothing_in listing \<longleftrightarrow> listing = Inr [] \<or> listing = Inl NotFound"

definition handle_clear :: "fs \<Rightarrow> repo_handle \<Rightarrow> bool" where
  "handle_clear d r \<longleftrightarrow>
     git_dir r = common_dir r \<and> prefix (work_dir r) (git_dir r)
     \<and> nothing_in (read_dir d (common_dir r @ [''worktrees'']))"

text \<open>What the walk of a junk directory collects, without the accumulator: whether it could read
  all of it, and the outermost directories holding a \<open>.git\<close>.\<close>

fun walk_complete :: "fs_node \<Rightarrow> bool" and children_complete :: "fs_child list \<Rightarrow> bool" where
  "walk_complete (DirNode g (Some cs)) = children_complete cs"
| "walk_complete _ = False"
| "children_complete [] = True"
| "children_complete (BadEntry # cs) = False"
| "children_complete (Child nm k nd # cs) =
     (k \<noteq> None \<and> (k = Some KDir \<longrightarrow> dir_with_git k nd \<or> walk_complete nd)
      \<and> children_complete cs)"

fun repos_below :: "fs_node \<Rightarrow> path \<Rightarrow> path list"
and repos_children :: "fs_child list \<Rightarrow> path \<Rightarrow> path list" where
  "repos_below (DirNode g (Some cs)) rel = repos_children cs rel"
| "repos_below _ rel = []"
| "repos_children [] rel = []"
| "repos_children (BadEntry # cs) rel = repos_children cs rel"
| "repos_children (Child nm k nd # cs) rel =
     (if k \<noteq> Some KDir then []
      else if dir_with_git k nd then [rel @ [nm]]
      else repos_below nd (rel @ [nm]))
     @ repos_children cs rel"

text \<open>A status entry that keeps nothing of the user's: not a tracked change, and an untracked or
  ignored path only where it is a repository of its own or junk the walk saw all of.\<close>

definition other_harmless :: "fs \<Rightarrow> path \<Rightarrow> string \<Rightarrow> bool" where
  "other_harmless d root p =
     (let is_dir = ends_with ''/'' p; rel = comps (if is_dir then butlast p else p)
      in holds_git d (root @ rel)
         \<or> is_junk d root rel is_dir
           \<and> (is_dir \<longrightarrow> walk_complete (tree_at d (root @ rel))))"

fun entry_harmless :: "fs \<Rightarrow> path \<Rightarrow> status_entry \<Rightarrow> bool" where
  "entry_harmless d root (Changed _ _) = False"
| "entry_harmless d root (Unmerged _) = False"
| "entry_harmless d root (Untracked p) = other_harmless d root p"
| "entry_harmless d root (Ignored p) = other_harmless d root p"

definition hook_harmless :: "fs \<Rightarrow> path \<Rightarrow> string option \<Rightarrow> bool" where
  "hook_harmless d hooks h =
     (case h of None \<Rightarrow> True
      | Some name \<Rightarrow> (case lstat d (hooks @ [name]) of
                        None \<Rightarrow> False
                      | Some (k, _) \<Rightarrow> k = KDir \<or> ends_with ''.sample'' name))"

definition tree_clean :: "fs \<Rightarrow> repo_handle \<Rightarrow> worktree_scan option \<Rightarrow> bool" where
  "tree_clean d r scan =
     (case scan of None \<Rightarrow> False
      | Some s \<Rightarrow>
          (\<forall>x \<in> set (ws_entries s). entry_harmless d (work_dir r) x)
          \<and> (\<forall>p \<in> set (ws_hidden s). lstat d (path_join (work_dir r) p) = None)
          \<and> (case read_dir d (common_dir r @ [''hooks'']) of
               Inr hs \<Rightarrow> \<forall>h \<in> set hs. hook_harmless d (common_dir r @ [''hooks'']) h
             | Inl err \<Rightarrow> err = NotFound))"

definition answered_oids :: "'s uninstall_env \<Rightarrow> repo_handle \<Rightarrow> (string \<times> string) list \<Rightarrow> string set" where
  "answered_oids e r urls =
     \<Union> {set p | p f nm. nm \<in> fst ` set urls \<and> env_read_remote e r nm = Answered p f}"

text \<open>Every commit and every tag that has to exist elsewhere is on a remote that answered.\<close>

definition kept_elsewhere :: "'s uninstall_env \<Rightarrow> repo_handle \<Rightarrow> roots \<Rightarrow> bool" where
  "kept_elsewhere e r ro \<longleftrightarrow>
     walked ro = [] \<and> tags ro = []
     \<or> \<not> env_exhausted e r BeforeRemotes \<and> \<not> env_exhausted e r BeforeCoverage
       \<and> (\<exists>urls cov. env_urls e r = Some urls
            \<and> set cov = answered_oids e r urls \<and> sorted_wrt (<) cov
            \<and> env_any_uncovered e r (walked ro) cov = Some False
            \<and> set (tags ro) \<subseteq> answered_oids e r urls)"

definition repo_settled :: "'s uninstall_env \<Rightarrow> repo_handle \<Rightarrow> bool" where
  "repo_settled e r \<longleftrightarrow>
     nothing_in (read_dir (env_fs e) (common_dir r @ [''lfs'', ''objects'']))
     \<and> env_interrupted e r = Some []
     \<and> \<not> env_exhausted e r BeforeRoots \<and> \<not> env_exhausted e r BeforeTree
     \<and> (work_dir r = git_dir r \<or> tree_clean (env_fs e) r (env_scan e r))
     \<and> (\<exists>ro. read_roots e r = Inr ro \<and> stash ro = [] \<and> kept_elsewhere e r ro)"

text \<open>\<open>settled e n r\<close>: the repository is settled, and so is every repository nested in it, down
  \<open>n\<close> levels, with nothing nested deeper.\<close>

primrec settled :: "'s uninstall_env \<Rightarrow> nat \<Rightarrow> repo_handle \<Rightarrow> bool" where
  "settled e 0 r \<longleftrightarrow> repo_settled e r \<and> repo_candidates e r = []"
| "settled e (Suc n) r \<longleftrightarrow>
     repo_settled e r
     \<and> (\<forall>c \<in> set (repo_candidates e r). \<exists>r'. cand_repo c = Some r' \<and> settled e n r')"

section \<open>The gates report nothing exactly when their condition holds\<close>

named_theorems gate_iffs \<open>a gate answers None exactly when its condition holds\<close>

lemma roots_scan_iff:
  "roots_scan p rs b = Some True \<longleftrightarrow> p \<notin> set rs \<and> (b \<or> (\<exists>r \<in> set rs. prefix r p))"
  by (induction rs arbitrary: b) auto

lemma roots_scan_cases: "(case x of Some True \<Rightarrow> None | _ \<Rightarrow> Some y) = None \<longleftrightarrow> x = Some True"
  by (auto split: option.splits bool.splits)

lemma gate_path_iff [gate_iffs]:
  "gate_path d p roots = None \<longleftrightarrow>
     (\<exists>k n m. lstat d p = Some (k, n) \<and> k \<noteq> KSymlink \<and> lstat d (p @ [''.git'']) = Some (KDir, m))
     \<and> p \<noteq> [] \<and> home_dir d \<noteq> Some p \<and> p \<notin> set roots \<and> (\<exists>r \<in> set roots. prefix r p)"
proof (cases "lstat d p")
  case (Some kn)
  then show ?thesis
    by (cases kn; cases "lstat d (p @ [''.git''])")
       (auto simp: gate_path_def roots_scan_cases roots_scan_iff split: fkind.splits prod.splits)
qed (simp add: gate_path_def)

lemma gate_contains_iff [gate_iffs]:
  "gate_contains p others roots = None \<longleftrightarrow>
     (\<forall>q \<in> other_path ` set others \<union> set roots. prefix p q \<longrightarrow> q = p)"
  by (auto simp: gate_contains_def Let_def list_ex_iff)

lemma gate_first_day_iff [gate_iffs]: "gate_first_day a b = None \<longleftrightarrow> a \<noteq> None \<and> b \<noteq> None"
  by (simp add: gate_first_day_def)

lemma gate_lfs_iff [gate_iffs]:
  "gate_lfs d r = None \<longleftrightarrow> nothing_in (read_dir d (common_dir r @ [''lfs'', ''objects'']))"
  by (auto simp: gate_lfs_def nothing_in_def split: sum.splits list.splits io_error.splits)

lemma handle_gates_iff:
  "gate_gitdir_outside r (work_dir r) = None \<and> gate_linked_worktree d r = None \<longleftrightarrow> handle_clear d r"
  by (auto simp: gate_gitdir_outside_def gate_linked_worktree_def handle_clear_def nothing_in_def
           split: sum.splits list.splits io_error.splits option.splits if_splits)

lemma borrow_scan_iff:
  "borrow_scan d p cp others u = None \<longleftrightarrow>
     \<not> u \<and> (\<forall>l \<in> set others. \<forall>cd. other_common_dir l = Some cd \<longrightarrow> \<not> prefix p (other_path l) \<longrightarrow>
            \<not> prefix p cd
            \<and> (case read_to_string d (cd @ [''objects'', ''info'', ''alternates'']) of
                 Inr text \<Rightarrow> \<forall>line \<in> set (str_lines text). \<not> lender_under d cp (cd @ [''objects'']) line
               | Inl err \<Rightarrow> err = NotFound))"
proof (induction others arbitrary: u)
  case (Cons l ls)
  show ?case
    by (cases "other_common_dir l";
        auto simp: Cons.IH Let_def list_ex_iff split: sum.splits io_error.splits if_splits)
qed simp

lemma opt_list_Nil [simp]: "opt_list x = [] \<longleftrightarrow> x = None"
  by (cases x) (auto simp: opt_list_def)

lemma local_gates_iff: "local_gates e row = [] \<longleftrightarrow> row_clear (env_fs e) row"
  unfolding local_gates_def row_clear_def Let_def append_is_Nil_conv opt_list_Nil gate_iffs
    gate_borrowed_def borrow_scan_iff by auto

section \<open>The worktree reports nothing exactly when it is clean\<close>

lemma find_nested_eq:
  "find_nested nd rel ns = (walk_complete nd, ns @ repos_below nd rel)"
  "find_children cs rel b ns = (b \<and> children_complete cs, ns @ repos_children cs rel)"
proof (induction nd rel ns and cs rel b ns rule: find_nested_find_children.induct)
  case (7 nm k nd cs rel complete nested)
  then show ?case
    by (cases k; cases "dir_with_git k nd"; cases "k = Some KDir"; simp)
qed simp_all

lemma wf_blockers_simps [simp]:
  "wf_blockers (push_blocker b f) = wf_blockers f @ [b]"
  "wf_blockers (f\<lparr>wf_in_tree := x\<rparr>) = wf_blockers f"
  by (simp_all add: push_blocker_def)

lemma entry_step_quiet:
  "wf_blockers (fst (entry_step d root acc x)) = [] \<longleftrightarrow>
     wf_blockers (fst acc) = [] \<and> entry_harmless d root x"
proof -
  have other: "wf_blockers (fst (other_entry_step d root ig p (f, es))) = [] \<longleftrightarrow>
       wf_blockers f = [] \<and> other_harmless d root p" for ig p f es
  proof -
    define is_dir where "is_dir = ends_with ''/'' p"
    define rel where "rel = comps (if is_dir then butlast p else p)"
    obtain ok ns where fn: "find_nested (tree_at d (root @ rel)) rel (wf_in_tree f) = (ok, ns)"
      by fastforce
    have ok: "walk_complete (tree_at d (root @ rel)) = ok"
      using fn by (simp add: find_nested_eq)
    obtain by' ms where so: "size_of (tree_at d (root @ rel)) rel (wf_in_tree f) = (by', ms)"
      by fastforce
    show ?thesis
      unfolding other_entry_step_def other_harmless_def Let_def
        is_dir_def [symmetric] rel_def [symmetric]
      using fn ok so by auto
  qed
  show ?thesis
    by (cases acc; cases x) (simp_all add: other)
qed

lemma foldl_entries_quiet:
  "wf_blockers (fst (foldl (entry_step d root) acc xs)) = [] \<longleftrightarrow>
     wf_blockers (fst acc) = [] \<and> (\<forall>x \<in> set xs. entry_harmless d root x)"
  by (induction xs arbitrary: acc) (auto simp: entry_step_quiet)

lemma hook_step_quiet:
  "wf_blockers (fst (hook_step d hooks acc h)) = [] \<longleftrightarrow>
     wf_blockers (fst acc) = [] \<and> hook_harmless d hooks h"
  by (cases acc; cases h) (auto simp: hook_harmless_def split: option.splits prod.splits)

lemma foldl_hooks_quiet:
  "wf_blockers (fst (foldl (hook_step d hooks) acc hs)) = [] \<longleftrightarrow>
     wf_blockers (fst acc) = [] \<and> (\<forall>h \<in> set hs. hook_harmless d hooks h)"
  by (induction hs arbitrary: acc) (auto simp: hook_step_quiet)

lemma worktree_quiet:
  "wf_blockers (analyse_worktree d r scan) = [] \<longleftrightarrow> tree_clean d r scan"
proof (cases scan)
  case (Some s)
  define hooks where "hooks = common_dir r @ [''hooks'']"
  obtain f es where fe: "foldl (entry_step d (work_dir r)) (no_findings, []) (ws_entries s) = (f, es)"
    by fastforce
  have f: "wf_blockers f = [] \<longleftrightarrow> (\<forall>x \<in> set (ws_entries s). entry_harmless d (work_dir r) x)"
    using foldl_entries_quiet [of d "work_dir r" "(no_findings, [])" "ws_entries s"] fe
    by (simp add: no_findings_def)
  define f' where "f' = (if list_ex (\<lambda>p. lstat d (path_join (work_dir r) p) \<noteq> None) (ws_hidden s)
                   then push_blocker HiddenFromStatus f else f)"
  have f': "wf_blockers f' = [] \<longleftrightarrow> wf_blockers f = []
      \<and> (\<forall>p \<in> set (ws_hidden s). lstat d (path_join (work_dir r) p) = None)"
    by (auto simp: f'_def list_ex_iff simp del: not_None_eq not_Some_eq)
  define g where "g = (case read_dir d hooks of
                           Inr hs \<Rightarrow> foldl (hook_step d hooks) (f', es) hs
                         | Inl NotFound \<Rightarrow> (f', es)
                         | Inl OtherIo \<Rightarrow> (push_blocker NeverObserved f', es))"
  have g: "wf_blockers (fst g) = [] \<longleftrightarrow> wf_blockers f' = []
      \<and> (case read_dir d hooks of Inr hs \<Rightarrow> \<forall>h \<in> set hs. hook_harmless d hooks h
         | Inl err \<Rightarrow> err = NotFound)"
    by (auto simp: g_def foldl_hooks_quiet split: sum.splits io_error.splits)
  have "wf_blockers (analyse_worktree d r scan) = wf_blockers (fst g)"
    unfolding analyse_worktree_def Some option.case Let_def fe prod.case
      hooks_def [symmetric] f'_def [symmetric] g_def [symmetric]
    by (cases g) simp
  then show ?thesis
    unfolding tree_clean_def Some option.case hooks_def [symmetric] using f f' g by auto
qed (simp add: analyse_worktree_def tree_clean_def no_findings_def)

lemma tree_findings_quiet:
  "wf_blockers (tree_findings e r) = [] \<longleftrightarrow>
     work_dir r = git_dir r \<or> tree_clean (env_fs e) r (env_scan e r)"
  by (auto simp: tree_findings_def worktree_quiet no_findings_def)

section \<open>The analysis reports nothing exactly when the repository is settled\<close>

lemma set_keep_first [simp]: "set (keep_first ns xs) = set ns \<union> set xs"
  by (induction xs arbitrary: ns) auto

lemma covered_sorted: "sorted_wrt (<) (covered (remote_summary_of rs))"
  by (simp add: remote_summary_of_def Let_def sorted_remdups_adj_distinct)

lemma covered_answered:
  "set (covered (remote_summary_of (map (env_read_remote e r) (keep_first [] (map fst urls)))))
     = answered_oids e r urls"
proof (intro set_eqI iffI)
  fix x assume "x \<in> answered_oids e r urls"
  then obtain nm p f where nm: "nm \<in> fst ` set urls" "env_read_remote e r nm = Answered p f" "x \<in> set p"
    by (auto simp: answered_oids_def)
  have "is_Answered (env_read_remote e r nm) \<and> x \<in> set (present (env_read_remote e r nm))"
    unfolding nm(2) using nm(3) by simp
  moreover obtain z where "z \<in> set urls" "nm = fst z" using nm(1) by blast
  ultimately show "x \<in> set (covered (remote_summary_of
      (map (env_read_remote e r) (keep_first [] (map fst urls)))))"
    by (auto simp: summary_of_covered intro!: bexI [of _ z])
next
  fix x assume "x \<in> set (covered (remote_summary_of
      (map (env_read_remote e r) (keep_first [] (map fst urls)))))"
  then obtain nm where "nm \<in> fst ` set urls" "is_Answered (env_read_remote e r nm)"
    "x \<in> set (present (env_read_remote e r nm))"
    by (auto simp: summary_of_covered)
  then show "x \<in> answered_oids e r urls"
    unfolding answered_oids_def by (cases "env_read_remote e r nm") auto
qed

lemma sorted_oids_unique:
  "sorted_wrt (<) xs \<Longrightarrow> sorted_wrt (<) ys \<Longrightarrow> set xs = set ys \<Longrightarrow> xs = (ys :: string list)"
  using strict_sorted_equal by metis

lemma elsewhere_quiet:
  assumes "need_elsewhere ro"
  shows "fst (elsewhere e r ro) = [] \<longleftrightarrow> kept_elsewhere e r ro"
proof (cases "env_urls e r")
  case None
  with assms show ?thesis by (auto simp: elsewhere_def kept_elsewhere_def need_elsewhere_def)
next
  case (Some urls)
  define cov where
    "cov = covered (remote_summary_of (map (env_read_remote e r) (keep_first [] (map fst urls))))"
  have cov: "set cov = answered_oids e r urls" "sorted_wrt (<) cov"
    by (simp_all add: cov_def covered_answered covered_sorted)
  have "fst (elsewhere e r ro) = [] \<longleftrightarrow>
      \<not> env_exhausted e r BeforeRemotes \<and> \<not> env_exhausted e r BeforeCoverage
      \<and> env_any_uncovered e r (walked ro) cov = Some False \<and> set (tags ro) \<subseteq> set cov"
    unfolding elsewhere_def Some option.case Let_def
    by (auto simp: uncovered_roots_def cov_def [symmetric] compose_Nil_iff list_ex_iff
             split: option.splits)
  also have "\<dots> \<longleftrightarrow> kept_elsewhere e r ro"
  proof -
    have "c = cov" if "set c = answered_oids e r urls" "sorted_wrt (<) c" for c
      by (rule sorted_oids_unique) (use that cov in auto)
    then have "(\<exists>c. set c = answered_oids e r urls \<and> sorted_wrt (<) c
          \<and> env_any_uncovered e r (walked ro) c = Some False)
        \<longleftrightarrow> env_any_uncovered e r (walked ro) cov = Some False"
      using cov by blast
    then show ?thesis
      using assms Some cov(1) unfolding kept_elsewhere_def need_elsewhere_def by simp blast
  qed
  finally show ?thesis .
qed

lemma last_step_quiet:
  "fst (last_step e act r x found) = [] \<longleftrightarrow>
     found = [] \<and> (\<forall>ro. x = Inr ro \<longrightarrow> kept_elsewhere e r ro)"
proof (cases x)
  case (Inr ro)
  show ?thesis
  proof (cases "need_elsewhere ro")
    case True
    then show ?thesis
      using elsewhere_quiet [OF True, of e r] Inr
      by (cases "elsewhere e r ro") (auto simp: last_step_def list_ex_iff)
  next
    case False
    then show ?thesis using Inr by (auto simp: last_step_def need_elsewhere_def kept_elsewhere_def)
  qed
qed (simp add: last_step_def)

lemma before_roots_quiet:
  "before_roots e r = [] \<longleftrightarrow>
     nothing_in (read_dir (env_fs e) (common_dir r @ [''lfs'', ''objects'']))
     \<and> env_interrupted e r = Some []"
  by (auto simp: before_roots_def gate_lfs_iff split: option.splits list.splits)

lemma roots_blockers_quiet: "roots_blockers x = [] \<longleftrightarrow> (\<exists>ro. x = Inr ro \<and> stash ro = [])"
  by (auto simp: roots_blockers_def split: sum.splits)

lemma child_blockers_known:
  "child_blockers (n # ns) = [] \<longleftrightarrow> nr_disposition n = DispSafe"
  if "nr_disposition n = fold_disposition (nr_blockers n)"
  using that
  using that fold_unknown_iff [of "nr_blockers n"]
  by (cases "nr_disposition n")
     (auto simp: child_blockers_def filter_empty_conv is_unknown_blocker_def)

lemma child_unknown [simp]:
  "b = NestingTooDeep \<or> b = NeverObserved \<Longrightarrow> child_blockers (unknown_nested c b) \<noteq> []"
  by (auto simp: child_blockers_def unknown_nested_def is_unknown_blocker_def)

lemma analysis_quiet:
  "depth \<le> MAX_NESTING \<Longrightarrow>
     f_blockers (analyse_repo e act r depth found) = [] \<longleftrightarrow>
       found = [] \<and> settled e (MAX_NESTING - depth) r"
  "child_blockers (analyse_nested e act c depth) = [] \<longleftrightarrow>
     depth \<le> MAX_NESTING \<and> (\<exists>r. cand_repo c = Some r \<and> settled e (MAX_NESTING - depth) r)"
proof (induction e act r depth found and e act c depth rule: analyse_repo_analyse_nested.induct)
  case (1 e act r depth found)
  define ro where "ro = read_roots e r"
  define f1 where "f1 = found @ before_roots e r"
  define f2 where "f2 = f1 @ roots_blockers ro"
  define f3 where "f3 = f2 @ wf_blockers (tree_findings e r)"
  define kids where "kids = map (\<lambda>c. analyse_nested e act c (depth + 1)) (repo_candidates e r)"
  define f4 where "f4 = f3 @ concat (map child_blockers kids)"
  have f3: "f3 = [] \<longleftrightarrow> found = [] \<and> before_roots e r = [] \<and> roots_blockers ro = []
      \<and> wf_blockers (tree_findings e r) = []"
    by (auto simp: f3_def f2_def f1_def)
  show ?case
  proof (cases "env_exhausted e r BeforeRoots \<or> env_exhausted e r BeforeTree")
    case True
    then have "f_blockers (analyse_repo e act r depth found) \<noteq> []"
      by (auto simp: analyse_repo.simps Let_def findings_of_def)
    moreover have "\<not> settled e (MAX_NESTING - depth) r"
      using True by (cases "MAX_NESTING - depth") (auto simp: repo_settled_def)
    ultimately show ?thesis by simp
  next
    case False
    have eq: "f_blockers (analyse_repo e act r depth found) = fst (last_step e act r ro f4)"
      using False unfolding analyse_repo.simps Let_def f4_def f3_def f2_def f1_def ro_def kids_def
      by (simp add: split_beta)
    have child: "child_blockers (analyse_nested e act c (depth + 1)) = [] \<longleftrightarrow>
        depth + 1 \<le> MAX_NESTING
        \<and> (\<exists>r'. cand_repo c = Some r' \<and> settled e (MAX_NESTING - (depth + 1)) r')"
      if "c \<in> set (repo_candidates e r)" for c
      using 1(1) False that by simp
    have kids: "concat (map child_blockers kids) = [] \<longleftrightarrow>
        (\<forall>c \<in> set (repo_candidates e r). depth + 1 \<le> MAX_NESTING
           \<and> (\<exists>r'. cand_repo c = Some r' \<and> settled e (MAX_NESTING - (depth + 1)) r'))"
      unfolding kids_def concat_eq_Nil_conv set_map ball_simps using child by simp
    have "fst (last_step e act r ro f4) = [] \<longleftrightarrow>
        found = [] \<and> repo_settled e r \<and> concat (map child_blockers kids) = []"
      using False
      by (auto simp: last_step_quiet f4_def f3 before_roots_quiet roots_blockers_quiet
            tree_findings_quiet repo_settled_def ro_def)
    also have "\<dots> \<longleftrightarrow> found = [] \<and> settled e (MAX_NESTING - depth) r"
    proof (cases "MAX_NESTING - depth")
      case 0
      then have "\<not> depth + 1 \<le> MAX_NESTING" by simp
      then have "concat (map child_blockers kids) = [] \<longleftrightarrow> repo_candidates e r = []"
        unfolding kids by (cases "repo_candidates e r") auto
      then show ?thesis unfolding 0 by simp
    next
      case (Suc n)
      then have "depth + 1 \<le> MAX_NESTING" "MAX_NESTING - (depth + 1) = n" by simp_all
      then show ?thesis unfolding Suc kids by simp
    qed
    finally show ?thesis using eq by simp
  qed
next
  case (2 e act c depth)
  show ?case
  proof (cases "MAX_NESTING < depth \<or> cand_repo c = None")
    case True
    then show ?thesis by (auto simp: analyse_nested.simps)
  next
    case False
    then obtain r where r: "cand_repo c = Some r" "\<not> MAX_NESTING < depth" by auto
    have "f_blockers (analyse_repo e act r depth []) = [] \<longleftrightarrow> settled e (MAX_NESTING - depth) r"
      using 2 r by simp
    then show ?thesis
      using r by (simp add: analyse_nested.simps Let_def child_blockers_known fold_safe_iff)
  qed
qed

section \<open>A small world to evaluate on\<close>

text \<open>A repository at \<open>/w/p\<close> whose worktree holds an ignored repository \<open>dep\<close>; the argument is
  the stash of \<open>dep\<close>. One remote, which answered with the tip of every branch.\<close>

definition demo_fs :: fs where
  "demo_fs =
     \<lparr>lstat = (\<lambda>p. if List.member [[''w'', ''p''], [''w'', ''p'', ''.git''], [''w'', ''p'', ''dep''],
                                   [''w'', ''p'', ''dep'', ''.git'']] p
                   then Some (KDir, 0) else None),
      stat_is_dir = (\<lambda>p. Inr True), read_dir = (\<lambda>p. Inl NotFound), tree_at = (\<lambda>p. Gone),
      canonicalize = (\<lambda>p. Some p), read_to_string = (\<lambda>p. Inl NotFound),
      is_file = (\<lambda>p. False), is_directory = (\<lambda>p. False), home_dir = Some [''home'']\<rparr>"

definition demo_env :: "string list \<Rightarrow> string uninstall_env" where
  "demo_env s =
     \<lparr>env_fs = demo_fs, env_is_shallow = (\<lambda>r. Some False), env_root_commits = (\<lambda>r. Some [''r'']),
      env_sha256_hex = (\<lambda>x. x), env_version = Some \<lparr>gv_major = 2, gv_minor = 40, gv_patch = 0\<rparr>,
      env_interrupted = (\<lambda>r. Some []),
      env_refs = (\<lambda>r. Some \<lparr>rl_head = Unborn,
        rl_refs = [\<lparr>re_name = ''refs/heads/main'', re_oid = ''a'', re_object_type = ''commit''\<rparr>]\<rparr>),
      env_stash = (\<lambda>r. Some (StashList (if work_dir r = [''w'', ''p''] then [] else s))),
      env_scan = (\<lambda>r. Some \<lparr>ws_entries = (if work_dir r = [''w'', ''p''] then [Ignored ''dep/''] else []),
                             ws_hidden = [], ws_index = []\<rparr>),
      env_urls = (\<lambda>r. Some [(''origin'', ''https://h/x'')]),
      env_read_remote = (\<lambda>r nm. Answered [''a''] []),
      env_any_uncovered = (\<lambda>r w c. Some (list_ex (\<lambda>x. \<not> List.member c x) w)),
      env_exhausted = (\<lambda>r c. False), env_snapshot = (\<lambda>r. Inr ''snap''),
      env_trash = (\<lambda>p. TrashAvailable)\<rparr>"

definition demo_row :: location_row where
  "demo_row =
     \<lparr>lr_path = [''w'', ''p''], lr_lineage_key = Some ''r'', lr_removed_at = None,
      lr_refstate_observed_at = Some 1, lr_worktree_observed_at = Some 1, lr_store = ''s'',
      lr_trusted = True, lr_scan_roots = [[''w'']], lr_live_session = False, lr_others = []\<rparr>"

lemma demo_safe: "a_verdict (analyse (demo_env []) demo_row Uninstall 7) =
   \<lparr>v_disposition = DispSafe, v_blockers = [], v_remote_verified_at = Some 7,
    v_trash_available = True, v_computed_at = 7,
    v_nested = [\<lparr>nr_path_display = ''dep'', nr_kind = Independent, nr_disposition = DispSafe,
                 nr_blockers = []\<rparr>],
    v_precious = Some \<lparr>ps_entries = [], ps_total_count = 0, ps_total_bytes = Some 0,
                       ps_truncated = False\<rparr>, v_trash_refusal = None\<rparr>"
  by code_simp

lemma demo_blocked:
  "v_disposition (a_verdict (analyse (demo_env [''x'']) demo_row Uninstall 7)) = DispBlocked"
  "v_nested (a_verdict (analyse (demo_env [''x'']) demo_row Uninstall 7)) =
     [\<lparr>nr_path_display = ''dep'', nr_kind = Independent, nr_disposition = DispBlocked,
       nr_blockers = [StashPresent]\<rparr>]"
  by code_simp+

section \<open>Properties\<close>

lemma finish_safe_iff:
  "v_disposition (a_verdict (finish e f row now)) = DispSafe \<longleftrightarrow> f_blockers f = []"
  by (simp add: finish_def Let_def fold_safe_iff)

definition new_enough :: "git_version option \<Rightarrow> bool" where
  "new_enough v = (case v of None \<Rightarrow> False
     | Some x \<Rightarrow> gv_major x > 2 \<or> gv_major x = 2 \<and> gv_minor x \<ge> 29)"

lemma new_enough_iff:
  "new_enough v = (case v of Some x \<Rightarrow> meets_governed_floor x | None \<Rightarrow> False)"
  by (auto simp: new_enough_def meets_governed_floor_def GOVERNED_GIT_FLOOR_def less_eq_prod_def
           split: option.splits)

lemma analyse_resolved_safe_iff:
  "v_disposition (a_verdict (analyse_resolved e act row r found now)) = DispSafe \<longleftrightarrow>
     found = [] \<and> row_clear (env_fs e) row \<and> handle_clear (env_fs e) r \<and> new_enough (env_version e)
     \<and> settled e MAX_NESTING r \<and> (\<exists>s. env_snapshot e r = Inr s)"
proof -
  define start where "start = found @ local_gates e row @ opt_list (gate_gitdir_outside r (work_dir r))
                  @ opt_list (gate_linked_worktree (env_fs e) r)"
  have start: "start = [] \<longleftrightarrow>
      found = [] \<and> row_clear (env_fs e) row \<and> handle_clear (env_fs e) r"
    unfolding start_def using handle_gates_iff [of r "env_fs e"] by (auto simp: local_gates_iff)
  have quiet: "f_blockers (analyse_repo e act r 0 start) = [] \<longleftrightarrow>
      start = [] \<and> settled e MAX_NESTING r"
    using analysis_quiet(1) [of 0 e act r start] by simp
  show ?thesis
    unfolding analyse_resolved_def Let_def start_def [symmetric] new_enough_iff [symmetric]
    using start quiet
    by (auto simp: finish_safe_iff findings_of_def split: sum.splits)
qed


end
