(* ===== verification/Uninstall_Reports.thy ===== *)
theory Uninstall_Reports
  imports Uninstall_Safety "HOL-Library.Multiset"
begin

text \<open>
  What the reports of the Uninstall check promise beyond Safe: the seal identifies the verdict,
  a nested repository's trouble reaches its parent's verdict, the remote blockers say only what
  the remotes answered, and the act is refused on anything that changed since.
\<close>

section \<open>The seal\<close>

lemma split_on_ne: "split_on d s \<noteq> []"
  by (induction s) (auto split: list.splits)

lemma split_on_append:
  "d \<notin> set a \<Longrightarrow> split_on d (a @ d # s) = a # split_on d s"
  by (induction a) auto

lemma split_on_single: "d \<notin> set a \<Longrightarrow> split_on d a = [a]"
  by (induction a) auto

lemma split_on_join:
  assumes "xs \<noteq> []" "\<forall>x \<in> set xs. d \<notin> set x"
  shows "split_on d (join_with [d] xs) = xs"
  using assms
proof (induction "[d]" xs rule: join_with.induct)
  case (3 x y ys)
  then show ?case using split_on_append [of d x] by simp
qed (simp_all add: split_on_single)

lemma slug_chars: "CHR '','' \<notin> set (blocker_slug b) \<and> blocker_slug b \<noteq> []"
  by (cases b) simp_all

lemma join_slugs_inj:
  assumes "\<forall>x \<in> set xs \<union> set ys. CHR '','' \<notin> set x \<and> x \<noteq> []"
    and "join_with '','' xs = join_with '','' ys"
  shows "xs = ys"
proof (cases "xs = [] \<or> ys = []")
  case True
  have "join_with '','' zs = [] \<Longrightarrow> \<forall>x \<in> set zs. x \<noteq> [] \<Longrightarrow> zs = []" for zs
    by (cases zs rule: remdups_adj.cases) auto
  then show ?thesis using True assms by (metis UnCI join_with.simps(1))
next
  case False
  then show ?thesis using assms split_on_join by (metis UnCI)
qed

lemma seal_prefix:
  "disposition_slug d @ ''|'' @ s = disposition_slug d' @ ''|'' @ t \<Longrightarrow> d = d' \<and> s = t"
  by (cases d; cases d') simp_all

text \<open>Two verdicts carry the same seal exactly when they have the same disposition and the
  same set of blockers: the seal loses neither, whatever the order or repetition of the list.\<close>

theorem seal_identifies:
  "verdict_seal bs d = verdict_seal cs d' \<longleftrightarrow> d = d' \<and> set bs = set cs"
proof
  define norm where "norm xs = remdups_adj (sort (map blocker_slug xs))" for xs
  have set_norm: "set (norm xs) = blocker_slug ` set xs" for xs by (simp add: norm_def)
  assume "verdict_seal bs d = verdict_seal cs d'"
  then have eq: "d = d'" "join_with '','' (norm bs) = join_with '','' (norm cs)"
    using seal_prefix unfolding verdict_seal_def Let_def norm_def by metis+
  have "norm bs = norm cs"
    by (rule join_slugs_inj [OF _ eq(2)]) (use slug_chars in \<open>auto simp: set_norm\<close>)
  then have "blocker_slug ` set bs = blocker_slug ` set cs" using set_norm by metis
  moreover have "inj blocker_slug" using blocker_slug_inj by (auto simp: inj_def)
  ultimately show "d = d' \<and> set bs = set cs" using eq(1) by (simp add: inj_image_eq_iff)
next
  assume "d = d' \<and> set bs = set cs"
  then show "verdict_seal bs d = verdict_seal cs d'" using verdict_seal_set by metis
qed

section \<open>The verdict's fields\<close>

text \<open>Every way out of the analysis is \<open>finish\<close> over findings that are the repository's own with
  perhaps one blocker more, or over findings that name no nested repository.\<close>

definition finishes_with ::
  "'s uninstall_env \<Rightarrow> governed_act \<Rightarrow> location_row \<Rightarrow> int \<Rightarrow> 's analysis \<Rightarrow> findings \<Rightarrow> bool" where
  "finishes_with e act row now a f \<longleftrightarrow>
     a_verdict a = a_verdict (finish e f row now) \<and> a_seal a = a_seal (finish e f row now)
     \<and> (a_snapshot a \<noteq> None \<longleftrightarrow> f_blockers f = [])
     \<and> (\<not> f_verified f \<and> f_nested f = []
        \<or> (\<exists>r bs cs. resolve_row e row = Some r
             \<and> f_verified f = f_verified (analyse_repo e act r 0 bs)
             \<and> f_nested f = f_nested (analyse_repo e act r 0 bs)
             \<and> f_blockers f = f_blockers (analyse_repo e act r 0 bs) @ cs))"

lemma finish_snapshot [simp]: "a_snapshot (finish e f row now) = None"
  by (simp add: finish_def Let_def)

lemma finishes_plain: "bs \<noteq> [] \<Longrightarrow> finishes_with e act row now (finish e (findings_of bs) row now) (findings_of bs)"
  by (simp add: finishes_with_def findings_of_def)

lemma analyse_resolved_finishes:
  assumes "resolve_row e row = Some r"
  shows "\<exists>f. finishes_with e act row now (analyse_resolved e act row r bs now) f"
proof -
  define start where "start = bs @ local_gates e row @ opt_list (gate_gitdir_outside r (work_dir r))
                  @ opt_list (gate_linked_worktree (env_fs e) r)"
  define F where "F = analyse_repo e act r 0 start"
  have own: "finishes_with e act row now (finish e (F\<lparr>f_blockers := f_blockers F @ cs\<rparr>) row now)
      (F\<lparr>f_blockers := f_blockers F @ cs\<rparr>)" if "f_blockers F @ cs \<noteq> []" for cs
    using that assms unfolding finishes_with_def F_def by auto
  note eq = analyse_resolved_def Let_def start_def [symmetric] new_enough_iff [symmetric] F_def [symmetric]
  show ?thesis
  proof (cases "new_enough (env_version e)")
    case False
    then show ?thesis using finishes_plain [of "start @ [RefsUnreadable]"] by (simp add: eq) blast
  next
    case True
    show ?thesis
    proof (cases "f_blockers F = []")
      case False
      then show ?thesis using own [of "[]"] True by (auto simp: eq)
    next
      case quiet: True
      show ?thesis
      proof (cases "env_snapshot e r")
        case (Inl b)
        then show ?thesis using own [of "[b]"] True quiet by (auto simp: eq)
      next
        case (Inr s)
        have "finishes_with e act row now ((finish e F row now)\<lparr>a_snapshot := Some s\<rparr>) F"
          using quiet assms unfolding finishes_with_def F_def by auto
        then show ?thesis using True quiet Inr by (auto simp: eq)
      qed
    qed
  qed
qed

lemma analyse_finishes: "\<exists>f. finishes_with e act row now (analyse e row act now) f"
proof (cases "resolve_row e row")
  case None
  then show ?thesis
    using finishes_plain [of "local_gates e row @ [NeverObserved]"] by (simp add: analyse_def) blast
next
  case (Some r)
  then show ?thesis
    using analyse_resolved_finishes [OF Some] finishes_plain [of "[RefusedPath]"]
      finishes_plain [of "[RefsUnreadable]"]
    by (cases "identify e r (lr_lineage_key row)") (simp_all add: analyse_def, blast+)
qed

lemma sort_dedup_distinct: "distinct (sort_dedup bs)"
proof -
  have "inj blocker_debug" unfolding inj_def by (intro allI, case_tac x; case_tac y; simp)
  then have "distinct (map blocker_debug (remdups_adj (sort_key blocker_debug bs)))"
    using sorted_remdups_adj_distinct [of "map blocker_debug (sort_key blocker_debug bs)"]
    by (simp add: strict_sorted_iff remdups_adj_map_injective)
  then show ?thesis unfolding sort_dedup_def by (simp add: distinct_map)
qed

text \<open>A verdict agrees with itself: its blockers are listed once each, its disposition is
  their fold, its seal is the seal of exactly what it shows, a recorded state to act against exists
  exactly when it is Safe, and the trash flag says the trash was not refused.\<close>

theorem verdict_consistent:
  "let a = analyse e row act now; v = a_verdict a
   in distinct (v_blockers v)
      \<and> v_disposition v = fold_disposition (v_blockers v)
      \<and> a_seal a = verdict_seal (v_blockers v) (v_disposition v)
      \<and> (a_snapshot a \<noteq> None \<longleftrightarrow> v_disposition v = DispSafe)
      \<and> (v_trash_available v \<longleftrightarrow> env_trash e (lr_path row) = TrashAvailable)
      \<and> v_computed_at v = now"
proof -
  obtain f where f: "finishes_with e act row now (analyse e row act now) f"
    using analyse_finishes by metis
  show ?thesis
    using f unfolding finishes_with_def
    by (cases "env_trash e (lr_path row)")
       (auto simp: Let_def finish_def sort_dedup_distinct fold_safe_iff)
qed

section \<open>Nested repositories reach the verdict\<close>

lemma child_blockers_safe:
  "child_blockers ns = [] \<Longrightarrow> ns \<noteq> [] \<Longrightarrow> nr_disposition (hd ns) = fold_disposition (nr_blockers (hd ns))
    \<Longrightarrow> nr_disposition (hd ns) = DispSafe"
  by (cases ns) (use child_blockers_known in auto)

text \<open>Of one candidate: the head is its own entry; whatever is listed below it, Blocked below is
  Blocked at the head, and not Safe below is not Safe at the head.\<close>

definition reaches :: "uninstall_disposition \<Rightarrow> nested_repository list \<Rightarrow> bool" where
  "reaches d ns \<longleftrightarrow>
     (DispBlocked \<in> nr_disposition ` set ns \<longrightarrow> d = DispBlocked)
     \<and> (DispUnknown \<in> nr_disposition ` set ns \<longrightarrow> d \<noteq> DispSafe)"

lemma reaches_child:
  assumes "ns \<noteq> []" "reaches (nr_disposition (hd ns)) ns"
    and "nr_disposition (hd ns) = fold_disposition (nr_blockers (hd ns))"
    and "set (child_blockers ns) \<subseteq> set bs"
  shows "reaches (fold_disposition bs) ns"
proof (cases "nr_disposition (hd ns)")
  case DispSafe
  then show ?thesis using assms(2) by (simp add: reaches_def)
next
  case DispBlocked
  then have "child_blockers ns = [SubmoduleUnsafe]" using assms(1) by (cases ns) (auto simp: child_blockers_def)
  then have "fold_disposition bs = DispBlocked"
    using assms(4) by (auto simp: fold_blocked_iff intro!: bexI [of _ SubmoduleUnsafe])
  then show ?thesis by (simp add: reaches_def)
next
  case DispUnknown
  then have "child_blockers ns \<noteq> []" using child_blockers_safe assms(1,3) by fastforce
  then have "bs \<noteq> []" using assms(4) by auto
  then show ?thesis using assms(2) DispUnknown by (auto simp: reaches_def fold_safe_iff)
qed

lemma found_grows: "set found \<subseteq> set (fst (last_step e act r ro found))"
  by (auto simp: last_step_def split: sum.splits prod.splits)

lemma reaches_concat: "(\<And>ns. ns \<in> set nss \<Longrightarrow> reaches d ns) \<Longrightarrow> reaches d (concat nss)"
  unfolding reaches_def by auto

lemma nested_reaches:
  "reaches (fold_disposition (f_blockers (analyse_repo e act r depth found)))
     (f_nested (analyse_repo e act r depth found))"
  "analyse_nested e act c depth \<noteq> []
   \<and> nr_disposition (hd (analyse_nested e act c depth))
       = fold_disposition (nr_blockers (hd (analyse_nested e act c depth)))
   \<and> reaches (nr_disposition (hd (analyse_nested e act c depth))) (analyse_nested e act c depth)"
proof (induction e act r depth found and e act c depth rule: analyse_repo_analyse_nested.induct)
  case (1 e act r depth found)
  show ?case
  proof (cases "env_exhausted e r BeforeRoots \<or> env_exhausted e r BeforeTree")
    case True
    then show ?thesis by (auto simp: analyse_repo.simps Let_def findings_of_def reaches_def)
  next
    case False
    define kids where "kids = map (\<lambda>c. analyse_nested e act c (depth + 1)) (repo_candidates e r)"
    define f4 where "f4 = found @ before_roots e r @ roots_blockers (read_roots e r)
      @ wf_blockers (tree_findings e r) @ concat (map child_blockers kids)"
    have eq: "f_blockers (analyse_repo e act r depth found) = fst (last_step e act r (read_roots e r) f4)"
      "f_nested (analyse_repo e act r depth found) = concat kids"
      using False unfolding analyse_repo.simps Let_def f4_def kids_def
      by (simp_all add: split_beta)
    show ?thesis
      unfolding eq
    proof (rule reaches_concat)
      fix ns assume ns: "ns \<in> set kids"
      then have "set (child_blockers ns) \<subseteq> set f4" by (auto simp: f4_def)
      then have "set (child_blockers ns) \<subseteq> set (fst (last_step e act r (read_roots e r) f4))"
        using found_grows by fastforce
      moreover obtain c where "c \<in> set (repo_candidates e r)" "ns = analyse_nested e act c (depth + 1)"
        using ns by (auto simp: kids_def)
      ultimately show "reaches (fold_disposition (fst (last_step e act r (read_roots e r) f4))) ns"
        using 1(1) False by (intro reaches_child) (simp_all, metis)
    qed
  qed
next
  case (2 e act c depth)
  show ?case
  proof (cases "MAX_NESTING < depth \<or> cand_repo c = None")
    case True
    then show ?thesis
      by (auto simp: analyse_nested.simps unknown_nested_def fold_disposition_def reaches_def)
  next
    case False
    then obtain r where r: "cand_repo c = Some r" "\<not> MAX_NESTING < depth" by auto
    have "reaches (fold_disposition (f_blockers (analyse_repo e act r depth [])))
        (f_nested (analyse_repo e act r depth []))"
      using 2 r by simp
    then show ?thesis
      using r by (auto simp: analyse_nested.simps Let_def reaches_def image_image)
  qed
qed

text \<open>
  C10: No nested repository's trouble stays below: when any repository listed under a location,
  at any depth, is Blocked, the location's own verdict is Blocked; when any is Unknown, the
  location's verdict is not Safe.
\<close>

theorem nested_trouble_reaches_verdict:
  assumes "n \<in> set (v_nested (a_verdict (analyse e row act now)))"
  shows "(nr_disposition n = DispBlocked \<longrightarrow>
            v_disposition (a_verdict (analyse e row act now)) = DispBlocked)
       \<and> (nr_disposition n = DispUnknown \<longrightarrow>
            v_disposition (a_verdict (analyse e row act now)) \<noteq> DispSafe)"
proof -
  obtain f where f: "finishes_with e act row now (analyse e row act now) f"
    using analyse_finishes by metis
  have v: "v_nested (a_verdict (analyse e row act now)) = f_nested f"
    "v_disposition (a_verdict (analyse e row act now)) = fold_disposition (f_blockers f)"
    using f by (simp_all add: finishes_with_def finish_def Let_def)
  obtain r bs cs where own: "f_nested f = f_nested (analyse_repo e act r 0 bs)"
    "f_blockers f = f_blockers (analyse_repo e act r 0 bs) @ cs"
    using f v(1) assms unfolding finishes_with_def by auto
  have "reaches (fold_disposition (f_blockers (analyse_repo e act r 0 bs))) (f_nested f)"
    using nested_reaches(1) own(1) by metis
  moreover have "nr_disposition n \<in> nr_disposition ` set (f_nested f)" using assms v(1) by simp
  ultimately show ?thesis
    unfolding v reaches_def own(2) fold_safe_iff fold_blocked_iff by auto
qed

theorem nested_trouble_reaches_verdict_witness:
  "v_disposition (a_verdict (analyse (demo_env [''x'']) demo_row Uninstall 7)) = DispBlocked"
  using nested_trouble_reaches_verdict
    [of "\<lparr>nr_path_display = ''dep'', nr_kind = Independent, nr_disposition = DispBlocked,
          nr_blockers = [StashPresent]\<rparr>" "demo_env [''x'']" demo_row Uninstall 7]
  by (simp add: demo_blocked(2))

section \<open>What is said of the remotes\<close>

text \<open>The remote blockers say what the remotes answered and no more. That commits (or tags) are
  unpushed is claimed only when something is uncovered and every remote on the network answered,
  or there is none, and no-remote is then said too; a remote that did not answer turns the whole claim into
  unreachable; with nothing uncovered nothing is said.\<close>

theorem remote_blockers_say_what_was_answered:
  "let bs = set (compose_remote_blockers (remote_summary_of rs) u);
       silent = DidNotAnswer ` UNIV \<inter> set rs \<noteq> {};
       need = unc_commit u \<or> unc_tag u
   in (UnpushedCommits \<in> bs \<longleftrightarrow> unc_commit u \<and> \<not> silent)
      \<and> (UnpushedTag \<in> bs \<longleftrightarrow> unc_tag u \<and> \<not> silent)
      \<and> (RemoteUnreachable \<in> bs \<longleftrightarrow> need \<and> silent)
      \<and> (NoRemote \<in> bs \<longleftrightarrow> need \<and> set rs \<subseteq> {ReadSameMachine})
      \<and> (RemoteIsLocalMirror \<in> bs \<longleftrightarrow> need \<and> ReadSameMachine \<in> set rs)
      \<and> bs \<subseteq> {UnpushedCommits, UnpushedTag, RemoteUnreachable, NoRemote, RemoteIsLocalMirror}"
proof -
  define silent where "silent = (DidNotAnswer ` UNIV \<inter> set rs \<noteq> {})"
  define s where "s = remote_summary_of rs"
  have all: "answered s = network s \<longleftrightarrow> \<not> silent"
    unfolding s_def silent_def
  proof (induction rs)
    case (Cons r rs)
    then show ?case using answered_le_network [of rs] by (cases r) (auto simp: summary_of_counts)
  qed (simp add: summary_of_counts)
  have none: "network s = 0 \<longleftrightarrow> set rs \<subseteq> {ReadSameMachine}"
    by (auto simp: s_def summary_of_counts filter_empty_conv)
  have mirror: "same_machine s > 0 \<longleftrightarrow> ReadSameMachine \<in> set rs"
    by (auto simp: s_def summary_of_counts filter_empty_conv)
  have silent0: "network s = 0 \<Longrightarrow> \<not> silent" using none by (auto simp: silent_def)
  note facts = all none [symmetric] mirror [symmetric] silent0
  show ?thesis
    unfolding Let_def silent_def [symmetric] s_def [symmetric] using facts
    by (auto simp: compose_remote_blockers_def)
qed

section \<open>When the remotes are asked, and the last read before the act\<close>

text \<open>A verdict that carries a remote-verified time rests on a remote that answered during this
  analysis; the remotes are read only when the local reads found nothing that no push could
  discharge, and only after the roots were read and the time budget held.\<close>

theorem verified_only_after_an_answer:
  assumes "f_verified (analyse_repo e act r depth found)"
  shows "(\<exists>urls nm. env_urls e r = Some urls \<and> nm \<in> fst ` set urls
                     \<and> is_Answered (env_read_remote e r nm))
       \<and> (\<exists>ro. read_roots e r = Inr ro \<and> need_elsewhere ro \<and> stash ro = [])
       \<and> list_ex (is_undischargeable act)
            (found @ before_roots e r @ wf_blockers (tree_findings e r)) = False
       \<and> \<not> env_exhausted e r BeforeRoots \<and> \<not> env_exhausted e r BeforeTree
       \<and> \<not> env_exhausted e r BeforeRemotes"
proof -
  have budget: "\<not> env_exhausted e r BeforeRoots" "\<not> env_exhausted e r BeforeTree"
    using assms by (auto simp: analyse_repo.simps Let_def findings_of_def split: if_splits)
  define kids where "kids = map (\<lambda>c. analyse_nested e act c (depth + 1)) (repo_candidates e r)"
  define f4 where "f4 = found @ before_roots e r @ roots_blockers (read_roots e r)
      @ wf_blockers (tree_findings e r) @ concat (map child_blockers kids)"
  have v: "snd (last_step e act r (read_roots e r) f4)"
    using assms budget unfolding analyse_repo.simps Let_def f4_def kids_def
    by (simp add: split_beta)
  then obtain ro where ro: "read_roots e r = Inr ro" "need_elsewhere ro"
    "\<not> list_ex (is_undischargeable act) f4" "snd (elsewhere e r ro)"
    by (auto simp: last_step_def split: sum.splits if_splits prod.splits)
  have "stash ro = []"
    using ro(1,3) by (cases act) (auto simp: f4_def roots_blockers_def is_undischargeable_def split: if_splits)
  moreover have "\<exists>urls nm. env_urls e r = Some urls \<and> nm \<in> fst ` set urls
                     \<and> is_Answered (env_read_remote e r nm)"
    and "\<not> env_exhausted e r BeforeRemotes"
    using ro(4)
    by (auto simp: elsewhere_def Let_def summary_of_counts filter_empty_conv split: if_splits option.splits)
  ultimately show ?thesis using ro budget by (auto simp: f4_def)
qed

theorem verified_only_after_an_answer_witness:
  "is_Answered (env_read_remote (demo_env []) (bare_handle [''w'', ''g''] ''s'' Local) ''origin'')"
proof -
  have "f_verified (analyse_repo (demo_env []) Uninstall (bare_handle [''w'', ''g''] ''s'' Local) 0 [])"
    by code_simp
  from verified_only_after_an_answer [OF this] show ?thesis by (auto simp: demo_env_def)
qed

text \<open>
  C11: The act goes ahead only from an analysis that said Safe, and only when the location still
  resolves to a repository of the recorded identity whose state now has the digest of the state
  that was analysed; anything else is refused. The identity handed on is the recorded one.
\<close>

theorem act_only_on_the_analysed_state:
  "reread_before_act e' digest row (analyse e row act now) = Inr key \<longleftrightarrow>
     v_disposition (a_verdict (analyse e row act now)) = DispSafe
     \<and> key = lr_lineage_key row
     \<and> (\<exists>recorded live r. a_snapshot (analyse e row act now) = Some recorded
          \<and> resolve_row e' row = Some r \<and> identify e' r (lr_lineage_key row) = IdMatch
          \<and> env_snapshot e' r = Inr live \<and> digest live = digest recorded)"
proof -
  obtain f where f: "finishes_with e act row now (analyse e row act now) f"
    using analyse_finishes by metis
  then have "a_snapshot (analyse e row act now) \<noteq> None \<longleftrightarrow>
      v_disposition (a_verdict (analyse e row act now)) = DispSafe"
    by (simp add: finishes_with_def finish_safe_iff)
  then show ?thesis
    by (cases "a_snapshot (analyse e row act now)"; cases "resolve_row e' row")
       (auto simp: reread_before_act_def split: sum.splits)
qed

section \<open>The summary of what a removal would lose\<close>

lemma total_bytes_iff:
  "total_bytes acc es = None \<longleftrightarrow> (\<exists>x \<in> set es. pe_bytes x = None)"
  by (induction es arbitrary: acc) (auto split: option.splits)

lemma total_bytes_sum:
  assumes "\<forall>x \<in> set es. \<exists>b. pe_bytes x = Some b \<and> 0 \<le> b" "0 \<le> acc" "acc \<le> i64_max"
  shows "total_bytes acc es = Some (min i64_max (acc + (\<Sum>x\<leftarrow>es. the (pe_bytes x))))"
  using assms
proof (induction es arbitrary: acc)
  case (Cons x es)
  then obtain b where b: "pe_bytes x = Some b" "0 \<le> b" by auto
  have nn: "0 \<le> (\<Sum>x\<leftarrow>es. the (pe_bytes x))"
    using Cons.prems(1) by (intro sum_list_nonneg) force
  have "total_bytes (sat_i64 (acc + b)) es
      = Some (min i64_max (sat_i64 (acc + b) + (\<Sum>x\<leftarrow>es. the (pe_bytes x))))"
    using Cons b by (intro Cons.IH) (auto simp: sat_i64_def)
  then show ?case using b nn Cons.prems(2) by (simp add: sat_i64_def min_def)
qed simp

text \<open>The precious summary counts every path, shows at most twenty, the largest known sizes
  first, says when it left some out, and gives a total only when every size is known: the sum,
  held at the largest integer.\<close>

lemma summary_counts_everything:
  assumes "\<forall>x \<in> set es. \<forall>b. pe_bytes x = Some b \<longrightarrow> 0 \<le> b" and "int (length es) \<le> i64_max"
  shows "ps_total_count (summarise es) = int (length es)
    \<and> (\<exists>rest. mset (ps_entries (summarise es) @ rest) = mset es
         \<and> sorted (map precious_key (ps_entries (summarise es) @ rest))
         \<and> (ps_truncated (summarise es) \<longleftrightarrow> rest \<noteq> []))
    \<and> length (ps_entries (summarise es)) \<le> 20
    \<and> ps_total_bytes (summarise es) =
        (if \<exists>x \<in> set es. pe_bytes x = None then None
         else Some (min i64_max (\<Sum>x\<leftarrow>es. the (pe_bytes x))))"
proof -
  define ss where "ss = sort_key precious_key es"
  have ms: "mset ss = mset es" by (simp add: ss_def)
  have len: "length ss = length es" and st: "set ss = set es"
    using ms mset_eq_length mset_eq_setD by blast+
  have "(\<Sum>x\<leftarrow>ss. the (pe_bytes x)) = (\<Sum>x\<leftarrow>es. the (pe_bytes x))"
    using ms by (metis mset_map sum_mset_sum_list)
  moreover have "total_bytes 0 ss = (if \<exists>x \<in> set es. pe_bytes x = None then None
         else Some (min i64_max (\<Sum>x\<leftarrow>ss. the (pe_bytes x))))"
  proof (cases "\<exists>x \<in> set es. pe_bytes x = None")
    case True then show ?thesis using total_bytes_iff [of 0 ss] st by simp
  next
    case False
    then have "\<forall>x \<in> set ss. \<exists>b. pe_bytes x = Some b \<and> 0 \<le> b" using assms(1) st by fastforce
    then show ?thesis using total_bytes_sum [of ss 0] False by simp
  qed
  moreover have "mset (take 20 ss @ drop 20 ss) = mset es"
    "sorted (map precious_key (take 20 ss @ drop 20 ss))"
    "20 < length es \<longleftrightarrow> drop 20 ss \<noteq> []"
    using ms len by (auto simp: ss_def)
  ultimately show ?thesis
    using assms(2) len
    by (auto simp: summarise_def Let_def ss_def [symmetric] PRECIOUS_DISPLAY_CAP_def
        intro!: exI [of _ "drop 20 ss"] simp del: append_take_drop_id)
qed

lemma summary_counts_everything_instance:
  "ps_total_bytes (summarise [\<lparr>pe_path_display = ''a'', pe_bytes = Some 3\<rparr>,
                              \<lparr>pe_path_display = ''b'', pe_bytes = Some 4\<rparr>]) = Some 7"
  using summary_counts_everything
    [of "[\<lparr>pe_path_display = ''a'', pe_bytes = Some 3\<rparr>, \<lparr>pe_path_display = ''b'', pe_bytes = Some 4\<rparr>]"]
  by simp

end
