(* ===== verification/Job_Model.thy ===== *)
theory Job_Model
  imports Prelude
begin

text \<open>
  The scheduler's vocabulary and its durable state: \<open>jobs/mod.rs\<close> (kinds, bands, the job and what
  a run produces), \<open>git/error.rs\<close> (the errors and which of them defer), \<open>jobs/state.rs\<close> (the
  retry rules over one \<open>project_job_state\<close> row, the reset, the coverage) and the pure part of
  \<open>jobs/scheduler.rs\<close> (the chain of jobs, the mapping of an error to an outcome).
\<close>

section \<open>Kinds and bands\<close>

datatype job_kind =
  J1Refstate | J15Authorship | J2Status | J3Inventory | J4History | J5Art | J6Content | J7Markers

datatype job_scope = PerLocation | PrimaryOnly

definition ALL_KINDS :: "job_kind list" where
  "ALL_KINDS = [J1Refstate, J15Authorship, J2Status, J3Inventory, J4History, J5Art, J6Content,
                J7Markers]"

fun kind_slug :: "job_kind \<Rightarrow> string" where
  "kind_slug J1Refstate = ''j1''"
| "kind_slug J15Authorship = ''j1_5''"
| "kind_slug J2Status = ''j2''"
| "kind_slug J3Inventory = ''j3''"
| "kind_slug J4History = ''j4''"
| "kind_slug J5Art = ''j5''"
| "kind_slug J6Content = ''j6''"
| "kind_slug J7Markers = ''j7''"

definition kind_from_slug :: "string \<Rightarrow> job_kind option" where
  "kind_from_slug s = find (\<lambda>k. kind_slug k = s) ALL_KINDS"

text \<open>In milliseconds.\<close>

fun slice_budget :: "job_kind \<Rightarrow> nat option" where
  "slice_budget J1Refstate = Some 50"
| "slice_budget J2Status = Some 500"
| "slice_budget J3Inventory = Some 300"
| "slice_budget _ = None"

definition is_cacheable :: "job_kind \<Rightarrow> bool" where "is_cacheable k \<longleftrightarrow> k \<noteq> J2Status"

fun kind_scope :: "job_kind \<Rightarrow> job_scope" where
  "kind_scope J1Refstate = PerLocation"
| "kind_scope J2Status = PerLocation"
| "kind_scope _ = PrimaryOnly"

definition takes_j4_slot :: "job_kind \<Rightarrow> bool" where "takes_j4_slot k \<longleftrightarrow> k = J4History"

datatype priority = Interactive | RefState | Authorship | Standard | Reference | Deferred

fun prio_rank :: "priority \<Rightarrow> nat" where
  "prio_rank Interactive = 0"
| "prio_rank RefState = 1"
| "prio_rank Authorship = 2"
| "prio_rank Standard = 3"
| "prio_rank Reference = 4"
| "prio_rank Deferred = 5"

lemma prio_rank_inj: "prio_rank a = prio_rank b \<Longrightarrow> a = b"
  by (cases a; cases b; simp)

instantiation priority :: linorder
begin

definition less_eq_priority :: "priority \<Rightarrow> priority \<Rightarrow> bool" where
  "less_eq_priority a b \<longleftrightarrow> prio_rank a \<le> prio_rank b"

definition less_priority :: "priority \<Rightarrow> priority \<Rightarrow> bool" where
  "less_priority a b \<longleftrightarrow> prio_rank a < prio_rank b"

instance
  by standard (auto simp: less_eq_priority_def less_priority_def intro: prio_rank_inj)

end

datatype job_origin = Walk | FromUser

record job =
  job_kind :: job_kind
  job_project :: int
  job_location :: int
  store_key :: string
  store_kind :: store_class
  job_priority :: priority
  not_before :: int
  origin :: job_origin

section \<open>What a run produces\<close>

datatype job_state = Queued | Running | Done | DeferredSlow | Failed

definition ALL_STATES :: "job_state list" where
  "ALL_STATES = [Queued, Running, Done, DeferredSlow, Failed]"

fun state_slug :: "job_state \<Rightarrow> string" where
  "state_slug Queued = ''queued''"
| "state_slug Running = ''running''"
| "state_slug Done = ''ok''"
| "state_slug DeferredSlow = ''deferred_slow''"
| "state_slug Failed = ''failed''"

definition state_from_slug :: "string \<Rightarrow> job_state option" where
  "state_from_slug s =
     (if s = ''queued'' then Some Queued
      else if s = ''running'' then Some Running
      else if s = ''ok'' then Some Done
      else if s = ''deferred_slow'' then Some DeferredSlow
      else if s = ''failed'' then Some Failed
      else None)"

datatype git_error =
    GitMissing | TooOld string | Untrusted string | PermissionDenied string | PathGone string
  | StoreOffline string | Unreadable string | Stale string | Busy string | TornRead
  | Budget nat | Cancelled | Internal string | TransportRefused string | LazyFetchUnguarded

definition is_deferral :: "git_error \<Rightarrow> bool" where
  "is_deferral e = (case e of Busy _ \<Rightarrow> True | TornRead \<Rightarrow> True | Cancelled \<Rightarrow> True | _ \<Rightarrow> False)"

definition implies_absent :: "git_error \<Rightarrow> bool" where
  "implies_absent e = (case e of PathGone _ \<Rightarrow> True | _ \<Rightarrow> False)"

fun protocol_code :: "git_error \<Rightarrow> string option" where
  "protocol_code GitMissing = Some ''GIT_MISSING''"
| "protocol_code (TooOld _) = Some ''GIT_TOO_OLD''"
| "protocol_code (Untrusted _) = Some ''UNTRUSTED_REPO''"
| "protocol_code (PermissionDenied _) = Some ''PERMISSION_DENIED''"
| "protocol_code (PathGone _) = Some ''PATH_GONE''"
| "protocol_code (StoreOffline _) = Some ''STORE_OFFLINE''"
| "protocol_code (Unreadable _) = Some ''REPO_UNREADABLE''"
| "protocol_code (Stale _) = Some ''REPO_UNREADABLE''"
| "protocol_code LazyFetchUnguarded = Some ''REPO_UNREADABLE''"
| "protocol_code (Budget _) = Some ''BUDGET_EXCEEDED''"
| "protocol_code (Internal _) = Some ''INTERNAL''"
| "protocol_code (Busy _) = None"
| "protocol_code TornRead = None"
| "protocol_code Cancelled = None"
| "protocol_code (TransportRefused _) = None"

fun git_error_kind :: "git_error \<Rightarrow> string" where
  "git_error_kind (Untrusted _) = ''UNTRUSTED_REPO''"
| "git_error_kind (PermissionDenied _) = ''PERMISSION_DENIED''"
| "git_error_kind GitMissing = ''GIT_MISSING''"
| "git_error_kind (TooOld _) = ''GIT_TOO_OLD''"
| "git_error_kind (StoreOffline _) = ''STORE_OFFLINE''"
| "git_error_kind (PathGone _) = ''PATH_GONE''"
| "git_error_kind (Budget _) = ''BUDGET_EXCEEDED''"
| "git_error_kind _ = ''REPO_UNREADABLE''"

datatype 'ix job_error =
    JeGit git_error | JeIndex 'ix | JeIo string | RepositoryBusy | JeTornRead | BudgetExceeded

datatype job_outcome =
    OutDone
  | Partial string int "int option"
  | Degraded
  | TransientFail string
  | HardFail string string

text \<open>\<open>execute\<close>'s mapping of a run's result; the two functions give the derived \<open>Debug\<close> text of
  an error, which is diagnostic only.\<close>

definition outcome_of ::
  "(git_error \<Rightarrow> string) \<Rightarrow> ('ix \<Rightarrow> string) \<Rightarrow> 'ix job_error + job_outcome \<Rightarrow> job_outcome" where
  "outcome_of show_git show_index result =
     (case result of
        Inr outcome \<Rightarrow> outcome
      | Inl RepositoryBusy \<Rightarrow> TransientFail ''repository_busy''
      | Inl JeTornRead \<Rightarrow> TransientFail ''torn_read''
      | Inl BudgetExceeded \<Rightarrow> TransientFail ''budget_exceeded''
      | Inl (JeGit e) \<Rightarrow>
          if is_deferral e then TransientFail (show_git e)
          else HardFail (git_error_kind e) (show_git e)
      | Inl (JeIndex e) \<Rightarrow> HardFail ''INTERNAL'' (show_index e)
      | Inl (JeIo detail) \<Rightarrow> HardFail ''REPO_UNREADABLE'' detail)"

section \<open>The durable row\<close>

record job_state_row =
  row_job :: job_kind
  row_state :: job_state
  fail_count :: nat
  reason :: "string option"
  row_at :: int
  cursor :: "string option"
  progress_done :: "int option"
  progress_total :: "int option"

definition fresh_row :: "job_kind \<Rightarrow> job_state \<Rightarrow> int \<Rightarrow> job_state_row" where
  "fresh_row k s t =
     \<lparr>row_job = k, row_state = s, fail_count = 0, reason = None, row_at = t, cursor = None,
      progress_done = None, progress_total = None\<rparr>"

definition MAX_TRANSIENT_FAILS :: nat where "MAX_TRANSIENT_FAILS = 3"

definition backoff_secs :: "nat \<Rightarrow> int" where
  "backoff_secs n = min 60 (2 ^ min n 30)"

definition apply_outcome ::
  "job_state_row \<Rightarrow> job_outcome \<Rightarrow> int \<Rightarrow> job_state_row \<times> int option" where
  "apply_outcome row outcome now =
     (let next = row\<lparr>row_at := now\<rparr>
      in case outcome of
           OutDone \<Rightarrow>
             (next\<lparr>row_state := Done, fail_count := 0, reason := None, cursor := None\<rparr>, None)
         | Degraded \<Rightarrow>
             (next\<lparr>row_state := Done, fail_count := 0, reason := Some ''degraded_tracked_only'',
                   cursor := None\<rparr>, None)
         | Partial c d t \<Rightarrow>
             (next\<lparr>row_state := Queued, cursor := Some c, progress_done := Some d,
                   progress_total := t\<rparr>, Some now)
         | TransientFail r \<Rightarrow>
             (let next = next\<lparr>fail_count := sat_u32 (fail_count next + 1), reason := Some r\<rparr>
              in if MAX_TRANSIENT_FAILS \<le> fail_count next
                 then (next\<lparr>row_state := DeferredSlow\<rparr>, None)
                 else (next\<lparr>row_state := Queued\<rparr>,
                       Some (sat_i64 (now + backoff_secs (fail_count next)))))
         | HardFail k detail \<Rightarrow>
             (next\<lparr>row_state := Failed, fail_count := sat_u32 (fail_count next + 1),
                   reason := Some (k @ '': '' @ detail)\<rparr>, None))"

datatype reset_cause = FingerprintChanged | StoreReturned | GitUpgraded | AppUpgraded | UserRequested

fun reset_slug :: "reset_cause \<Rightarrow> string" where
  "reset_slug FingerprintChanged = ''fingerprint_changed''"
| "reset_slug StoreReturned = ''store_returned''"
| "reset_slug GitUpgraded = ''git_upgraded''"
| "reset_slug AppUpgraded = ''app_upgraded''"
| "reset_slug UserRequested = ''user_requested''"

text \<open>The \<open>project_job_state\<close> table, keyed by project and job as its conflict clause is.\<close>

type_synonym job_table = "(int \<times> job_kind) \<Rightarrow> job_state_row option"

definition put_row :: "int \<Rightarrow> job_state_row \<Rightarrow> job_table \<Rightarrow> job_table" where
  "put_row p row t = t((p, row_job row) \<mapsto> row)"

definition resettable :: "job_state_row \<Rightarrow> bool" where
  "resettable row \<longleftrightarrow> row_state row = DeferredSlow \<or> row_state row = Failed"

definition reset_for :: "job_table \<Rightarrow> int \<Rightarrow> reset_cause \<Rightarrow> int \<Rightarrow> nat \<times> job_table" where
  "reset_for t p cause now =
     (length (filter (\<lambda>k. case t (p, k) of Some row \<Rightarrow> resettable row | None \<Rightarrow> False) ALL_KINDS),
      \<lambda>(q, k). case t (q, k) of
         None \<Rightarrow> None
       | Some row \<Rightarrow>
           Some (if q = p \<and> resettable row
                 then row\<lparr>row_state := Queued, fail_count := 0, reason := Some (reset_slug cause),
                          row_at := now\<rparr>
                 else row))"

record job_coverage =
  has_j1_result :: bool
  inventory_done :: bool

definition coverage_for :: "job_table \<Rightarrow> int \<Rightarrow> job_coverage" where
  "coverage_for t p =
     (let fin = (\<lambda>k. case t (p, k) of Some row \<Rightarrow> row_state row = Done | None \<Rightarrow> False)
      in \<lparr>has_j1_result = fin J1Refstate, inventory_done = fin J3Inventory\<rparr>)"

section \<open>The chain\<close>

definition next_jobs_after :: "job_kind \<Rightarrow> bool option \<Rightarrow> (job_kind \<times> priority) list" where
  "next_jobs_after k is_reference =
     (let band = (if is_reference = Some True then Reference else Standard)
      in case k of
           J1Refstate \<Rightarrow> [(J15Authorship, Authorship)]
         | J15Authorship \<Rightarrow>
             [(J2Status, band), (J3Inventory, band), (J4History, Deferred)]
             @ (if is_reference = Some False then [(J7Markers, Deferred)] else [])
         | J3Inventory \<Rightarrow> [(J6Content, Deferred), (J5Art, Deferred)]
         | _ \<Rightarrow> [])"

section \<open>Lemmas\<close>

lemma kind_slug_roundtrip [simp]: "kind_from_slug (kind_slug k) = Some k"
  by (cases k) (simp_all add: kind_from_slug_def ALL_KINDS_def)

lemma state_slug_roundtrip [simp]: "state_from_slug (state_slug s) = Some s"
  by (cases s) (simp_all add: state_from_slug_def)

lemma backoff_bounds: "1 \<le> backoff_secs n \<and> backoff_secs n \<le> 60"
  by (simp add: backoff_secs_def)

lemma backoff_values [simp]: "backoff_secs 1 = 2" "backoff_secs 2 = 4" "backoff_secs (Suc 0) = 2"
  by (simp_all add: backoff_secs_def)

section \<open>Properties\<close>

text \<open>The outcomes of a job's successive runs, while each run ends with a requeue.\<close>

fun requeued_through :: "job_state_row \<Rightarrow> (job_outcome \<times> int) list \<Rightarrow> bool" where
  "requeued_through row [] = True"
| "requeued_through row ((out, now) # outs) =
     (case apply_outcome row out now of
        (next, Some _) \<Rightarrow> requeued_through next outs
      | (_, None) \<Rightarrow> False)"

definition is_transient :: "job_outcome \<Rightarrow> bool" where
  "is_transient out = (case out of TransientFail _ \<Rightarrow> True | _ \<Rightarrow> False)"

lemma requeued_through_bound:
  "requeued_through row outs \<Longrightarrow> fail_count row \<le> 2 \<Longrightarrow>
     fail_count row + length (filter (is_transient \<circ> fst) outs) \<le> 2"
proof (induction outs arbitrary: row)
  case (Cons o' outs)
  obtain out now where o': "o' = (out, now)" by fastforce
  obtain nxt t where t: "apply_outcome row out now = (nxt, Some t)"
    using Cons.prems(1) unfolding o' by (auto split: prod.splits option.splits)
  then have rest: "requeued_through nxt outs" using Cons.prems(1) unfolding o' by simp
  have "fail_count nxt = fail_count row + (if is_transient out then 1 else 0) \<and> fail_count nxt \<le> 2"
    using t Cons.prems(2)
    by (cases out) (auto simp: apply_outcome_def Let_def is_transient_def MAX_TRANSIENT_FAILS_def
        sat_u32_def split: if_splits)
  with Cons.IH [OF rest] show ?case unfolding o' by (auto simp: is_transient_def)
qed simp

text \<open>
  Transient failures cannot keep a job running for ever: from a fresh row, however many
  chunks it yields between them, a job that is still being requeued has failed at most twice, and
  the third failure defers it. A chunk boundary never resets the count.
\<close>

theorem transient_failures_bounded:
  assumes "requeued_through (fresh_row k s t) outs"
  shows "length (filter (is_transient \<circ> fst) outs) \<le> 2
     \<and> (length (filter (is_transient \<circ> fst) outs) = 2 \<longrightarrow>
         \<not> requeued_through (fresh_row k s t) (outs @ [(TransientFail r, now)]))"
proof (intro conjI impI)
  show "length (filter (is_transient \<circ> fst) outs) \<le> 2"
    using requeued_through_bound [OF assms] by (simp add: fresh_row_def)
  assume two: "length (filter (is_transient \<circ> fst) outs) = 2"
  show "\<not> requeued_through (fresh_row k s t) (outs @ [(TransientFail r, now)])"
  proof
    assume "requeued_through (fresh_row k s t) (outs @ [(TransientFail r, now)])"
    from requeued_through_bound [OF this] two show False
      by (simp add: fresh_row_def is_transient_def)
  qed
qed

theorem transient_failures_bounded_witness:
  "\<not> requeued_through (fresh_row J4History Running 0)
     [(TransientFail ''a'', 1), (Partial ''c'' 1 None, 3), (TransientFail ''b'', 9),
      (TransientFail ''c'', 20)]"
proof -
  have "requeued_through (fresh_row J4History Running 0)
     [(TransientFail ''a'', 1), (Partial ''c'' 1 None, 3), (TransientFail ''b'', 9)]"
    by (simp add: apply_outcome_def fresh_row_def MAX_TRANSIENT_FAILS_def sat_u32_def)
  from transient_failures_bounded [OF this, of "''c''" 20] show ?thesis
    by (simp add: is_transient_def)
qed

text \<open>One outcome's effect on the row. A reading (complete or degraded) clears the failures and
  the cursor and is never requeued; a chunk keeps the failures, stores its cursor and runs again at
  once; the first and second transient failures wait two and four seconds; the third defers; a hard
  failure is never requeued. The row's time is the settle's.\<close>

lemma apply_outcome_cases:
  assumes "fail_count row < 3" and "in_i64 (now + 60)" and "in_i64 now"
  shows "row_at (fst (apply_outcome row out now)) = now
     \<and> row_job (fst (apply_outcome row out now)) = row_job row
     \<and> (case out of
          OutDone \<Rightarrow> row_state (fst (apply_outcome row out now)) = Done
                    \<and> fail_count (fst (apply_outcome row out now)) = 0
                    \<and> snd (apply_outcome row out now) = None
        | Degraded \<Rightarrow> row_state (fst (apply_outcome row out now)) = Done
                    \<and> reason (fst (apply_outcome row out now)) = Some ''degraded_tracked_only''
                    \<and> snd (apply_outcome row out now) = None
        | Partial c d n \<Rightarrow> row_state (fst (apply_outcome row out now)) = Queued
                    \<and> cursor (fst (apply_outcome row out now)) = Some c
                    \<and> fail_count (fst (apply_outcome row out now)) = fail_count row
                    \<and> snd (apply_outcome row out now) = Some now
        | TransientFail r \<Rightarrow>
            apply_outcome row out now =
              (row\<lparr>row_at := now, fail_count := fail_count row + 1, reason := Some r,
                   row_state := (if fail_count row = 2 then DeferredSlow else Queued)\<rparr>,
               if fail_count row = 2 then None else Some (now + 2 * int (fail_count row + 1)))
        | HardFail kd detail \<Rightarrow> row_state (fst (apply_outcome row out now)) = Failed
                    \<and> snd (apply_outcome row out now) = None)"
proof -
  have "fail_count row = 0 \<or> fail_count row = 1 \<or> fail_count row = 2" using assms(1) by arith
  then show ?thesis using assms(2,3)
    by (cases out)
       (auto simp: apply_outcome_def Let_def MAX_TRANSIENT_FAILS_def sat_u32_def sat_i64_def
         in_i64_def numeral_2_eq_2 backoff_secs_def)
qed

lemma apply_outcome_cases_instance:
  "apply_outcome (fresh_row J2Status Running 5) (TransientFail ''busy'') 100 =
     ((fresh_row J2Status Queued 100)\<lparr>fail_count := 1, reason := Some ''busy''\<rparr>, Some 102)"
  using apply_outcome_cases [of "fresh_row J2Status Running 5" 100 "TransientFail ''busy''"]
  by (simp add: fresh_row_def in_i64_def)

inductive follows :: "bool option \<Rightarrow> job_kind \<Rightarrow> job_kind \<Rightarrow> bool" for r where
  follows_refl: "follows r k k"
| follows_step: "follows r k k' \<Longrightarrow> (k'', p) \<in> set (next_jobs_after k' r) \<Longrightarrow> follows r k k''"

definition chain_rank :: "job_kind \<Rightarrow> nat" where
  "chain_rank k = (case k of J1Refstate \<Rightarrow> 3 | J15Authorship \<Rightarrow> 2 | J3Inventory \<Rightarrow> 1 | _ \<Rightarrow> 0)"

lemma next_jobs_rank: "(k', p) \<in> set (next_jobs_after k r) \<Longrightarrow> chain_rank k' < chain_rank k"
  by (cases k) (auto simp: next_jobs_after_def Let_def chain_rank_def split: if_splits)

lemma next_jobs_J7: "(J7Markers, p) \<in> set (next_jobs_after k r) \<Longrightarrow> r = Some False"
  by (cases k) (auto simp: next_jobs_after_def Let_def split: if_splits)

lemma follows_J7: "follows r k J7Markers \<Longrightarrow> k = J7Markers \<or> r = Some False"
  by (cases rule: follows.cases) (auto dest: next_jobs_J7)

text \<open>The chain a settled job starts always ends, and from the ref-state job it reaches every
  kind of job, except that debt markers are read only where authorship resolved to not-Reference:
  not computed is not Reference, and is not a licence to scan either.\<close>

theorem chain_is_complete_and_ends:
  "{k. follows r J1Refstate k} = (if r = Some False then UNIV else UNIV - {J7Markers})
   \<and> wf {(k', k). k' \<in> fst ` set (next_jobs_after k r)}"
proof
  have step: "follows r J1Refstate k \<Longrightarrow> (k', p) \<in> set (next_jobs_after k r) \<Longrightarrow>
      follows r J1Refstate k'" for k k' p
    by (rule follows_step)
  have j15: "follows r J1Refstate J15Authorship"
    by (rule step [OF follows_refl, of _ Authorship]) (simp add: next_jobs_after_def)
  have after15: "follows r J1Refstate J2Status" "follows r J1Refstate J3Inventory"
    "follows r J1Refstate J4History" "r = Some False \<Longrightarrow> follows r J1Refstate J7Markers"
    by (rule step [OF j15]; force simp: next_jobs_after_def Let_def)+
  have after3: "follows r J1Refstate J6Content" "follows r J1Refstate J5Art"
    by (rule step [OF after15(2), of _ Deferred]; simp add: next_jobs_after_def)+
  have "follows r J1Refstate k" if "k \<noteq> J7Markers \<or> r = Some False" for k
    using that j15 after15 after3 follows_refl [of r J1Refstate] by (cases k) auto
  then show "{k. follows r J1Refstate k} = (if r = Some False then UNIV else UNIV - {J7Markers})"
    using follows_J7 [of r J1Refstate] by auto
  have "{(k', k). k' \<in> fst ` set (next_jobs_after k r)} \<subseteq> measure chain_rank"
    using next_jobs_rank by auto
  then show "wf {(k', k). k' \<in> fst ` set (next_jobs_after k r)}"
    using wf_measure wf_subset by metis
qed

text \<open>A reset revives every deferred or failed job of its project and no other row, reports how
  many it revived, and changes nothing the coverage caption reads.\<close>

theorem reset_revives_exactly:
  "let (n, t') = reset_for t p cause now
   in (\<forall>k. case t (p, k) of
             None \<Rightarrow> t' (p, k) = None
           | Some row \<Rightarrow>
               t' (p, k) = Some (if row_state row \<in> {DeferredSlow, Failed}
                 then row\<lparr>row_state := Queued, fail_count := 0,
                          reason := Some (reset_slug cause), row_at := now\<rparr> else row))
      \<and> (\<forall>q k. t' (q, k) \<noteq> t (q, k) \<longrightarrow> q = p)
      \<and> n = card {k. \<exists>row. t (p, k) = Some row \<and> row_state row \<in> {DeferredSlow, Failed}}
      \<and> (\<forall>q. coverage_for t' q = coverage_for t q)"
proof -
  define t' where "t' = snd (reset_for t p cause now)"
  have t': "t' (q, k) = (case t (q, k) of None \<Rightarrow> None
       | Some row \<Rightarrow> Some (if q = p \<and> resettable row
                 then row\<lparr>row_state := Queued, fail_count := 0, reason := Some (reset_slug cause),
                          row_at := now\<rparr>
                 else row))" for q k
    by (simp add: t'_def reset_for_def)
  have cov: "coverage_for t' q = coverage_for t q" for q
    by (auto simp: coverage_for_def t' resettable_def Let_def split: option.splits)
  have "set (filter (\<lambda>k. case t (p, k) of Some row \<Rightarrow> resettable row | None \<Rightarrow> False) ALL_KINDS)
      = {k. \<exists>row. t (p, k) = Some row \<and> row_state row \<in> {DeferredSlow, Failed}}"
  proof -
    have "set ALL_KINDS = UNIV" using job_kind.exhaust by (auto simp: ALL_KINDS_def)
    then show ?thesis by (auto simp: resettable_def split: option.splits)
  qed
  moreover have "distinct ALL_KINDS" by (simp add: ALL_KINDS_def)
  ultimately have fst_n: "fst (reset_for t p cause now)
      = card {k. \<exists>row. t (p, k) = Some row \<and> row_state row \<in> {DeferredSlow, Failed}}"
    unfolding reset_for_def fst_conv
    using distinct_card [OF distinct_filter, of ALL_KINDS
      "\<lambda>k. case t (p, k) of Some row \<Rightarrow> resettable row | None \<Rightarrow> False"] by simp
  obtain m where eq: "reset_for t p cause now = (m, t')" by (cases "reset_for t p cause now") (simp add: t'_def)
  have own: "\<forall>k. case t (p, k) of None \<Rightarrow> t' (p, k) = None
     | Some row \<Rightarrow> t' (p, k) = Some (if row_state row \<in> {DeferredSlow, Failed}
                 then row\<lparr>row_state := Queued, fail_count := 0,
                          reason := Some (reset_slug cause), row_at := now\<rparr> else row)"
    unfolding t' resettable_def by (simp split: option.split)
  have other: "q = p" if "t' (q, k) \<noteq> t (q, k)" for q k
  proof (rule ccontr)
    assume "q \<noteq> p" then have "t' (q, k) = t (q, k)" by (simp add: t' split: option.split)
    with that show False by simp
  qed
  have n: "m = card {k. \<exists>row. t (p, k) = Some row \<and> row_state row \<in> {DeferredSlow, Failed}}"
    using fst_n eq by simp
  show ?thesis
    unfolding eq Let_def prod.case using cov own other n by blast
qed

theorem reset_revives_exactly_witness:
  "coverage_for (snd (reset_for [(7, J2Status) \<mapsto> fresh_row J2Status Failed 0] 7 UserRequested 9)) 7
   = coverage_for [(7, J2Status) \<mapsto> fresh_row J2Status Failed 0] 7"
  using reset_revives_exactly [where t = "[(7, J2Status) \<mapsto> fresh_row J2Status Failed 0]"
      and p = 7 and cause = UserRequested and now = 9]
  by (simp add: case_prod_beta)

text \<open>A run's error never claims more than git said. A path is reported gone only when git said
  it is gone; a lock, a torn read or a cancellation is retried and never recorded as an error; every
  other git error is filed under the code the protocol gives it, except a defect of the program's
  own, which is filed as an unreadable repository.\<close>

theorem errors_file_honestly:
  "(outcome_of sg si (Inl (JeGit e)) = HardFail ''PATH_GONE'' (sg e) \<longleftrightarrow> implies_absent e)
   \<and> (is_transient (outcome_of sg si (Inl (JeGit e))) \<longleftrightarrow> e \<in> range Busy \<union> {TornRead, Cancelled})
   \<and> (protocol_code e = Some (git_error_kind e) \<longleftrightarrow>
        e \<notin> range Busy \<union> range Internal \<union> range TransportRefused \<union> {TornRead, Cancelled})
   \<and> git_error_kind (Internal d) = ''REPO_UNREADABLE''"
  by (cases e) (auto simp: outcome_of_def implies_absent_def is_deferral_def is_transient_def)

text \<open>The stored names of jobs and states are read back as what was written, every name of the
  two vocabularies (\<open>j5\<close> included) and no other.\<close>

lemma slugs_round_trip:
  "(kind_from_slug s = Some k \<longleftrightarrow> s = kind_slug k)
   \<and> (state_from_slug s = Some st \<longleftrightarrow> s = state_slug st)"
proof
  show "kind_from_slug s = Some k \<longleftrightarrow> s = kind_slug k"
    using kind_slug_roundtrip [of k]
    by (auto simp: kind_from_slug_def find_Some_iff simp del: kind_slug_roundtrip)
  show "state_from_slug s = Some st \<longleftrightarrow> s = state_slug st"
    by (cases st) (auto simp: state_from_slug_def split: if_splits)
qed

end
