(* ===== verification/Job_Queue.thy ===== *)
theory Job_Queue
  imports Job_Model Ordered_Map "HOL-Library.Multiset"
begin

text \<open>
  \<open>jobs/queue.rs\<close>: the slot table, which admits a job when the global cap, its store's cap and the
  two J4 caps leave room, and the queue, ordered by band and then by insertion. The locale
  \<open>slot_table\<close> is what the queue's users rely on: that taking and releasing keep the table equal to
  the multiset of jobs that hold a slot; \<open>admitting_queue\<close> adds that a pop takes the slot it
  checked. Both are interpreted on the code's own definitions.
\<close>

section \<open>Slots\<close>

definition DEFAULT_STORE_CAP :: nat where "DEFAULT_STORE_CAP = 4"

record slot_state =
  global_cap :: nat
  j4_cap :: nat
  in_flight :: nat
  j4_in_flight :: nat
  stores :: "string \<Rightarrow> (nat \<times> nat) option"
  j4_stores :: "string \<Rightarrow> nat option"

definition new_slots :: "nat \<Rightarrow> slot_state" where
  "new_slots cap =
     \<lparr>global_cap = max cap 1, j4_cap = max (cap div 4) 1, in_flight = 0, j4_in_flight = 0,
      stores = Map.empty, j4_stores = Map.empty\<rparr>"

definition store_cap_for :: "store_class \<Rightarrow> nat" where
  "store_cap_for k = per_store_cap k"

definition set_store_cap :: "string \<Rightarrow> nat \<Rightarrow> slot_state \<Rightarrow> slot_state" where
  "set_store_cap key cap s =
     s\<lparr>stores := (stores s)(key \<mapsto> (case stores s key of Some (used, _) \<Rightarrow> (used, max cap 1)
                                     | None \<Rightarrow> (0, max cap 1)))\<rparr>"

definition can_take :: "slot_state \<Rightarrow> job \<Rightarrow> bool" where
  "can_take s j =
     (if in_flight s \<ge> global_cap s then False
      else let (used, cap) = (case stores s (store_key j) of
                                Some e \<Rightarrow> e | None \<Rightarrow> (0, DEFAULT_STORE_CAP))
           in if used \<ge> cap then False
              else if takes_j4_slot (job_kind j) then
                (if j4_in_flight s \<ge> j4_cap s then False
                 else \<not> (case j4_stores s (store_key j) of Some n \<Rightarrow> n | None \<Rightarrow> 0) \<ge> 1)
              else True)"

definition take_slot :: "slot_state \<Rightarrow> job \<Rightarrow> slot_state" where
  "take_slot s j =
     (let s = s\<lparr>in_flight := sat_u64 (in_flight s + 1)\<rparr>;
          (used, cap) = (case stores s (store_key j) of
                           Some e \<Rightarrow> e | None \<Rightarrow> (0, DEFAULT_STORE_CAP));
          s = s\<lparr>stores := (stores s)(store_key j \<mapsto> (sat_u64 (used + 1), cap))\<rparr>
      in if takes_j4_slot (job_kind j)
         then s\<lparr>j4_in_flight := sat_u64 (j4_in_flight s + 1),
                j4_stores := (j4_stores s)(store_key j \<mapsto>
                  (case j4_stores s (store_key j) of Some n \<Rightarrow> n | None \<Rightarrow> 0) + 1)\<rparr>
         else s)"

definition release_slot :: "slot_state \<Rightarrow> job \<Rightarrow> slot_state" where
  "release_slot s j =
     (let s = s\<lparr>in_flight := in_flight s - 1\<rparr>;
          s = (case stores s (store_key j) of
                 Some (used, cap) \<Rightarrow> s\<lparr>stores := (stores s)(store_key j \<mapsto> (used - 1, cap))\<rparr>
               | None \<Rightarrow> s)
      in if takes_j4_slot (job_kind j)
         then (let s = s\<lparr>j4_in_flight := j4_in_flight s - 1\<rparr>
               in case j4_stores s (store_key j) of
                    Some n \<Rightarrow> s\<lparr>j4_stores := (j4_stores s)(store_key j \<mapsto> n - 1)\<rparr>
                  | None \<Rightarrow> s)
         else s)"

section \<open>The queue\<close>

type_synonym queue_key = "priority \<times> nat"

record job_queue =
  qseq :: nat
  ready :: "(queue_key, job) btree"
  qindex :: "(job_kind \<times> int) \<Rightarrow> queue_key option"

definition new_queue :: job_queue where
  "new_queue = \<lparr>qseq = 0, ready = [], qindex = Map.empty\<rparr>"

definition ident :: "job \<Rightarrow> job_kind \<times> int" where
  "ident j = (job_kind j, job_location j)"

definition push :: "job \<Rightarrow> job_queue \<Rightarrow> bool \<times> job_queue" where
  "push j q =
     (case qindex q (ident j) of
        Some existing \<Rightarrow>
          if fst existing \<le> job_priority j then (False, q)
          else (let key = (job_priority j, snd existing)
                in (True, q\<lparr>ready := bt_insert key j (bt_remove existing (ready q)),
                            qindex := (qindex q)(ident j \<mapsto> key)\<rparr>))
      | None \<Rightarrow>
          let n = sat_u64 (qseq q + 1); key = (job_priority j, n)
          in (True, q\<lparr>qseq := n, ready := bt_insert key j (ready q),
                      qindex := (qindex q)(ident j \<mapsto> key)\<rparr>))"

definition pop_ready ::
  "int \<Rightarrow> job_queue \<Rightarrow> slot_state \<Rightarrow> (job \<times> job_queue \<times> slot_state) option" where
  "pop_ready now q s =
     (case find (\<lambda>(k, j). not_before j \<le> now \<and> can_take s j) (ready q) of
        None \<Rightarrow> None
      | Some (chosen, _) \<Rightarrow>
          (case map_of (ready q) chosen of
             None \<Rightarrow> None
           | Some j \<Rightarrow>
               Some (j, q\<lparr>ready := bt_remove chosen (ready q),
                          qindex := (qindex q)(ident j := None)\<rparr>, take_slot s j)))"

definition queue_len :: "job_queue \<Rightarrow> nat" where "queue_len q = length (ready q)"

definition queue_is_empty :: "job_queue \<Rightarrow> bool" where "queue_is_empty q \<longleftrightarrow> ready q = []"

definition has_due :: "job_queue \<Rightarrow> int \<Rightarrow> bool" where
  "has_due q now = list_ex (\<lambda>(k, j). not_before j \<le> now) (ready q)"

section \<open>The interface the pool relies on\<close>

locale slot_table =
  fixes can :: "'s \<Rightarrow> 'j \<Rightarrow> bool" and tk :: "'s \<Rightarrow> 'j \<Rightarrow> 's" and give :: "'s \<Rightarrow> 'j \<Rightarrow> 's"
    and held :: "'s \<Rightarrow> 'j multiset \<Rightarrow> bool"
  assumes held_take: "held s M \<Longrightarrow> can s j \<Longrightarrow> held (tk s j) (add_mset j M)"
    and held_give: "held s (add_mset j M) \<Longrightarrow> held (give s j) M"
begin

lemma held_release: "held s M \<Longrightarrow> j \<in># M \<Longrightarrow> held (give s j) (M - {#j#})"
  using held_give [of s j "M - {#j#}"] by simp

lemma held_take_give: "held s M \<Longrightarrow> can s j \<Longrightarrow> held (give (tk s j) j) M"
  using held_take held_give by blast

end

locale admitting_queue = slot_table can tk give held
  for can :: "'s \<Rightarrow> 'j \<Rightarrow> bool" and tk :: "'s \<Rightarrow> 'j \<Rightarrow> 's" and give :: "'s \<Rightarrow> 'j \<Rightarrow> 's"
    and held :: "'s \<Rightarrow> 'j multiset \<Rightarrow> bool" +
  fixes pop :: "'t \<Rightarrow> 'q \<Rightarrow> 's \<Rightarrow> ('j \<times> 'q \<times> 's) option" and qok :: "'q \<Rightarrow> bool"
  assumes pop_admits: "qok q \<Longrightarrow> pop t q s = Some (j, q', s') \<Longrightarrow> can s j \<and> s' = tk s j"
    and pop_ok: "qok q \<Longrightarrow> pop t q s = Some (j, q', s') \<Longrightarrow> qok q'"
begin

lemma held_pop:
  "qok q \<Longrightarrow> held s M \<Longrightarrow> pop t q s = Some (j, q', s') \<Longrightarrow> held s' (add_mset j M)"
  using pop_admits held_take by blast

end

section \<open>The slot table is the multiset of the jobs that hold a slot\<close>

definition used_in :: "slot_state \<Rightarrow> string \<Rightarrow> nat" where
  "used_in s k = (case stores s k of Some (u, _) \<Rightarrow> u | None \<Rightarrow> 0)"

definition j4_used_in :: "slot_state \<Rightarrow> string \<Rightarrow> nat" where
  "j4_used_in s k = (case j4_stores s k of Some n \<Rightarrow> n | None \<Rightarrow> 0)"

definition on_store :: "string \<Rightarrow> job multiset \<Rightarrow> job multiset" where
  "on_store k M = {#j \<in># M. store_key j = k#}"

definition j4s :: "job multiset \<Rightarrow> job multiset" where
  "j4s M = {#j \<in># M. takes_j4_slot (job_kind j)#}"

definition slots_hold :: "slot_state \<Rightarrow> job multiset \<Rightarrow> bool" where
  "slots_hold s M \<longleftrightarrow>
     in_flight s = size M \<and> size M \<le> global_cap s \<and> global_cap s \<le> u64_max
     \<and> j4_in_flight s = size (j4s M) \<and> size (j4s M) \<le> j4_cap s
     \<and> (\<forall>k. used_in s k = size (on_store k M))
     \<and> (\<forall>k. j4_used_in s k = size (on_store k (j4s M)) \<and> size (on_store k (j4s M)) \<le> 1)"

lemma on_store_add [simp]:
  "on_store k (add_mset j M) = (if store_key j = k then add_mset j (on_store k M) else on_store k M)"
  "on_store k {#} = {#}"
  by (simp_all add: on_store_def)

lemma j4s_add [simp]:
  "j4s (add_mset j M) = (if takes_j4_slot (job_kind j) then add_mset j (j4s M) else j4s M)"
  "j4s {#} = {#}"
  by (simp_all add: j4s_def)

lemma size_filters: "size (on_store k M) \<le> size M" "size (j4s M) \<le> size M"
  by (simp_all add: on_store_def j4s_def size_filter_mset_lesseq)

lemma can_take_iff:
  "can_take s j \<longleftrightarrow> in_flight s < global_cap s
     \<and> used_in s (store_key j)
         < (case stores s (store_key j) of Some (_, c) \<Rightarrow> c | None \<Rightarrow> DEFAULT_STORE_CAP)
     \<and> (takes_j4_slot (job_kind j) \<longrightarrow>
          j4_in_flight s < j4_cap s \<and> j4_used_in s (store_key j) = 0)"
  by (cases "stores s (store_key j)"; cases "j4_stores s (store_key j)")
     (auto simp: can_take_def used_in_def j4_used_in_def DEFAULT_STORE_CAP_def)

lemma take_slot_fields:
  "global_cap (take_slot s j) = global_cap s" "j4_cap (take_slot s j) = j4_cap s"
  "in_flight (take_slot s j) = sat_u64 (in_flight s + 1)"
  "j4_in_flight (take_slot s j) =
     (if takes_j4_slot (job_kind j) then sat_u64 (j4_in_flight s + 1) else j4_in_flight s)"
  "used_in (take_slot s j) k =
     (if k = store_key j then sat_u64 (used_in s k + 1) else used_in s k)"
  "j4_used_in (take_slot s j) k =
     (if k = store_key j \<and> takes_j4_slot (job_kind j) then j4_used_in s k + 1 else j4_used_in s k)"
  by (auto simp: take_slot_def Let_def used_in_def j4_used_in_def split: option.splits prod.splits)

lemma release_slot_fields:
  "global_cap (release_slot s j) = global_cap s" "j4_cap (release_slot s j) = j4_cap s"
  "in_flight (release_slot s j) = in_flight s - 1"
  "j4_in_flight (release_slot s j) =
     (if takes_j4_slot (job_kind j) then j4_in_flight s - 1 else j4_in_flight s)"
  "used_in (release_slot s j) k = (if k = store_key j then used_in s k - 1 else used_in s k)"
  "j4_used_in (release_slot s j) k =
     (if k = store_key j \<and> takes_j4_slot (job_kind j) then j4_used_in s k - 1 else j4_used_in s k)"
  by (auto simp: release_slot_def Let_def used_in_def j4_used_in_def split: option.splits prod.splits)

lemma slots_hold_take:
  assumes h: "slots_hold s M" and c: "can_take s j"
  shows "slots_hold (take_slot s j) (add_mset j M)"
proof -
  have lt: "Suc (size M) \<le> u64_max" using h c by (auto simp: slots_hold_def can_take_iff)
  have s1: "size (on_store k M) \<le> size M" "size (j4s M) \<le> size M" for k by (rule size_filters)+
  have g: "n \<le> size M \<Longrightarrow> sat_u64 (Suc n) = Suc n" for n using lt by (simp add: sat_u64_def)
  note sat = g [OF order_refl] g [OF s1(1)] g [OF s1(2)]
  show ?thesis
    using h c unfolding slots_hold_def can_take_iff take_slot_fields
    by (auto simp: sat)
qed

lemma slots_hold_release:
  assumes "slots_hold s (add_mset j M)"
  shows "slots_hold (release_slot s j) M"
  using assms unfolding slots_hold_def release_slot_fields by (auto split: if_splits)

lemma slots_hold_new: "cap \<le> u64_max \<Longrightarrow> slots_hold (new_slots cap) {#}"
  by (simp add: slots_hold_def new_slots_def used_in_def j4_used_in_def)

lemma slots_hold_set_cap: "slots_hold s M \<Longrightarrow> slots_hold (set_store_cap k c s) M"
proof -
  have "used_in (set_store_cap k c s) x = used_in s x"
    "j4_used_in (set_store_cap k c s) x = j4_used_in s x" for x
    by (auto simp: set_store_cap_def used_in_def j4_used_in_def split: option.splits)
  then show "slots_hold s M \<Longrightarrow> slots_hold (set_store_cap k c s) M"
    by (simp add: slots_hold_def) (simp add: set_store_cap_def)
qed

lemma find_map_of:
  assumes "bt_ok m" "find P m = Some (k, v)"
  shows "map_of m k = Some v"
proof -
  have "(k, v) \<in> set m" using assms(2) by (auto simp: find_Some_iff in_set_conv_nth)
  then show ?thesis using assms(1) by (simp add: bt_ok_distinct map_of_is_SomeI)
qed

lemma pop_ready_alt:
  assumes "bt_ok (ready q)"
  shows "pop_ready now q s =
     (case find (\<lambda>(k, j). not_before j \<le> now \<and> can_take s j) (ready q) of
        None \<Rightarrow> None
      | Some (k, j) \<Rightarrow>
          Some (j, q\<lparr>ready := bt_remove k (ready q), qindex := (qindex q)(ident j := None)\<rparr>,
                take_slot s j))"
  using find_map_of [OF assms] by (auto simp: pop_ready_def split: option.splits)

interpretation job_slots: slot_table can_take take_slot release_slot slots_hold
  by unfold_locales (simp_all add: slots_hold_take slots_hold_release)

interpretation jobs_admitted:
  admitting_queue can_take take_slot release_slot slots_hold pop_ready "\<lambda>q. bt_ok (ready q)"
proof unfold_locales
  fix q t s j q' s'
  assume ok: "bt_ok (ready q)" and pop: "pop_ready t q s = Some (j, q', s')"
  obtain k where f: "find (\<lambda>(k, j). not_before j \<le> t \<and> can_take s j) (ready q) = Some (k, j)"
    and eq: "q' = q\<lparr>ready := bt_remove k (ready q), qindex := (qindex q)(ident j := None)\<rparr>"
      "s' = take_slot s j"
    using pop unfolding pop_ready_alt [OF ok] by (auto split: option.splits)
  show "can_take s j \<and> s' = take_slot s j" using f eq by (auto simp: find_Some_iff)
  show "bt_ok (ready q')" using ok eq by simp
qed

section \<open>The queue's invariant\<close>

definition queue_wf :: "job_queue \<Rightarrow> bool" where
  "queue_wf q \<longleftrightarrow>
     bt_ok (ready q)
     \<and> (\<forall>i k. qindex q i = Some k \<longleftrightarrow> (\<exists>j. (k, j) \<in> set (ready q) \<and> ident j = i))
     \<and> (\<forall>k j. (k, j) \<in> set (ready q) \<longrightarrow> fst k = job_priority j \<and> snd k \<le> qseq q)
     \<and> inj_on (snd \<circ> fst) (set (ready q))"

definition queue_jobs :: "job_queue \<Rightarrow> job list" where "queue_jobs q = map snd (ready q)"

lemma queue_wf_new: "queue_wf new_queue"
  by (simp add: queue_wf_def new_queue_def)

lemma queue_wf_index:
  "queue_wf q \<Longrightarrow> qindex q i = Some k \<longleftrightarrow> (\<exists>j. (k, j) \<in> set (ready q) \<and> ident j = i)"
  unfolding queue_wf_def by (elim conjE allE [of _ i] allE [of _ k])

lemma queue_wf_seq:
  assumes "queue_wf q" "(k, j) \<in> set (ready q)" "(k', j') \<in> set (ready q)" "snd k = snd k'"
  shows "k = k' \<and> j = j'"
proof -
  have "inj_on (snd \<circ> fst) (set (ready q))" using assms(1) unfolding queue_wf_def by (elim conjE)
  from inj_onD [OF this _ assms(2,3)] assms(4) show ?thesis by simp
qed

lemma queue_wfD:
  assumes "queue_wf q"
  shows "bt_ok (ready q)"
    and "(k, j) \<in> set (ready q) \<Longrightarrow> qindex q (ident j) = Some k"
    and "qindex q i = Some k \<Longrightarrow> \<exists>j. (k, j) \<in> set (ready q) \<and> ident j = i"
    and "(k, j) \<in> set (ready q) \<Longrightarrow> fst k = job_priority j"
    and "(k, j) \<in> set (ready q) \<Longrightarrow> snd k \<le> qseq q"
    and "(k, j) \<in> set (ready q) \<Longrightarrow> (k', j') \<in> set (ready q) \<Longrightarrow> snd k = snd k' \<Longrightarrow> k = k' \<and> j = j'"
proof -
  show "bt_ok (ready q)" using assms unfolding queue_wf_def by (elim conjE)
  show "(k, j) \<in> set (ready q) \<Longrightarrow> qindex q (ident j) = Some k"
    unfolding queue_wf_index [OF assms] by blast
  show "qindex q i = Some k \<Longrightarrow> \<exists>j. (k, j) \<in> set (ready q) \<and> ident j = i"
    unfolding queue_wf_index [OF assms] .
  have "\<forall>k j. (k, j) \<in> set (ready q) \<longrightarrow> fst k = job_priority j \<and> snd k \<le> qseq q"
    using assms unfolding queue_wf_def by (elim conjE)
  then have "(k, j) \<in> set (ready q) \<Longrightarrow> fst k = job_priority j \<and> snd k \<le> qseq q"
    by (elim allE [of _ k] allE [of _ j] mp)
  then show "(k, j) \<in> set (ready q) \<Longrightarrow> fst k = job_priority j"
    "(k, j) \<in> set (ready q) \<Longrightarrow> snd k \<le> qseq q"
    by simp_all
  show "(k, j) \<in> set (ready q) \<Longrightarrow> (k', j') \<in> set (ready q) \<Longrightarrow> snd k = snd k' \<Longrightarrow> k = k' \<and> j = j'"
    by (rule queue_wf_seq [OF assms])
qed

lemma ident_unique:
  assumes "queue_wf q" "(k, j) \<in> set (ready q)" "(k', j') \<in> set (ready q)" "ident j = ident j'"
  shows "k = k' \<and> j = j'"
proof -
  have "qindex q (ident j) = Some k" "qindex q (ident j) = Some k'"
    using queue_wfD(2) [OF assms(1,2)] queue_wfD(2) [OF assms(1,3)] assms(4) by simp_all
  then have "k = k'" by simp
  then show ?thesis using bt_ok_unique [OF queue_wfD(1) [OF assms(1)] assms(2)] assms(3) by simp
qed

lemma queue_wfI:
  assumes "bt_ok (ready q)"
    and "\<And>i k. qindex q i = Some k \<longleftrightarrow> (\<exists>j. (k, j) \<in> set (ready q) \<and> ident j = i)"
    and "\<And>k j. (k, j) \<in> set (ready q) \<Longrightarrow> fst k = job_priority j \<and> snd k \<le> qseq q"
    and "\<And>k j k' j'. (k, j) \<in> set (ready q) \<Longrightarrow> (k', j') \<in> set (ready q) \<Longrightarrow> snd k = snd k' \<Longrightarrow>
          k = k' \<and> j = j'"
  shows "queue_wf q"
  unfolding queue_wf_def
proof (intro conjI allI impI inj_onI)
  fix x y assume "x \<in> set (ready q)" "y \<in> set (ready q)" "(snd \<circ> fst) x = (snd \<circ> fst) y"
  then show "x = y" using assms(4) [of "fst x" "snd x" "fst y" "snd y"] by (simp add: prod_eq_iff)
qed (use assms(1-3) in \<open>blast+\<close>)

text \<open>Filing a job under a key that no other entry's sequence number has.\<close>

lemma file_wf:
  assumes set': "set r' = insert (key, j) rest" and ok: "bt_ok r'"
    and rest: "\<And>k x. (k, x) \<in> rest \<Longrightarrow> fst k = job_priority x \<and> snd k \<le> n \<and> snd k \<noteq> snd key
                 \<and> ident x \<noteq> ident j"
    and inj: "\<And>k x k' x'. (k, x) \<in> rest \<Longrightarrow> (k', x') \<in> rest \<Longrightarrow> snd k = snd k' \<Longrightarrow> k = k' \<and> x = x'"
    and idx: "\<And>i k. i \<noteq> ident j \<Longrightarrow> ix i = Some k \<longleftrightarrow> (\<exists>x. (k, x) \<in> rest \<and> ident x = i)"
    and key: "fst key = job_priority j" "snd key \<le> n"
  shows "queue_wf \<lparr>qseq = n, ready = r', qindex = ix(ident j \<mapsto> key)\<rparr>"
proof (rule queue_wfI)
  show "qindex \<lparr>qseq = n, ready = r', qindex = ix(ident j \<mapsto> key)\<rparr> i = Some k \<longleftrightarrow>
     (\<exists>x. (k, x) \<in> set (ready \<lparr>qseq = n, ready = r', qindex = ix(ident j \<mapsto> key)\<rparr>) \<and> ident x = i)"
    for i k
  proof (cases "i = ident j")
    case True
    have "\<not> ((k, x) \<in> rest \<and> ident x = ident j)" for x using rest by blast
    then show ?thesis using True by (auto simp: set')
  next
    case False
    then show ?thesis using idx [of i k] by (auto simp: set')
  qed
  show "k = k' \<and> x = x'"
    if "(k, x) \<in> set (ready \<lparr>qseq = n, ready = r', qindex = ix(ident j \<mapsto> key)\<rparr>)"
      "(k', x') \<in> set (ready \<lparr>qseq = n, ready = r', qindex = ix(ident j \<mapsto> key)\<rparr>)"
      "snd k = snd k'" for k x k' x'
    using that rest [of k x] rest [of k' x'] inj [of k x k' x'] by (auto simp: set')
qed (use ok key rest in \<open>auto simp: set'\<close>)

lemma push_wf:
  assumes wf: "queue_wf q" and room: "qseq q < u64_max"
  shows "queue_wf (snd (push j q))"
proof (cases "qindex q (ident j)")
  case None
  define key where "key = (job_priority j, qseq q + 1)"
  have none: "ident x \<noteq> ident j" if "(k, x) \<in> set (ready q)" for k x
    using queue_wfD(2) [OF wf that] None by auto
  have le: "snd k \<le> qseq q" if "(k, x) \<in> set (ready q)" for k x
    using queue_wfD(5) [OF wf that] .
  have "queue_wf \<lparr>qseq = qseq q + 1, ready = bt_insert key j (ready q),
                  qindex = (qindex q)(ident j \<mapsto> key)\<rparr>"
  proof (rule file_wf [where rest = "set (ready q)"])
    have "{e \<in> set (ready q). fst e \<noteq> key} = set (ready q)"
      using le by (force simp: key_def)
    then show "set (bt_insert key j (ready q)) = insert (key, j) (set (ready q))"
      using queue_wfD(1) [OF wf] by (simp add: set_bt_insert)
    show "fst k = job_priority x \<and> snd k \<le> qseq q + 1 \<and> snd k \<noteq> snd key \<and> ident x \<noteq> ident j"
      if "(k, x) \<in> set (ready q)" for k x
      using none [OF that] le [OF that] queue_wfD(4) [OF wf that] by (simp add: key_def)
    show "k = k' \<and> x = x'"
      if "(k, x) \<in> set (ready q)" "(k', x') \<in> set (ready q)" "snd k = snd k'" for k x k' x'
      by (rule queue_wf_seq [OF wf that])
  qed (use queue_wfD(1) [OF wf] queue_wf_index [OF wf] in \<open>simp_all add: key_def\<close>)
  then show ?thesis
    using None room by (cases q) (simp add: push_def sat_u64_def key_def Let_def)
next
  case (Some ex)
  show ?thesis
  proof (cases "fst ex \<le> job_priority j")
    case True
    then show ?thesis using Some wf by (simp add: push_def)
  next
    case False
    define key where "key = (job_priority j, snd ex)"
    obtain j0 where j0: "(ex, j0) \<in> set (ready q)" "ident j0 = ident j"
      using queue_wfD(3) [OF wf Some] by blast
    define rest where "rest = {e \<in> set (ready q). fst e \<noteq> ex}"
    have rest: "(k, x) \<in> set (ready q) \<and> k \<noteq> ex" if "(k, x) \<in> rest" for k x
      using that by (simp add: rest_def)
    have seq: "snd k \<noteq> snd ex" if "(k, x) \<in> rest" for k x
      using queue_wf_seq [OF wf j0(1), of k x] rest [OF that] by auto
    have "queue_wf \<lparr>qseq = qseq q, ready = bt_insert key j (bt_remove ex (ready q)),
                  qindex = (qindex q)(ident j \<mapsto> key)\<rparr>"
    proof (rule file_wf [where rest = rest])
      have "{e \<in> rest. fst e \<noteq> key} = rest" using seq by (force simp: key_def)
      then show "set (bt_insert key j (bt_remove ex (ready q))) = insert (key, j) rest"
        using queue_wfD(1) [OF wf] by (simp add: set_bt_insert rest_def conj_assoc)
      show "bt_ok (bt_insert key j (bt_remove ex (ready q)))" using queue_wfD(1) [OF wf] by simp
      show "fst k = job_priority x \<and> snd k \<le> qseq q \<and> snd k \<noteq> snd key \<and> ident x \<noteq> ident j"
        if "(k, x) \<in> rest" for k x
        using rest [OF that] seq [OF that] queue_wfD(4,5) [OF wf, of k x]
          ident_unique [OF wf j0(1), of k x] j0(2) by (auto simp: key_def)
      show "k = k' \<and> x = x'" if "(k, x) \<in> rest" "(k', x') \<in> rest" "snd k = snd k'" for k x k' x'
        using queue_wf_seq [OF wf] rest that by blast
      show "qindex q i = Some k \<longleftrightarrow> (\<exists>x. (k, x) \<in> rest \<and> ident x = i)" if "i \<noteq> ident j" for i k
      proof -
        have "k \<noteq> ex" if "(k, x) \<in> set (ready q)" "ident x = i" for x
          using bt_ok_unique [OF queue_wfD(1) [OF wf] j0(1), of x] that j0(2) \<open>i \<noteq> ident j\<close> by auto
        then show ?thesis unfolding queue_wf_index [OF wf] rest_def by auto
      qed
      show "fst key = job_priority j" "snd key \<le> qseq q"
        using queue_wfD(5) [OF wf j0(1)] by (simp_all add: key_def)
    qed
    then show ?thesis using Some False by (cases q) (simp add: push_def key_def Let_def)
  qed
qed

lemma pop_wf:
  assumes wf: "queue_wf q" and pop: "pop_ready now q s = Some (j, q', s')"
  shows "queue_wf q'"
proof -
  obtain k where f: "find (\<lambda>(k, j). not_before j \<le> now \<and> can_take s j) (ready q) = Some (k, j)"
    and q': "q' = q\<lparr>ready := bt_remove k (ready q), qindex := (qindex q)(ident j := None)\<rparr>"
    using pop unfolding pop_ready_alt [OF queue_wfD(1) [OF wf]] by (auto split: option.splits)
  have kj: "(k, j) \<in> set (ready q)" using f by (auto simp: find_Some_iff in_set_conv_nth)
  show ?thesis
  proof (rule queue_wfI)
    show "qindex q' i = Some k' \<longleftrightarrow> (\<exists>x. (k', x) \<in> set (ready q') \<and> ident x = i)" for i k'
    proof (cases "i = ident j")
      case True
      have "k' = k" if "(k', x) \<in> set (ready q)" "ident x = ident j" for x
        using ident_unique [OF wf kj that(1)] that(2) by simp
      then show ?thesis using True by (auto simp: q')
    next
      case False
      have "k' \<noteq> k" if "(k', x) \<in> set (ready q)" "ident x = i" for x
        using bt_ok_unique [OF queue_wfD(1) [OF wf] kj, of x] that False by auto
      then show ?thesis using False queue_wf_index [OF wf, of i k'] by (auto simp: q')
    qed
    show "ka = kb \<and> x = y"
      if "(ka, x) \<in> set (ready q')" "(kb, y) \<in> set (ready q')" "snd ka = snd kb" for ka x kb y
      using queue_wf_seq [OF wf] that by (simp add: q') blast
  qed (use queue_wfD(1,4,5) [OF wf] in \<open>auto simp: q'\<close>)
qed

section \<open>Properties\<close>

text \<open>The queue keeps its index and its ordered entries in step: at most one entry per kind and
  location, filed under its job's band, each with its own sequence number, and the index names
  exactly the entries there are. Pushing and popping preserve it, while the counter has room.\<close>

theorem queue_invariant:
  assumes "queue_wf q" and "qseq q < u64_max"
  shows "queue_wf new_queue \<and> queue_wf (snd (push j q))
    \<and> (case pop_ready now q s of None \<Rightarrow> True | Some (_, q', _) \<Rightarrow> queue_wf q')
    \<and> distinct (map ident (queue_jobs q))"
proof -
  have "distinct (map ident (queue_jobs q))"
    unfolding queue_jobs_def
    using ident_unique [OF assms(1)] bt_ok_distinct [OF queue_wfD(1) [OF assms(1)]]
    by (auto simp: distinct_map inj_on_def)
  then show ?thesis
    using queue_wf_new push_wf [OF assms] pop_wf [OF assms(1)] by (auto split: option.split)
qed

definition demo_job :: "job_kind \<Rightarrow> int \<Rightarrow> priority \<Rightarrow> job" where
  "demo_job k loc p =
     \<lparr>job_kind = k, job_project = 1, job_location = loc, store_key = ''disk'', store_kind = Local,
      job_priority = p, not_before = 0, origin = Walk\<rparr>"

theorem queue_invariant_witness:
  "queue_wf (snd (push (demo_job J2Status 1 Interactive) (snd (push (demo_job J2Status 1 Standard)
     new_queue))))"
proof -
  have "queue_wf (snd (push (demo_job J2Status 1 Standard) new_queue))"
    using push_wf [OF queue_wf_new] by (simp add: new_queue_def)
  moreover have "qseq (snd (push (demo_job J2Status 1 Standard) new_queue)) < u64_max"
    by (simp add: push_def new_queue_def sat_u64_def Let_def)
  ultimately show ?thesis using queue_invariant by blast
qed

lemma filter_le_sorted:
  assumes "bt_ok m" "\<forall>e \<in> set m. key < fst e \<or> fst e < key"
  shows "bt_insert key v m = filter (\<lambda>e. fst e < key) m @ (key, v) # filter (\<lambda>e. \<not> fst e < key) m"
  using assms
proof (induction m)
  case (Cons e m)
  obtain k' v' where e: "e = (k', v')" by fastforce
  have ok: "bt_ok m" "\<forall>k \<in> fst ` set m. k' < k" using Cons.prems(1) by (auto simp: e bt_ok_Cons)
  show ?case
  proof (cases "key < k'")
    case True
    then have "\<forall>x \<in> set m. \<not> fst x < key" using ok(2) by fastforce
    then have "filter (\<lambda>e. fst e < key) m = []" "filter (\<lambda>e. \<not> fst e < key) m = m"
      by (auto simp: filter_empty_conv filter_id_conv)
    then show ?thesis using True e by auto
  next
    case False
    then show ?thesis using Cons ok e by auto
  qed
qed simp

text \<open>
  What a push does. An entry of an equal or better band for the same kind and location
  refuses it and nothing changes. A new kind and location goes behind every job of its band or a
  better one and ahead of every worse one. A better band for a queued one replaces the entry,
  keeps its sequence number, and leaves every other entry as it was.
\<close>

theorem push_places:
  assumes wf: "queue_wf q" and room: "qseq q < u64_max"
  shows "if \<exists>x \<in> set (queue_jobs q). ident x = ident j \<and> job_priority x \<le> job_priority j
         then push j q = (False, q)
         else fst (push j q)
           \<and> (if \<exists>x \<in> set (queue_jobs q). ident x = ident j
              then (\<exists>n x. ((job_priority x, n), x) \<in> set (ready q) \<and> ident x = ident j
                     \<and> set (ready (snd (push j q))) =
                         insert ((job_priority j, n), j) (set (ready q) - {((job_priority x, n), x)}))
              else queue_jobs (snd (push j q)) =
                     filter (\<lambda>x. job_priority x \<le> job_priority j) (queue_jobs q)
                     @ [j] @ filter (\<lambda>x. \<not> job_priority x \<le> job_priority j) (queue_jobs q))"
proof (cases "qindex q (ident j)")
  case None
  have none: "\<not> (\<exists>x \<in> set (queue_jobs q). ident x = ident j)"
    using None queue_wfD(2) [OF wf] by (force simp: queue_jobs_def)
  define key where "key = (job_priority j, qseq q + 1)"
  have lt: "fst e < key \<longleftrightarrow> job_priority (snd e) \<le> job_priority j" if "e \<in> set (ready q)" for e
  proof -
    obtain k x where e: "e = (k, x)" by fastforce
    then show ?thesis
      using queue_wfD(4,5) [OF wf, of k x] that by (cases k) (auto simp: key_def less_prod_def')
  qed
  have "snd e < Suc (qseq q)" if "(e, x) \<in> set (ready q)" for e x
    using queue_wfD(5) [OF wf that] by simp
  then have apart: "\<forall>e \<in> set (ready q). key < fst e \<or> fst e < key"
    by (metis key_def linorder_less_linear nless_le prod.collapse snd_conv Suc_eq_plus1)
  have "ready (snd (push j q)) = bt_insert key j (ready q)"
    using None room by (simp add: push_def sat_u64_def key_def Let_def)
  also have "\<dots> = filter (\<lambda>e. fst e < key) (ready q) @ (key, j) # filter (\<lambda>e. \<not> fst e < key) (ready q)"
    by (rule filter_le_sorted [OF queue_wfD(1) [OF wf] apart])
  also have "filter (\<lambda>e. fst e < key) (ready q)
      = filter (\<lambda>e. job_priority (snd e) \<le> job_priority j) (ready q)"
    using lt by (intro filter_cong) auto
  also have "filter (\<lambda>e. \<not> fst e < key) (ready q)
      = filter (\<lambda>e. \<not> job_priority (snd e) \<le> job_priority j) (ready q)"
    using lt by (intro filter_cong) auto
  finally have "queue_jobs (snd (push j q)) =
      filter (\<lambda>x. job_priority x \<le> job_priority j) (queue_jobs q)
      @ [j] @ filter (\<lambda>x. \<not> job_priority x \<le> job_priority j) (queue_jobs q)"
    by (simp add: queue_jobs_def filter_map o_def)
  moreover have "fst (push j q)" using None by (simp add: push_def Let_def)
  ultimately show ?thesis using none by auto
next
  case (Some ex)
  obtain x where x: "(ex, x) \<in> set (ready q)" "ident x = ident j"
    using queue_wfD(3) [OF wf Some] by blast
  have ex: "fst ex = job_priority x" using queue_wfD(4) [OF wf x(1)] .
  have mem: "x \<in> set (queue_jobs q)" using x(1) by (force simp: queue_jobs_def)
  have only: "y = x" if "y \<in> set (queue_jobs q)" "ident y = ident j" for y
    using that ident_unique [OF wf x(1)] x(2) by (force simp: queue_jobs_def)
  show ?thesis
  proof (cases "job_priority x \<le> job_priority j")
    case True
    then have "push j q = (False, q)" using Some ex by (simp add: push_def)
    then show ?thesis using True mem x(2) by auto
  next
    case False
    then have no: "\<not> (\<exists>y \<in> set (queue_jobs q). ident y = ident j \<and> job_priority y \<le> job_priority j)"
      using only by blast
    define key where "key = (job_priority j, snd ex)"
    have "set (ready (snd (push j q))) = insert (key, j) {e \<in> set (ready q). fst e \<noteq> ex \<and> fst e \<noteq> key}"
      using Some False ex queue_wfD(1) [OF wf]
      by (simp add: push_def set_bt_insert key_def Let_def conj_assoc)
    also have "{e \<in> set (ready q). fst e \<noteq> ex \<and> fst e \<noteq> key} = set (ready q) - {(ex, x)}"
    proof -
      have "fst e \<noteq> ex \<and> fst e \<noteq> key \<longleftrightarrow> e \<noteq> (ex, x)" if "e \<in> set (ready q)" for e
        using queue_wf_seq [OF wf x(1), of "fst e" "snd e"] that False ex
        by (auto simp: key_def prod_eq_iff)
      then show ?thesis by blast
    qed
    finally have "set (ready (snd (push j q))) = insert (key, j) (set (ready q) - {(ex, x)})" .
    moreover have "ex = (job_priority x, snd ex)" using ex by (metis prod.collapse)
    moreover have "fst (push j q)" using Some False ex by (simp add: push_def Let_def)
    ultimately show ?thesis using no mem x by (metis key_def)
  qed
qed

theorem push_places_witness:
  "queue_jobs (snd (push (demo_job J2Status 1 Interactive) new_queue)) = [demo_job J2Status 1 Interactive]"
  using push_places [of new_queue "demo_job J2Status 1 Interactive", OF queue_wf_new]
  by (simp add: new_queue_def queue_jobs_def)

lemma find_split:
  "find P m = Some x \<Longrightarrow> \<exists>xs ys. m = xs @ x # ys \<and> P x \<and> (\<forall>y \<in> set xs. \<not> P y)"
proof (induction m)
  case (Cons a m)
  show ?case
  proof (cases "P a")
    case True
    then show ?thesis using Cons.prems by (intro exI [of _ "[]"] exI [of _ m]) auto
  next
    case False
    then obtain xs ys where "m = xs @ x # ys" "P x" "\<forall>y \<in> set xs. \<not> P y"
      using Cons by auto
    then show ?thesis using False by (metis append_Cons set_ConsD)
  qed
qed simp

text \<open>
  C29: A pop takes the first job, in the queue's order, that is past its backoff and whose slots
  are free, skips the ones that are not without moving them, and takes exactly that job's slots; it
  answers nothing only when no queued job is both due and admissible. A blocked store never holds
  up another.
\<close>

theorem pop_takes_the_first_admissible:
  assumes "queue_wf q"
  shows "case pop_ready now q s of
           None \<Rightarrow> \<forall>x \<in> set (queue_jobs q). \<not> (not_before x \<le> now \<and> can_take s x)
         | Some (j, q', s') \<Rightarrow>
             \<exists>pre post. queue_jobs q = pre @ j # post \<and> queue_jobs q' = pre @ post
               \<and> not_before j \<le> now \<and> can_take s j \<and> s' = take_slot s j
               \<and> (\<forall>x \<in> set pre. \<not> (not_before x \<le> now \<and> can_take s x))"
proof (cases "find (\<lambda>(k, j). not_before j \<le> now \<and> can_take s j) (ready q)")
  case None
  then have "\<forall>x \<in> set (queue_jobs q). \<not> (not_before x \<le> now \<and> can_take s x)"
    unfolding find_None_iff by (fastforce simp: queue_jobs_def)
  then show ?thesis using None unfolding pop_ready_alt [OF queue_wfD(1) [OF assms]] by simp
next
  case (Some e)
  obtain k j where e: "e = (k, j)" by fastforce
  define P where "P = (\<lambda>(k :: queue_key, j). not_before j \<le> now \<and> can_take s j)"
  obtain xs ys where split: "ready q = xs @ (k, j) # ys" and P: "P (k, j)" "\<forall>x \<in> set xs. \<not> P x"
    using find_split Some unfolding e P_def [symmetric] by metis
  have "distinct (map fst xs @ k # map fst ys)"
    using bt_ok_distinct [OF queue_wfD(1) [OF assms]] by (simp add: split)
  then have rm: "bt_remove k (ready q) = xs @ ys"
  proof -
    assume d: "distinct (map fst xs @ k # map fst ys)"
    then have "\<forall>e \<in> set (xs @ ys). fst e \<noteq> k" by auto
    then have "filter (\<lambda>e. fst e \<noteq> k) (xs @ ys) = xs @ ys" by (simp only: filter_id_conv)
    then show ?thesis unfolding split bt_remove_def by simp
  qed
  have pop: "pop_ready now q s = Some (j, q\<lparr>ready := bt_remove k (ready q),
      qindex := (qindex q)(ident j := None)\<rparr>, take_slot s j)"
    using Some unfolding pop_ready_alt [OF queue_wfD(1) [OF assms]] e by simp
  show ?thesis
    unfolding pop option.case prod.case
    by (rule exI [of _ "map snd xs"], rule exI [of _ "map snd ys"])
      (use P in \<open>auto simp: queue_jobs_def rm [unfolded split] split P_def\<close>)
qed

theorem pop_takes_the_first_admissible_witness:
  "\<exists>q' s'. pop_ready 5 (snd (push (demo_job J2Status 1 Interactive) new_queue)) (new_slots 4)
     = Some (demo_job J2Status 1 Interactive, q', s')"
proof -
  define q where "q = snd (push (demo_job J2Status 1 Interactive) new_queue)"
  have wf: "queue_wf q" unfolding q_def by (rule push_wf [OF queue_wf_new]) (simp add: new_queue_def)
  have jobs: "queue_jobs q = [demo_job J2Status 1 Interactive]"
    by (simp add: q_def push_def new_queue_def queue_jobs_def Let_def)
  have "not_before (demo_job J2Status 1 Interactive) \<le> 5 \<and> can_take (new_slots 4) (demo_job J2Status 1 Interactive)"
    by (simp add: demo_job_def can_take_def new_slots_def DEFAULT_STORE_CAP_def takes_j4_slot_def)
  then show ?thesis
    using pop_takes_the_first_admissible [OF wf, of 5 "new_slots 4"] jobs
    unfolding q_def [symmetric]
    by (auto split: option.splits simp: Cons_eq_append_conv)
qed

end
