(* ===== verification/Job_Pool.thy ===== *)
theory Job_Pool
  imports Job_Queue
begin

text \<open>
  The worker pool of \<open>jobs/scheduler.rs\<close>: what one settle writes, announces and queues, and the
  pool as a step relation whose steps are the sections the code runs under the shared lock, so
  every interleaving of the workers and of the callers that queue work is a path of it.
\<close>

section \<open>One settle\<close>

text \<open>What a settle meets outside itself: whether the job rows could be read, what the write
  transaction answered (the signal and the delta its recompute and its debt evaluator return, or a
  failure, which rolls the row back too), the projected row before and after, the art payload and
  the authorship answer. Payloads are opaque.\<close>

record ('p, 'd) settle_env =
  se_now :: int
  se_rows_readable :: bool
  se_write :: "((bool \<times> string option) \<times> 'd option) option"
  se_before :: "'p option"
  se_after :: "'p option"
  se_lock_ok :: bool
  se_art :: "'p option"
  se_is_reference :: "bool option"

datatype ('p, 'd) event =
    ConditionChanged int "string option"
  | Upserted 'p
  | HealthDelta 'd
  | JobDone int job_kind bool bool
  | ArtReady 'p

definition art_store_key :: "string \<Rightarrow> string" where
  "art_store_key k = ''art:'' @ k"

definition publish_row_change :: "job \<Rightarrow> ('p, 'd) settle_env \<Rightarrow> ('p, 'd) event list" where
  "publish_row_change j e =
     (case (if origin j = FromUser then se_before e else None, se_after e) of
        (Some before, Some after) \<Rightarrow> if after \<noteq> before then [Upserted after] else []
      | _ \<Rightarrow> [])"

definition follow_ups :: "job \<Rightarrow> bool option \<Rightarrow> job list" where
  "follow_ups j is_reference =
     map (\<lambda>(k, p). j\<lparr>job_kind := k,
                     store_key := (if k = J5Art then art_store_key (store_key j) else store_key j),
                     job_priority := p, not_before := 0\<rparr>)
       (next_jobs_after (job_kind j) is_reference)"

definition settle ::
  "('p, 'd) settle_env \<Rightarrow> job \<Rightarrow> job_outcome \<Rightarrow> job_table
   \<Rightarrow> job_table \<times> ('p, 'd) event list \<times> job list" where
  "settle e j outcome t =
     (let now = se_now e;
          previous = (if se_rows_readable e
                      then (case t (job_project j, job_kind j) of
                              Some row \<Rightarrow> row | None \<Rightarrow> fresh_row (job_kind j) Running now)
                      else fresh_row (job_kind j) Running now);
          (row, requeue_at) = apply_outcome previous outcome now;
          t' = (case se_write e of None \<Rightarrow> t | Some _ \<Rightarrow> put_row (job_project j) row t);
          events =
            (case se_write e of
               Some ((True, signal), _) \<Rightarrow> [ConditionChanged (job_project j) signal] | _ \<Rightarrow> [])
            @ publish_row_change j e
            @ (case se_write e of Some (_, Some delta) \<Rightarrow> [HealthDelta delta] | _ \<Rightarrow> [])
            @ [JobDone (job_project j) (job_kind j) (row_state row = Done)
                 (row_state row = DeferredSlow)]
      in case requeue_at of
           Some when \<Rightarrow> (t', events, [j\<lparr>not_before := when\<rparr>])
         | None \<Rightarrow>
             if row_state row \<noteq> Done then (t', events, [])
             else if job_kind j = J5Art then
               (if \<not> se_lock_ok e then (t', events, [])
                else (t', events @ (case se_art e of Some d \<Rightarrow> [ArtReady d] | None \<Rightarrow> []),
                      follow_ups j (se_is_reference e)))
             else (t', events, follow_ups j (se_is_reference e)))"

section \<open>The jobs the scanner and the surfaces queue\<close>

definition on_location_indexed :: "int \<Rightarrow> int \<Rightarrow> string \<Rightarrow> store_class \<Rightarrow> job list" where
  "on_location_indexed project location key class =
     [\<lparr>job_kind = J1Refstate, job_project = project, job_location = location, store_key = key,
       store_kind = class, job_priority = RefState, not_before = 0, origin = Walk\<rparr>]"

definition on_visible ::
  "int \<Rightarrow> int \<Rightarrow> string \<Rightarrow> store_class \<Rightarrow> bool \<Rightarrow> bool \<Rightarrow> job list" where
  "on_visible project location key class needs_art wants_content =
     [\<lparr>job_kind = J2Status, job_project = project, job_location = location, store_key = key,
       store_kind = class, job_priority = Interactive, not_before = 0, origin = FromUser\<rparr>]
     @ (if needs_art then
          [\<lparr>job_kind = J5Art, job_project = project, job_location = location,
            store_key = art_store_key key, store_kind = class, job_priority = Interactive,
            not_before = 0, origin = FromUser\<rparr>] else [])
     @ (if wants_content then
          [\<lparr>job_kind = J7Markers, job_project = project, job_location = location,
            store_key = key, store_kind = class, job_priority = Standard,
            not_before = 0, origin = FromUser\<rparr>] else [])"

section \<open>The pool\<close>

text \<open>A worker is waiting, runs a job it took a slot for, queues what its settle asked for one
  enqueue at a time, or has left. \<open>Finishing j []\<close> still holds its slot.\<close>

datatype worker = Waiting | Executing job | Finishing job "job list" | Left

record pool =
  p_queue :: job_queue
  p_slots :: slot_state
  p_stopping :: bool
  p_workers :: "worker list"
  p_table :: job_table

definition new_pool :: "nat \<Rightarrow> nat \<Rightarrow> job_table \<Rightarrow> pool" where
  "new_pool cap workers t =
     \<lparr>p_queue = new_queue, p_slots = new_slots cap, p_stopping = False,
      p_workers = replicate (max workers 1) Waiting, p_table = t\<rparr>"

definition enqueue :: "job \<Rightarrow> pool \<Rightarrow> pool" where
  "enqueue j st =
     st\<lparr>p_slots := set_store_cap (store_key j) (store_cap_for (store_kind j)) (p_slots st),
        p_queue := snd (push j (p_queue st))\<rparr>"

text \<open>\<open>location_is_current\<close> of the index; an index that cannot be read is \<open>None\<close>.\<close>

definition dispatchable :: "(int \<Rightarrow> bool option) \<Rightarrow> job \<Rightarrow> bool" where
  "dispatchable current j =
     (if job_kind j = J5Art then True
      else case current (job_location j) of Some b \<Rightarrow> b | None \<Rightarrow> False)"

definition is_idle :: "pool \<Rightarrow> int \<Rightarrow> bool" where
  "is_idle st now \<longleftrightarrow> in_flight (p_slots st) = 0 \<and> \<not> has_due (p_queue st) now"

inductive pool_step :: "(job \<Rightarrow> bool) \<Rightarrow> pool \<Rightarrow> pool \<Rightarrow> bool" for adm where
  queue_job: "adm j \<Longrightarrow> pool_step adm st (enqueue j st)"
| take_next:
    "i < length (p_workers st) \<Longrightarrow> p_workers st ! i = Waiting \<Longrightarrow> \<not> p_stopping st \<Longrightarrow>
     pop_ready now (p_queue st) (p_slots st) = Some (j, q, s) \<Longrightarrow>
     pool_step adm st (st\<lparr>p_queue := q, p_slots := s,
                      p_workers := (p_workers st)[i := Executing j]\<rparr>)"
| skip_job:
    "i < length (p_workers st) \<Longrightarrow> p_workers st ! i = Executing j \<Longrightarrow>
     \<not> dispatchable current j \<Longrightarrow>
     pool_step adm st (st\<lparr>p_workers := (p_workers st)[i := Finishing j []]\<rparr>)"
| run_job:
    "i < length (p_workers st) \<Longrightarrow> p_workers st ! i = Executing j \<Longrightarrow> dispatchable current j \<Longrightarrow>
     settle (e :: (string, string) settle_env) j outcome (p_table st) = (t', events, next) \<Longrightarrow>
     pool_step adm st (st\<lparr>p_table := t', p_workers := (p_workers st)[i := Finishing j next]\<rparr>)"
| queue_follow_up:
    "i < length (p_workers st) \<Longrightarrow> p_workers st ! i = Finishing j (f # next) \<Longrightarrow>
     pool_step adm st ((enqueue f st)\<lparr>p_workers := (p_workers st)[i := Finishing j next]\<rparr>)"
| give_back:
    "i < length (p_workers st) \<Longrightarrow> p_workers st ! i = Finishing j [] \<Longrightarrow>
     pool_step adm st (st\<lparr>p_slots := release_slot (p_slots st) j,
                      p_workers := (p_workers st)[i := Waiting]\<rparr>)"
| request_stop: "pool_step adm st (st\<lparr>p_stopping := True\<rparr>)"
| leave:
    "i < length (p_workers st) \<Longrightarrow> p_workers st ! i = Waiting \<Longrightarrow> p_stopping st \<Longrightarrow>
     pool_step adm st (st\<lparr>p_workers := (p_workers st)[i := Left]\<rparr>)"

inductive_cases pool_stepE: "pool_step adm st st'"

inductive reachable_pool :: "(job \<Rightarrow> bool) \<Rightarrow> pool \<Rightarrow> pool \<Rightarrow> bool" for adm st0 where
  reach_init: "reachable_pool adm st0 st0"
| reach_step: "reachable_pool adm st0 st \<Longrightarrow> pool_step adm st st' \<Longrightarrow> reachable_pool adm st0 st'"

section \<open>The jobs that hold a slot\<close>

fun held_by :: "worker \<Rightarrow> job multiset" where
  "held_by (Executing j) = {#j#}"
| "held_by (Finishing j _) = {#j#}"
| "held_by _ = {#}"

definition held_jobs :: "worker list \<Rightarrow> job multiset" where
  "held_jobs ws = (\<Sum>w \<in># mset ws. held_by w)"

lemma held_jobs_update:
  "i < length ws \<Longrightarrow> held_jobs (ws[i := w]) + held_by (ws ! i) = held_jobs ws + held_by w"
proof -
  assume i: "i < length ws"
  have "mset (ws[i := w]) = add_mset w (mset ws - {#ws ! i#})"
    using i by (simp add: mset_update)
  then have "held_jobs (ws[i := w]) = held_by w + (\<Sum>w \<in># mset ws - {#ws ! i#}. held_by w)"
    by (simp add: held_jobs_def)
  moreover have "held_jobs ws = held_by (ws ! i) + (\<Sum>w \<in># mset ws - {#ws ! i#}. held_by w)"
    unfolding held_jobs_def using i by (metis nth_mem_mset sum_mset.remove image_mset_add_mset
      insert_DiffM sum_mset.add_mset)
  ultimately show ?thesis by simp
qed

lemma held_jobs_same:
  "i < length ws \<Longrightarrow> held_by (ws ! i) = held_by w \<Longrightarrow> held_jobs (ws[i := w]) = held_jobs ws"
  using held_jobs_update [of i ws w] by simp

lemma held_jobs_idle: "held_jobs (replicate n Waiting) = {#}"
  by (induction n) (simp_all add: held_jobs_def)

definition pool_ok :: "pool \<Rightarrow> bool" where
  "pool_ok st \<longleftrightarrow> bt_ok (ready (p_queue st)) \<and> slots_hold (p_slots st) (held_jobs (p_workers st))"

lemma push_bt_ok: "bt_ok (ready q) \<Longrightarrow> bt_ok (ready (snd (push j q)))"
  by (auto simp: push_def Let_def split: option.splits)

lemma pool_ok_enqueue: "pool_ok st \<Longrightarrow> pool_ok (enqueue j st)"
  by (simp add: pool_ok_def enqueue_def push_bt_ok slots_hold_set_cap)

lemma pool_ok_workers:
  "pool_ok st \<Longrightarrow> i < length (p_workers st) \<Longrightarrow> held_by (p_workers st ! i) = held_by w \<Longrightarrow>
   pool_ok (st\<lparr>p_workers := (p_workers st)[i := w]\<rparr>)"
  by (simp add: pool_ok_def held_jobs_same)

lemma pool_ok_step: "pool_step adm st st' \<Longrightarrow> pool_ok st \<Longrightarrow> pool_ok st'"
proof (induction rule: pool_step.induct)
  case (take_next i st now j q s)
  then have ok: "bt_ok (ready (p_queue st))"
    and h: "slots_hold (p_slots st) (held_jobs (p_workers st))" by (simp_all add: pool_ok_def)
  have "held_jobs ((p_workers st)[i := Executing j]) = add_mset j (held_jobs (p_workers st))"
    using held_jobs_update [OF take_next(1), of "Executing j"] take_next(2) by simp
  then show ?case
    using jobs_admitted.held_pop [OF ok h take_next(4)] jobs_admitted.pop_ok [OF ok take_next(4)]
    by (simp add: pool_ok_def)
next
  case (give_back i st j)
  have "add_mset j (held_jobs ((p_workers st)[i := Waiting])) = held_jobs (p_workers st)"
    using held_jobs_update [OF give_back(1), of Waiting] give_back(2) by simp
  then show ?case
    using give_back(3) job_slots.held_give by (simp add: pool_ok_def)
next
  case (queue_follow_up i st j f "next")
  then have "pool_ok (enqueue f st)" by (simp add: pool_ok_enqueue)
  from pool_ok_workers [OF this, of i "Finishing j next"] queue_follow_up
  show ?case by (simp add: enqueue_def)
next
  case (skip_job i st j current)
  then show ?case using pool_ok_workers [of st i "Finishing j []"] by simp
next
  case (run_job i st j current e outcome t' events "next")
  then show ?case using pool_ok_workers [of st i "Finishing j next"] by (simp add: pool_ok_def)
next
  case (leave i st)
  then show ?case using pool_ok_workers [of st i Left] by simp
qed (simp_all add: pool_ok_enqueue, simp add: pool_ok_def)

lemma reachable_pool_ok:
  "reachable_pool adm (new_pool cap n t) st \<Longrightarrow> cap \<le> u64_max \<Longrightarrow> pool_ok st"
proof (induction rule: reachable_pool.induct)
  case reach_init
  have "held_jobs (p_workers (new_pool cap n t)) = {#}"
    unfolding new_pool_def by (simp add: held_jobs_idle)
  then show ?case
    using slots_hold_new [OF reach_init] by (simp add: pool_ok_def new_pool_def new_queue_def)
next
  case (reach_step st st')
  then show ?case using pool_ok_step by blast
qed

lemma caps_constant:
  "pool_step adm st st' \<Longrightarrow> global_cap (p_slots st') = global_cap (p_slots st)
     \<and> j4_cap (p_slots st') = j4_cap (p_slots st)"
  by (induction rule: pool_step.induct)
     (auto simp: enqueue_def set_store_cap_def pop_ready_def take_slot_fields release_slot_fields
       split: option.splits prod.splits)

lemma caps_of_reachable:
  "reachable_pool adm st0 st \<Longrightarrow> global_cap (p_slots st) = global_cap (p_slots st0)
     \<and> j4_cap (p_slots st) = j4_cap (p_slots st0)"
  by (induction rule: reachable_pool.induct) (auto dest: caps_constant)

section \<open>The cap of a store\<close>

text \<open>With every job of a store key resolved to one class, the store's cap is that class's.\<close>

definition job_fits :: "(string \<Rightarrow> store_class) \<Rightarrow> job \<Rightarrow> bool" where
  "job_fits cls j \<longleftrightarrow> store_kind j = cls (store_key j)"

fun worker_fits :: "(string \<Rightarrow> store_class) \<Rightarrow> worker \<Rightarrow> bool" where
  "worker_fits cls (Executing j) \<longleftrightarrow> job_fits cls j"
| "worker_fits cls (Finishing j next) \<longleftrightarrow> job_fits cls j \<and> (\<forall>f \<in> set next. job_fits cls f)"
| "worker_fits cls _ \<longleftrightarrow> True"

definition slots_fit :: "(string \<Rightarrow> store_class) \<Rightarrow> slot_state \<Rightarrow> bool" where
  "slots_fit cls s \<longleftrightarrow>
     (\<forall>k u c. stores s k = Some (u, c) \<longrightarrow> c = per_store_cap (cls k) \<and> u \<le> c)"

definition pool_fits :: "(string \<Rightarrow> store_class) \<Rightarrow> pool \<Rightarrow> bool" where
  "pool_fits cls st \<longleftrightarrow>
     slots_fit cls (p_slots st)
     \<and> (\<forall>j \<in> set (queue_jobs (p_queue st)). job_fits cls j \<and> stores (p_slots st) (store_key j) \<noteq> None)
     \<and> (\<forall>w \<in> set (p_workers st). worker_fits cls w)"

lemma queue_jobs_push: "bt_ok (ready q) \<Longrightarrow> set (queue_jobs (snd (push j q))) \<subseteq> insert j (set (queue_jobs q))"
  by (auto simp: push_def queue_jobs_def Let_def set_bt_insert split: option.splits)

lemma pop_jobs:
  assumes "bt_ok (ready q)" "pop_ready now q s = Some (j, q', s')"
  shows "set (queue_jobs q') \<subseteq> set (queue_jobs q)" "j \<in> set (queue_jobs q)" "can_take s j"
    "s' = take_slot s j"
  using assms(2) unfolding pop_ready_alt [OF assms(1)]
  by (auto simp: queue_jobs_def find_Some_iff image_iff split: option.splits)
     (metis nth_mem snd_conv)

lemma slots_fit_set_cap: "slots_fit cls s \<Longrightarrow> slots_fit cls (set_store_cap k (per_store_cap (cls k)) s)"
  using per_store_cap_pos [of "cls k"]
  by (auto simp: slots_fit_def set_store_cap_def split: option.splits if_splits)

lemma stores_set_cap: "stores (set_store_cap k c s) k' \<noteq> None \<longleftrightarrow> k' = k \<or> stores s k' \<noteq> None"
  by (simp add: set_store_cap_def)

lemma slots_fit_take:
  "slots_fit cls s \<Longrightarrow> can_take s j \<Longrightarrow> stores s (store_key j) \<noteq> None \<Longrightarrow> slots_fit cls (take_slot s j)"
  by (auto simp: slots_fit_def can_take_iff take_slot_def Let_def used_in_def sat_u64_def split: if_splits)

lemma stores_take: "stores s k \<noteq> None \<Longrightarrow> stores (take_slot s j) k \<noteq> None"
  by (auto simp: take_slot_def Let_def split: prod.splits)

lemma slots_fit_release: "slots_fit cls s \<Longrightarrow> slots_fit cls (release_slot s j)"
  unfolding slots_fit_def release_slot_def Let_def
  by (auto split: option.splits if_splits) (meson diff_le_self order_trans)+

lemma stores_release: "stores s k \<noteq> None \<Longrightarrow> stores (release_slot s j) k \<noteq> None"
  by (auto simp: release_slot_def Let_def split: option.splits)

lemma pool_fits_enqueue:
  assumes "pool_fits cls st" "job_fits cls j" "bt_ok (ready (p_queue st))"
  shows "pool_fits cls (enqueue j st)"
proof -
  have "slots_fit cls (p_slots (enqueue j st))"
    using assms(1,2) slots_fit_set_cap [of cls "p_slots st" "store_key j"]
    by (simp add: pool_fits_def enqueue_def store_cap_for_def job_fits_def)
  moreover have "\<forall>x \<in> set (queue_jobs (p_queue (enqueue j st))).
      job_fits cls x \<and> stores (p_slots (enqueue j st)) (store_key x) \<noteq> None"
    using assms queue_jobs_push [OF assms(3), of j]
    by (auto simp: pool_fits_def enqueue_def set_store_cap_def)
  ultimately show ?thesis using assms(1) by (simp add: pool_fits_def enqueue_def)
qed

lemma pool_fits_worker:
  "pool_fits cls st \<Longrightarrow> worker_fits cls w \<Longrightarrow> pool_fits cls (st\<lparr>p_workers := (p_workers st)[i := w]\<rparr>)"
  by (auto simp: pool_fits_def dest!: set_update_subset_insert [THEN subsetD])

lemma settle_next_fits:
  assumes "settle e j outcome t = (t', events, next)" "job_fits cls j"
    and "\<And>k. cls (art_store_key k) = cls k"
  shows "\<forall>f \<in> set next. job_fits cls f"
  using assms
  by (auto simp: settle_def Let_def follow_ups_def job_fits_def split: prod.splits option.splits if_splits)

lemma pool_fits_step:
  assumes "pool_step adm st st'" and "\<And>j. adm j \<Longrightarrow> job_fits cls j"
    and "\<And>k. cls (art_store_key k) = cls k"
  shows "pool_ok st \<Longrightarrow> pool_fits cls st \<Longrightarrow> pool_fits cls st'"
  using assms(1)
proof (induction rule: pool_step.induct)
  case (queue_job j st)
  then show ?case using assms(2) pool_fits_enqueue by (simp add: pool_ok_def)
next
  case (take_next i st now j q s)
  then have ok: "bt_ok (ready (p_queue st))" by (simp add: pool_ok_def)
  note pj = pop_jobs [OF ok take_next(4)]
  have "pool_fits cls (st\<lparr>p_queue := q, p_slots := s\<rparr>)"
  proof -
    have "stores (p_slots st) (store_key j) \<noteq> None" and sf: "slots_fit cls (p_slots st)"
      using pj(2) take_next(6) by (simp_all add: pool_fits_def)
    then have "slots_fit cls s" using slots_fit_take pj(3,4) by simp
    moreover have "job_fits cls x \<and> stores s (store_key x) \<noteq> None" if "x \<in> set (queue_jobs q)" for x
      using that pj(1) take_next(6) stores_take [of "p_slots st" "store_key x" j]
      unfolding pj(4) by (auto simp: pool_fits_def)
    ultimately show ?thesis using take_next(6) by (simp add: pool_fits_def)
  qed
  moreover have "worker_fits cls (Executing j)" using pj take_next(6) by (auto simp: pool_fits_def)
  ultimately show ?case using pool_fits_worker [of cls "st\<lparr>p_queue := q, p_slots := s\<rparr>"] by simp
next
  case (skip_job i st j current)
  then have "worker_fits cls (Executing j)" unfolding pool_fits_def by (metis nth_mem)
  then show ?case using skip_job pool_fits_worker by simp
next
  case (run_job i st j current e outcome t' events "next")
  then have "worker_fits cls (Executing j)" unfolding pool_fits_def by (metis nth_mem)
  then have "worker_fits cls (Finishing j next)"
    using settle_next_fits [OF run_job(4), of cls] assms(3) by simp
  then have "pool_fits cls (st\<lparr>p_workers := (p_workers st)[i := Finishing j next]\<rparr>)"
    using run_job pool_fits_worker by blast
  then show ?case by (simp add: pool_fits_def)
next
  case (queue_follow_up i st j f "next")
  then have w: "worker_fits cls (Finishing j (f # next))" unfolding pool_fits_def by (metis nth_mem)
  have "pool_fits cls (enqueue f st)"
    using queue_follow_up w by (intro pool_fits_enqueue) (simp_all add: pool_ok_def)
  from pool_fits_worker [OF this, of "Finishing j next" i] w show ?case by (simp add: enqueue_def)
next
  case (give_back i st j)
  have "pool_fits cls (st\<lparr>p_slots := release_slot (p_slots st) j\<rparr>)"
    using give_back slots_fit_release stores_release by (auto simp: pool_fits_def)
  from pool_fits_worker [OF this, of Waiting i] show ?case by simp
next
  case (leave i st)
  then show ?case using pool_fits_worker by simp
qed (simp add: pool_fits_def)

section \<open>Properties\<close>

text \<open>
  C2: Whatever the interleaving of workers, settles and callers, the slot table counts exactly the
  jobs the workers hold, and never more of them than the caps: the global one, a quarter of it for
  history walks, and one history walk per store.
\<close>

theorem pool_respects_caps:
  assumes "reachable_pool adm (new_pool cap n t) st" and "cap \<le> u64_max"
  defines "held \<equiv> held_jobs (p_workers st)"
  shows "in_flight (p_slots st) = size held \<and> size held \<le> max cap 1
    \<and> size (j4s held) \<le> max (cap div 4) 1
    \<and> (\<forall>k. size (on_store k (j4s held)) \<le> 1)
    \<and> (\<forall>k. used_in (p_slots st) k = size (on_store k held))"
  using reachable_pool_ok [OF assms(1,2)] caps_of_reachable [OF assms(1)]
  by (simp add: pool_ok_def slots_hold_def held_def new_pool_def new_slots_def)

theorem pool_respects_caps_witness:
  "in_flight (p_slots (enqueue (demo_job J2Status 1 Interactive) (new_pool 4 2 Map.empty))) = 0"
proof -
  have "reachable_pool (\<lambda>_. True) (new_pool 4 2 Map.empty)
      (enqueue (demo_job J2Status 1 Interactive) (new_pool 4 2 Map.empty))"
    by (rule reach_step [OF reach_init]) (rule queue_job, simp)
  from pool_respects_caps [OF this] show ?thesis
    by (simp add: enqueue_def new_pool_def numeral_2_eq_2 held_jobs_def)
qed

text \<open>
  When every job names the class its store has (and the art key of a store has that store's
  class), the jobs running against one store never exceed that class's cap: one for a network,
  removable, FUSE or spinning disk, four otherwise, however the pool got there.
\<close>

theorem pool_respects_store_caps:
  assumes "reachable_pool adm (new_pool cap n t) st" and "cap \<le> u64_max"
    and "\<And>j. adm j \<Longrightarrow> store_kind j = cls (store_key j)"
    and "\<And>k. cls (art_store_key k) = cls k"
  shows "size (on_store k (held_jobs (p_workers st))) \<le> per_store_cap (cls k)"
proof -
  have "pool_fits cls st"
    using assms(1)
  proof (induction rule: reachable_pool.induct)
    case reach_init
    then show ?case
      by (simp add: pool_fits_def slots_fit_def new_pool_def new_slots_def new_queue_def queue_jobs_def)
  next
    case (reach_step st st')
    then show ?case
      using pool_fits_step [OF reach_step(2)] reachable_pool_ok [OF reach_step(1) assms(2)] assms(3,4)
      by (simp add: job_fits_def)
  qed
  then have "used_in (p_slots st) k \<le> per_store_cap (cls k)"
    by (auto simp: pool_fits_def slots_fit_def used_in_def split: option.splits)
  then show ?thesis
    using reachable_pool_ok [OF assms(1,2)] by (simp add: pool_ok_def slots_hold_def)
qed

theorem pool_respects_store_caps_witness:
  "size (on_store ''disk'' (held_jobs (p_workers
     (enqueue (demo_job J2Status 1 Interactive) (new_pool 4 2 Map.empty))))) \<le> per_store_cap Local"
proof -
  have "reachable_pool (\<lambda>j. store_kind j = Local) (new_pool 4 2 Map.empty)
      (enqueue (demo_job J2Status 1 Interactive) (new_pool 4 2 Map.empty))"
    by (rule reach_step [OF reach_init]) (rule queue_job, simp add: demo_job_def)
  from pool_respects_store_caps [OF this, of "\<lambda>_. Local"] show ?thesis by simp
qed

text \<open>A settle reports what it wrote. It announces the job done exactly when the row it computed
  is Done; it leaves the row unwritten when the write transaction failed; everything it queues is
  for the same project, location and origin, so a chain a user started stays the user's; it never
  queues both a retry and a follow-up, and queues nothing after a hard failure or a deferral; a
  row change is published only on a user's chain.\<close>

theorem settle_reports_what_it_wrote:
  assumes "settle e j outcome t = (t', events, next)"
  defines "previous \<equiv> (if se_rows_readable e
             then case t (job_project j, job_kind j) of
                    Some row \<Rightarrow> row | None \<Rightarrow> fresh_row (job_kind j) Running (se_now e)
             else fresh_row (job_kind j) Running (se_now e))"
  defines "row \<equiv> fst (apply_outcome previous outcome (se_now e))"
  shows "t' = (if se_write e = None then t else put_row (job_project j) row t)
    \<and> JobDone (job_project j) (job_kind j) (row_state row = Done) (row_state row = DeferredSlow)
        \<in> set events
    \<and> (\<forall>f \<in> set next. job_project f = job_project j \<and> job_location f = job_location j
                        \<and> origin f = origin j)
    \<and> (case snd (apply_outcome previous outcome (se_now e)) of
         Some when \<Rightarrow> next = [j\<lparr>not_before := when\<rparr>]
       | None \<Rightarrow> next = [] \<or> row_state row = Done \<and> next = follow_ups j (se_is_reference e))
    \<and> (row_state row \<in> {Failed, DeferredSlow} \<longrightarrow> next = [])
    \<and> (origin j = Walk \<longrightarrow> (\<forall>p. Upserted p \<notin> set events))"
proof -
  obtain rq where ao: "apply_outcome previous outcome (se_now e) = (row, rq)"
    by (cases "apply_outcome previous outcome (se_now e)") (simp add: row_def)
  have rq: "rq \<noteq> None \<Longrightarrow> row_state row = Queued"
    using ao by (cases outcome) (auto simp: apply_outcome_def Let_def split: if_splits)
  have fu: "\<forall>f \<in> set (follow_ups j r). job_project f = job_project j \<and> job_location f = job_location j
      \<and> origin f = origin j" for r
    by (auto simp: follow_ups_def)
  show ?thesis
    using assms(1) rq fu [of "se_is_reference e"]
    unfolding settle_def Let_def previous_def [symmetric] ao prod.case
    by (cases rq) (auto simp: publish_row_change_def ao split: if_splits option.splits)
qed

definition demo_settle :: "(string, string) settle_env" where
  "demo_settle =
     \<lparr>se_now = 50, se_rows_readable = True, se_write = Some ((False, None), None),
      se_before = None, se_after = None, se_lock_ok = True, se_art = None,
      se_is_reference = Some True\<rparr>"

theorem settle_reports_what_it_wrote_witness:
  "fst (settle demo_settle (demo_job J3Inventory 7 Standard) OutDone Map.empty) (1, J3Inventory)
     = Some (fresh_row J3Inventory Done 50)"
proof -
  obtain t' ev nx where eq:
    "settle demo_settle (demo_job J3Inventory 7 Standard) OutDone Map.empty = (t', ev, nx)"
    using prod_cases3 by blast
  from settle_reports_what_it_wrote [OF eq] show ?thesis
    unfolding eq
    by (simp add: demo_settle_def put_row_def apply_outcome_def Let_def fresh_row_def demo_job_def)
qed

end
