(* ===== verification/Sync_Policy.thy ===== *)
theory Sync_Policy
  imports Prelude
begin

text \<open>
  What the remote sync does with one response: \<open>sync/classify.rs\<close> (a response into an outcome,
  decided by its headers), \<open>sync/outcome.rs\<close>, \<open>sync/state.rs\<close> (an outcome into the task's
  durable row) and \<open>sync/budget.rs\<close> (the mirrored rate allowance and what may be spent of it).
  The HTTP date parser is \<open>chrono\<close>'s and is the parameter \<open>pd\<close>.
\<close>

section \<open>Responses\<close>

record http_response =
  http_status :: nat
  http_headers :: "(string \<times> string) list"

datatype transport_error = Timeout | Connect string | TransportIo string

fun transport_text :: "transport_error \<Rightarrow> string" where
  "transport_text Timeout = ''the request timed out''"
| "transport_text (Connect d) = ''could not connect: '' @ d"
| "transport_text (TransportIo d) = ''transport failure: '' @ d"

definition header :: "http_response \<Rightarrow> string \<Rightarrow> string option" where
  "header res name =
     map_option snd (find (\<lambda>(k, _). k = to_lower name) (http_headers res))"

record rate_snapshot =
  rs_resource :: "string option"
  rs_remaining :: "int option"
  rs_limit :: "int option"
  rs_reset_at :: "int option"

definition no_rate :: rate_snapshot where
  "no_rate = \<lparr>rs_resource = None, rs_remaining = None, rs_limit = None, rs_reset_at = None\<rparr>"

datatype unauthorized_reason = TokenInvalid | SsoRequired | Forbidden

fun unauthorized_slug :: "unauthorized_reason \<Rightarrow> string" where
  "unauthorized_slug TokenInvalid = ''token_invalid''"
| "unauthorized_slug SsoRequired = ''sso_required''"
| "unauthorized_slug Forbidden = ''forbidden''"

datatype error_code = EcSsoRequired | EcTokenInvalid

fun unauthorized_error_code :: "unauthorized_reason \<Rightarrow> error_code" where
  "unauthorized_error_code SsoRequired = EcSsoRequired"
| "unauthorized_error_code TokenInvalid = EcTokenInvalid"
| "unauthorized_error_code Forbidden = EcTokenInvalid"

datatype sync_outcome =
    SoDone | SoNotModified | SoNextPage string | SoThrottled int bool
  | SoUnauthorized unauthorized_reason | SoNotFound | SoRejected nat | SoTransient string

datatype sync_outcome_kind =
  KDone | KNotModified | KNextPage | KThrottled | KUnauthorized | KNotFound | KRejected | KTransientFail

fun outcome_kind :: "sync_outcome \<Rightarrow> sync_outcome_kind" where
  "outcome_kind SoDone = KDone"
| "outcome_kind SoNotModified = KNotModified"
| "outcome_kind (SoNextPage _) = KNextPage"
| "outcome_kind (SoThrottled _ _) = KThrottled"
| "outcome_kind (SoUnauthorized _) = KUnauthorized"
| "outcome_kind SoNotFound = KNotFound"
| "outcome_kind (SoRejected _) = KRejected"
| "outcome_kind (SoTransient _) = KTransientFail"

definition with_next_page :: "sync_outcome \<Rightarrow> string option \<Rightarrow> sync_outcome" where
  "with_next_page out c =
     (case (out, c) of (SoDone, Some c) \<Rightarrow> SoNextPage c | _ \<Rightarrow> out)"

section \<open>The classifier\<close>

type_synonym date_parser = "string \<Rightarrow> int option"

definition parse_http_date :: "date_parser \<Rightarrow> string \<Rightarrow> int option" where
  "parse_http_date pd raw = pd (trim raw)"

definition translate_instant :: "date_parser \<Rightarrow> int \<Rightarrow> string option \<Rightarrow> int \<Rightarrow> int" where
  "translate_instant pd server date now =
     (case Option.bind date (parse_http_date pd) of
        None \<Rightarrow> server
      | Some date_server \<Rightarrow> sat_i64 (now + sat_i64 (server - date_server)))"

definition header_i64 :: "http_response \<Rightarrow> string \<Rightarrow> int option" where
  "header_i64 res name = Option.bind (header res name) (\<lambda>v. parse_i64 (trim v))"

definition retry_after_instant :: "date_parser \<Rightarrow> http_response \<Rightarrow> int \<Rightarrow> int option" where
  "retry_after_instant pd res now =
     (case header res ''retry-after'' of
        None \<Rightarrow> None
      | Some h \<Rightarrow>
          let raw = trim h
          in case parse_i64 raw of
               Some secs \<Rightarrow> Some (sat_i64 (now + max secs 0))
             | None \<Rightarrow> map_option (\<lambda>t. translate_instant pd t (header res ''date'') now)
                         (parse_http_date pd raw))"

definition rate_snapshot :: "date_parser \<Rightarrow> http_response \<Rightarrow> int \<Rightarrow> rate_snapshot" where
  "rate_snapshot pd res now =
     \<lparr>rs_resource = header res ''x-ratelimit-resource'',
      rs_remaining = header_i64 res ''x-ratelimit-remaining'',
      rs_limit = header_i64 res ''x-ratelimit-limit'',
      rs_reset_at = map_option (\<lambda>t. translate_instant pd t (header res ''date'') now)
                      (header_i64 res ''x-ratelimit-reset'')\<rparr>"

definition throttled :: "date_parser \<Rightarrow> http_response \<Rightarrow> rate_snapshot \<Rightarrow> int \<Rightarrow> sync_outcome" where
  "throttled pd res rate now =
     (let retry_after = retry_after_instant pd res now;
          until = (case (retry_after, rs_reset_at rate) of
                     (Some a, Some b) \<Rightarrow> max a b
                   | (Some a, None) \<Rightarrow> a
                   | (None, Some b) \<Rightarrow> b
                   | (None, None) \<Rightarrow> now);
          secondary = (retry_after \<noteq> None
                       \<and> (case rs_remaining rate of Some n \<Rightarrow> n > 0 | None \<Rightarrow> False))
      in SoThrottled until secondary)"

definition classify_forbidden ::
  "date_parser \<Rightarrow> http_response \<Rightarrow> rate_snapshot \<Rightarrow> int \<Rightarrow> sync_outcome" where
  "classify_forbidden pd res rate now =
     (if header res ''retry-after'' = None \<and> rs_remaining rate \<noteq> Some 0
      then SoUnauthorized (if header res ''x-github-sso'' \<noteq> None then SsoRequired else Forbidden)
      else throttled pd res rate now)"

definition classify ::
  "date_parser \<Rightarrow> transport_error + http_response \<Rightarrow> int \<Rightarrow> sync_outcome \<times> rate_snapshot" where
  "classify pd answer now =
     (case answer of
        Inl e \<Rightarrow> (SoTransient (transport_text e), no_rate)
      | Inr res \<Rightarrow>
          let rate = rate_snapshot pd res now; st = http_status res
          in (if st = 401 then SoUnauthorized TokenInvalid
              else if st = 403 then classify_forbidden pd res rate now
              else if st = 429 then throttled pd res rate now
              else if st = 404 then SoNotFound
              else if st = 304 then SoNotModified
              else if 200 \<le> st \<and> st \<le> 299 then SoDone
              else if 500 \<le> st \<and> st \<le> 599 then SoTransient (''server returned '' @ show_nat st)
              else SoRejected st, rate))"

section \<open>The task's row\<close>

datatype sync_task_kind = AccountRepos | ProjectRemote | RenameProbe | Advisories

datatype sync_task_state = SsQueued | SsRunning | SsParked | SsOk | SsDeferred | SsBlocked

fun sync_state_slug :: "sync_task_state \<Rightarrow> string" where
  "sync_state_slug SsQueued = ''queued''"
| "sync_state_slug SsRunning = ''running''"
| "sync_state_slug SsParked = ''parked''"
| "sync_state_slug SsOk = ''ok''"
| "sync_state_slug SsDeferred = ''deferred''"
| "sync_state_slug SsBlocked = ''blocked''"

record sync_row =
  sr_kind :: sync_task_kind
  sr_key :: "int option"
  sr_state :: sync_task_state
  sr_cursor :: "string option"
  sr_fail_count :: nat
  sr_throttle_count :: nat
  sr_reason :: "string option"
  sr_at :: int
  sr_not_before :: int

definition queued_row :: "sync_task_kind \<Rightarrow> int option \<Rightarrow> int \<Rightarrow> sync_row" where
  "queued_row k key now =
     \<lparr>sr_kind = k, sr_key = key, sr_state = SsQueued, sr_cursor = None, sr_fail_count = 0,
      sr_throttle_count = 0, sr_reason = None, sr_at = now, sr_not_before = 0\<rparr>"

definition is_runnable :: "sync_row \<Rightarrow> int \<Rightarrow> bool" where
  "is_runnable row now \<longleftrightarrow> sr_state row = SsQueued \<and> sr_not_before row \<le> now"

definition is_due_park :: "sync_row \<Rightarrow> int \<Rightarrow> bool" where
  "is_due_park row now \<longleftrightarrow> sr_state row = SsParked \<and> sr_not_before row \<le> now"

definition SYNC_MAX_TRANSIENT_FAILS :: nat where "SYNC_MAX_TRANSIENT_FAILS = 3"

definition SYNC_UNNAMED_PARK_SECS :: int where "SYNC_UNNAMED_PARK_SECS = 60"

definition clamp :: "int \<Rightarrow> int \<Rightarrow> int \<Rightarrow> int" where
  "clamp lo hi x = max lo (min hi x)"

text \<open>\<open>checked_shl\<close> refuses only a shift of the width or more; bits shifted out are lost.\<close>

definition transient_backoff_secs :: "nat \<Rightarrow> int" where
  "transient_backoff_secs n = clamp 5 300 (wrap_i64 (5 * 2 ^ min (n - 1) 30))"

definition secondary_park_secs :: "int \<Rightarrow> nat \<Rightarrow> int" where
  "secondary_park_secs retry_after n =
     clamp 60 3600 (wrap_i64 (max retry_after 60 * 2 ^ min n 30))"

definition sync_apply :: "sync_row \<Rightarrow> sync_outcome \<Rightarrow> int \<Rightarrow> sync_row \<times> int option" where
  "sync_apply row out now =
     (let nxt = row\<lparr>sr_at := now\<rparr>;
          fine = nxt\<lparr>sr_state := SsOk, sr_fail_count := 0, sr_throttle_count := 0,
                     sr_reason := None, sr_cursor := None, sr_not_before := 0\<rparr>
      in case out of
           SoDone \<Rightarrow> (fine, None)
         | SoNotModified \<Rightarrow> (fine, None)
         | SoNotFound \<Rightarrow>
             (nxt\<lparr>sr_state := SsOk, sr_reason := Some ''not_found'', sr_cursor := None,
                  sr_not_before := 0\<rparr>, None)
         | SoNextPage c \<Rightarrow>
             (nxt\<lparr>sr_state := SsQueued, sr_fail_count := 0, sr_throttle_count := 0,
                  sr_reason := None, sr_cursor := Some c, sr_not_before := now\<rparr>, Some now)
         | SoThrottled until secondary \<Rightarrow>
             (let nxt = nxt\<lparr>sr_state := SsParked\<rparr>;
                  (nxt, at) =
                    (if secondary
                     then (nxt\<lparr>sr_reason := Some ''secondary_limit'',
                               sr_throttle_count := sat_u32 (sr_throttle_count nxt + 1)\<rparr>,
                           sat_i64 (now + secondary_park_secs (max (sat_i64 (until - now)) 0)
                                            (sr_throttle_count nxt)))
                     else (nxt\<lparr>sr_reason := Some ''rate_limited''\<rparr>, until));
                  at = (if at > now then at else sat_i64 (now + SYNC_UNNAMED_PARK_SECS))
              in (nxt\<lparr>sr_not_before := at\<rparr>, Some at))
         | SoUnauthorized r \<Rightarrow>
             (nxt\<lparr>sr_state := SsBlocked, sr_reason := Some (unauthorized_slug r),
                  sr_not_before := 0\<rparr>, None)
         | SoRejected st \<Rightarrow>
             (nxt\<lparr>sr_state := SsBlocked, sr_reason := Some (''rejected_'' @ show_nat st),
                  sr_not_before := 0\<rparr>, None)
         | SoTransient r \<Rightarrow>
             (let nxt = nxt\<lparr>sr_fail_count := sat_u32 (sr_fail_count nxt + 1), sr_reason := Some r\<rparr>
              in if sr_fail_count nxt \<ge> SYNC_MAX_TRANSIENT_FAILS
                 then (nxt\<lparr>sr_state := SsDeferred, sr_not_before := 0\<rparr>, None)
                 else let at = sat_i64 (now + transient_backoff_secs (sr_fail_count nxt))
                      in (nxt\<lparr>sr_state := SsQueued, sr_not_before := at\<rparr>, Some at)))"

section \<open>The budget\<close>

definition ON_DEMAND_RESERVE_DIVISOR :: int where "ON_DEMAND_RESERVE_DIVISOR = 25"

text \<open>Rust's division truncates towards zero.\<close>

definition div_trunc :: "int \<Rightarrow> int \<Rightarrow> int" where
  "div_trunc a b = sgn a * sgn b * (\<bar>a\<bar> div \<bar>b\<bar>)"

definition reserve_for :: "int option \<Rightarrow> int option" where
  "reserve_for lim = map_option (\<lambda>l. div_trunc l ON_DEMAND_RESERVE_DIVISOR) lim"

record budget_row =
  b_remaining :: "int option"
  b_limit :: "int option"
  b_reset_at :: "int option"
  b_observed_at :: int

datatype budget_verdict = Spend | ParkUntil int | Reserved int | UnknownBudget

type_synonym budget_table = "(int option \<times> string) \<Rightarrow> budget_row option"

definition mirror ::
  "budget_table \<Rightarrow> int option \<Rightarrow> rate_snapshot \<Rightarrow> int \<Rightarrow> bool \<times> budget_table" where
  "mirror t account rate now =
     (case rs_resource rate of
        None \<Rightarrow> (False, t)
      | Some r \<Rightarrow>
          (True, t((account, r) \<mapsto>
             \<lparr>b_remaining = rs_remaining rate, b_limit = rs_limit rate,
              b_reset_at = rs_reset_at rate, b_observed_at = now\<rparr>)))"

definition read_budget :: "budget_table \<Rightarrow> int option \<Rightarrow> string \<Rightarrow> budget_row option" where
  "read_budget t account resource = t (account, resource)"

definition may_spend :: "budget_row option \<Rightarrow> bool \<Rightarrow> int \<Rightarrow> budget_verdict" where
  "may_spend row on_demand now =
     (case Option.bind row b_remaining of
        None \<Rightarrow> UnknownBudget
      | Some remaining \<Rightarrow>
          let reset_at = Option.bind row b_reset_at
          in if remaining \<le> 0 then
               (case reset_at of
                  Some reset \<Rightarrow> if now < reset then ParkUntil reset else Spend
                | None \<Rightarrow> Spend)
             else if \<not> on_demand
                     \<and> (case reserve_for (Option.bind row b_limit) of
                          Some r \<Rightarrow> remaining < r | None \<Rightarrow> False)
             then Reserved (case reset_at of Some t \<Rightarrow> t | None \<Rightarrow> now)
             else Spend)"

section \<open>Lemmas\<close>

lemma secondary_park_bounds: "60 \<le> secondary_park_secs r n \<and> secondary_park_secs r n \<le> 3600"
  by (simp add: secondary_park_secs_def clamp_def)

lemma transient_backoff_bounds: "5 \<le> transient_backoff_secs n \<and> transient_backoff_secs n \<le> 300"
  by (simp add: transient_backoff_secs_def clamp_def)

lemma transient_backoff_12:
  "transient_backoff_secs (Suc 0) = 5" "transient_backoff_secs 2 = 10"
  "transient_backoff_secs (Suc (Suc 0)) = 10"
  by (simp_all add: transient_backoff_secs_def clamp_def wrap_i64_def)

lemmas sync_apply_defs =
  sync_apply_def Let_def SYNC_MAX_TRANSIENT_FAILS_def SYNC_UNNAMED_PARK_SECS_def

fun blocks :: "sync_outcome \<Rightarrow> bool" where
  "blocks (SoUnauthorized _) = True"
| "blocks (SoRejected _) = True"
| "blocks _ = False"

fun parks :: "sync_outcome \<Rightarrow> bool" where
  "parks (SoThrottled _ _) = True"
| "parks _ = False"

lemma sync_apply_blocked: "sr_state (fst (sync_apply row out now)) = SsBlocked \<longleftrightarrow> blocks out"
  by (cases out) (simp_all add: sync_apply_defs split_beta)

lemma sync_apply_parked: "sr_state (fst (sync_apply row out now)) = SsParked \<longleftrightarrow> parks out"
  by (cases out) (simp_all add: sync_apply_defs split_beta)

lemma throttled_parks [simp]: "parks (throttled pd res rate now)" "\<not> blocks (throttled pd res rate now)"
  by (simp_all add: throttled_def Let_def)

lemma blocks_if [simp]: "blocks (if b then x else y) = (if b then blocks x else blocks y)"
  by simp

lemma rate_remaining [simp]:
  "rs_remaining (rate_snapshot pd res now) = header_i64 res ''x-ratelimit-remaining''"
  by (simp add: rate_snapshot_def)

definition waits :: "http_response \<Rightarrow> bool" where
  "waits res \<longleftrightarrow>
     header res ''retry-after'' \<noteq> None \<or> header_i64 res ''x-ratelimit-remaining'' = Some 0"

lemma forbidden_blocks:
  "blocks (classify_forbidden pd res (rate_snapshot pd res now) now) \<longleftrightarrow> \<not> waits res"
  by (auto simp: classify_forbidden_def waits_def)

section \<open>Properties\<close>

text \<open>
  What leaves a task blocked. Only a 401, a 403 that neither names a wait nor shows a spent
  allowance, and a status no other rule claims; never a transport failure, a throttle, a missing
  resource, or a server error. A 403 is a throttle exactly when it carries retry-after or shows
  nothing remaining. The outcome never depends on the row.
\<close>

theorem blocked_only_when_terminal:
  "sr_state (fst (sync_apply row (fst (classify pd answer now)) now)) = SsBlocked \<longleftrightarrow>
     (case answer of
        Inl e \<Rightarrow> False
      | Inr res \<Rightarrow>
          http_status res = 401
          \<or> http_status res = 403
            \<and> header res ''retry-after'' = None \<and> header_i64 res ''x-ratelimit-remaining'' \<noteq> Some 0
          \<or> http_status res \<notin> {304, 403, 404, 429} \<union> {200..299} \<union> {500..599})"
proof (cases answer)
  case (Inl e)
  then show ?thesis by (simp add: sync_apply_blocked classify_def)
next
  case (Inr res)
  show ?thesis
    unfolding sync_apply_blocked Inr classify_def Let_def sum.case fst_conv blocks_if
      forbidden_blocks waits_def by simp
qed

theorem blocked_only_when_terminal_witness:
  "sr_state (fst (sync_apply (queued_row ProjectRemote (Some 1) 0)
     (fst (classify (\<lambda>_. None) (Inr \<lparr>http_status = 403, http_headers = []\<rparr>) 7)) 7)) = SsBlocked"
  using blocked_only_when_terminal [where row = "queued_row ProjectRemote (Some 1) 0"
      and answer = "Inr \<lparr>http_status = 403, http_headers = []\<rparr>" and now = 7 and pd = "\<lambda>_. None"]
  by (simp add: header_i64_def header_def)

text \<open>
  C7: When a task is scheduled to run again it is queued or parked until exactly that instant,
  and not otherwise; a park always releases strictly after the settle that made it, whatever the
  server named (the loop cannot spin on a throttle); a secondary park lasts between a minute and an
  hour; a transient retry waits five or ten seconds.
\<close>

theorem schedules_are_in_the_future:
  assumes "in_i64 (now + 3600)" and "in_i64 now"
  shows "case sync_apply row out now of
      (nxt, at) \<Rightarrow>
        (at \<noteq> None \<longleftrightarrow> sr_state nxt \<in> {SsQueued, SsParked})
        \<and> (at \<noteq> None \<longrightarrow> at = Some (sr_not_before nxt))
        \<and> (sr_state nxt = SsParked \<longrightarrow> now < sr_not_before nxt)
        \<and> (\<forall>until. out = SoThrottled until True \<longrightarrow>
             now + 60 \<le> sr_not_before nxt \<and> sr_not_before nxt \<le> now + 3600)
        \<and> (\<forall>until. out = SoThrottled until False \<and> now < until \<longrightarrow> sr_not_before nxt = until)
        \<and> (\<forall>r. out = SoTransient r \<and> at \<noteq> None \<longrightarrow>
             sr_not_before nxt - now = (if sr_fail_count row = 0 then 5 else 10))"
proof -
  have sat: "sat_i64 (now + d) = now + d" if "0 \<le> d" "d \<le> 3600" for d
    using assms that by (simp add: sat_i64_def in_i64_def)
  have sec: "sat_i64 (now + secondary_park_secs r n) = now + secondary_park_secs r n" for r n
    using sat [of "secondary_park_secs r n"] secondary_park_bounds [of r n] by simp
  have tb: "sat_i64 (now + transient_backoff_secs n) = now + transient_backoff_secs n" for n
    using sat [of "transient_backoff_secs n"] transient_backoff_bounds [of n] by simp
  have unnamed: "sat_i64 (now + 60) = now + 60" using sat [of 60] by simp
  show ?thesis
  proof (cases out)
    case (SoThrottled until secondary)
    then show ?thesis
      using secondary_park_bounds [of "max (sat_i64 (until - now)) 0" "sr_throttle_count row"]
      by (cases secondary) (simp_all add: sync_apply_defs sec unnamed)
  next
    case (SoTransient r)
    have "sr_fail_count row = 0 \<or> sr_fail_count row = 1 \<or> 2 \<le> sr_fail_count row" by arith
    then show ?thesis
      unfolding SoTransient
      using sat [of 5] sat [of 10]
      by (auto simp: sync_apply_defs sat_u32_def transient_backoff_12)
  qed (simp_all add: sync_apply_defs)
qed

theorem schedules_are_in_the_future_witness:
  "sr_not_before (fst (sync_apply (queued_row ProjectRemote (Some 1) 0) (SoThrottled 5 False) 100)) > 100"
  using schedules_are_in_the_future [where now = 100
      and row = "queued_row ProjectRemote (Some 1) 0" and out = "SoThrottled 5 False"]
  by (simp add: in_i64_def sync_apply_defs sat_i64_def)

text \<open>The outcomes a task's successive runs had, each while it was scheduled again.\<close>

fun scheduled_through :: "sync_row \<Rightarrow> (sync_outcome \<times> int) list \<Rightarrow> bool" where
  "scheduled_through row [] = True"
| "scheduled_through row ((out, now) # outs) =
     (snd (sync_apply row out now) \<noteq> None
      \<and> scheduled_through (fst (sync_apply row out now)) outs)"

fun is_transient_so :: "sync_outcome \<Rightarrow> bool" where
  "is_transient_so (SoTransient _) = True"
| "is_transient_so _ = False"

fun ends_page :: "sync_outcome \<Rightarrow> bool" where
  "ends_page (SoNextPage _) = True"
| "ends_page _ = False"

lemma scheduled_fail_count:
  "scheduled_through row outs \<Longrightarrow> sr_fail_count row \<le> 2 \<Longrightarrow>
   \<forall>x \<in> set outs. \<not> ends_page (fst x) \<Longrightarrow>
   sr_fail_count row + length (filter (is_transient_so \<circ> fst) outs) \<le> 2"
proof (induction outs arbitrary: row)
  case (Cons x outs)
  obtain out now where x: "x = (out, now)" by fastforce
  define nxt where "nxt = fst (sync_apply row out now)"
  have "sr_fail_count nxt = sr_fail_count row + (if is_transient_so out then 1 else 0)
      \<and> sr_fail_count nxt \<le> 2"
    using Cons.prems unfolding x nxt_def
    by (cases out) (auto simp: sync_apply_defs sat_u32_def split_beta split: if_splits)
  moreover have "sr_fail_count nxt + length (filter (is_transient_so \<circ> fst) outs) \<le> 2"
    using Cons.prems calculation by (intro Cons.IH) (auto simp: x nxt_def)
  ultimately show ?case unfolding x comp_def by (auto split: if_splits)
qed simp

text \<open>Parks do not count as failures and failures do not lengthen parks. Within one page of work,
  however many throttled parks there are, a task that is still scheduled has failed at most twice,
  and no park ever defers or blocks it; the throttle count moves only on a secondary park.\<close>

theorem parks_are_not_failures:
  assumes "scheduled_through (queued_row k key t) outs" and "\<forall>x \<in> set outs. \<not> ends_page (fst x)"
  shows "length (filter (is_transient_so \<circ> fst) outs) \<le> 2
    \<and> sr_state (fst (sync_apply row (SoThrottled u sec) now)) = SsParked
    \<and> sr_fail_count (fst (sync_apply row (SoThrottled u sec) now)) = sr_fail_count row
    \<and> sr_throttle_count (fst (sync_apply row (SoThrottled u False) now)) = sr_throttle_count row
    \<and> sr_throttle_count (fst (sync_apply row (SoTransient r) now)) = sr_throttle_count row"
  using scheduled_fail_count [OF assms(1) _ assms(2)]
  by (simp add: queued_row_def sync_apply_defs split_beta)

theorem parks_are_not_failures_witness:
  "length (filter (is_transient_so \<circ> fst)
     [(SoThrottled 500 True, 100), (SoTransient ''x'', 700), (SoThrottled 900 False, 800)]) \<le> 2"
proof -
  have "scheduled_through (queued_row AccountRepos (Some 1) 0)
     [(SoThrottled 500 True, 100), (SoTransient ''x'', 700), (SoThrottled 900 False, 800)]"
    by (simp add: sync_apply_defs queued_row_def sat_u32_def)
  from parks_are_not_failures [OF this] show ?thesis by simp
qed

text \<open>The park after consecutive secondary limits is what the server asked for, at least a minute,
  doubled each time, at most an hour, for every wait under 272 years; past that the shift loses
  bits, and the longest wait a server can name parks an hour the first time and a minute the
  second.\<close>

theorem secondary_park_doubles:
  assumes "retry_after < 2 ^ 33"
  shows "secondary_park_secs retry_after n = max 60 (min 3600 (max retry_after 60 * 2 ^ n))
    \<and> secondary_park_secs i64_max 0 = 3600 \<and> secondary_park_secs i64_max 1 = 60"
proof -
  define base where "base = max retry_after 60"
  have b: "60 \<le> base" "base < 2 ^ 33" using assms by (auto simp: base_def)
  have le: "(2::int) ^ min n 30 \<le> 2 ^ 30" by (rule power_increasing) auto
  have "base * 2 ^ min n 30 \<le> (2 ^ 33 - 1) * 2 ^ 30"
    using b le by (intro mult_mono) auto
  then have hi: "base * 2 ^ min n 30 \<le> i64_max" by simp
  have lo: "60 \<le> base * 2 ^ min n 30"
    using b mult_mono [of 60 base 1 "2 ^ min n 30"] by simp
  have wrap: "wrap_i64 (base * 2 ^ min n 30) = base * 2 ^ min n 30"
    using hi lo by (intro wrap_i64_in_range) (simp add: in_i64_def)
  have same: "min 3600 (base * 2 ^ min n 30) = min 3600 (base * 2 ^ n)"
  proof (cases "n \<le> 30")
    case False
    have big: "(2::int) ^ 30 \<le> 2 ^ n" using False by (intro power_increasing) auto
    have "60 * 2 ^ 30 \<le> base * 2 ^ n" using b big by (intro mult_mono) auto
    moreover have "60 * 2 ^ 30 \<le> base * 2 ^ min n 30" using b False by (intro mult_mono) auto
    ultimately show ?thesis by simp
  qed (simp add: min_absorb1)
  show ?thesis
    unfolding secondary_park_secs_def clamp_def base_def [symmetric] wrap same
    by (simp add: wrap_i64_def)
qed

theorem secondary_park_doubles_witness: "secondary_park_secs 90 2 = 360"
  using secondary_park_doubles [of 90 2] by simp

text \<open>The allowance is spent as observed. Nothing is issued while the pool is known empty and its
  reset has not passed; past the reset one request goes out to refresh it; a scheduled task stops
  at a twenty-fifth of the pool's size and an on-demand one does not; an allowance nobody observed
  is not treated as spent. What a response said is what the next read answers, for that account
  and pool and no other.\<close>

theorem budget_is_respected:
  "(may_spend row od now = ParkUntil u \<longleftrightarrow>
      (\<exists>b n. row = Some b \<and> b_remaining b = Some n \<and> n \<le> 0 \<and> b_reset_at b = Some u \<and> now < u))
   \<and> (may_spend row od now = Reserved u \<longleftrightarrow>
      (\<exists>b n l. row = Some b \<and> b_remaining b = Some n \<and> 0 < n \<and> \<not> od \<and> b_limit b = Some l
         \<and> n < div_trunc l 25 \<and> u = (case b_reset_at b of Some t \<Rightarrow> t | None \<Rightarrow> now)))
   \<and> (may_spend row od now = UnknownBudget \<longleftrightarrow> Option.bind row b_remaining = None)
   \<and> reserve_for (Some 5000) = Some 200 \<and> reserve_for (Some 60) = Some 2
   \<and> (case mirror t acc rate now of
        (False, t') \<Rightarrow> rs_resource rate = None \<and> t' = t
      | (True, t') \<Rightarrow> \<exists>res. rs_resource rate = Some res
          \<and> read_budget t' acc res = Some \<lparr>b_remaining = rs_remaining rate, b_limit = rs_limit rate,
               b_reset_at = rs_reset_at rate, b_observed_at = now\<rparr>
          \<and> (\<forall>acc' res'. (acc', res') \<noteq> (acc, res) \<longrightarrow> read_budget t' acc' res' = read_budget t acc' res'))"
proof (intro conjI)
  have spend: "may_spend row od now = (case row of None \<Rightarrow> UnknownBudget
     | Some b \<Rightarrow> (case b_remaining b of None \<Rightarrow> UnknownBudget
        | Some n \<Rightarrow> if n \<le> 0 then (case b_reset_at b of
                       Some r \<Rightarrow> if now < r then ParkUntil r else Spend | None \<Rightarrow> Spend)
            else if \<not> od \<and> (case b_limit b of Some l \<Rightarrow> n < div_trunc l 25 | None \<Rightarrow> False)
            then Reserved (case b_reset_at b of Some t \<Rightarrow> t | None \<Rightarrow> now) else Spend))"
    by (auto simp: may_spend_def reserve_for_def ON_DEMAND_RESERVE_DIVISOR_def Let_def
        split: option.splits)
  show "may_spend row od now = ParkUntil u \<longleftrightarrow>
      (\<exists>b n. row = Some b \<and> b_remaining b = Some n \<and> n \<le> 0 \<and> b_reset_at b = Some u \<and> now < u)"
    unfolding spend by (auto split: option.splits if_splits)
  show "may_spend row od now = Reserved u \<longleftrightarrow>
      (\<exists>b n l. row = Some b \<and> b_remaining b = Some n \<and> 0 < n \<and> \<not> od \<and> b_limit b = Some l
         \<and> n < div_trunc l 25 \<and> u = (case b_reset_at b of Some t \<Rightarrow> t | None \<Rightarrow> now))"
    unfolding spend by (auto split: option.splits if_splits)
  show "may_spend row od now = UnknownBudget \<longleftrightarrow> Option.bind row b_remaining = None"
    unfolding spend by (auto split: option.splits if_splits)
  show "reserve_for (Some 5000) = Some 200" "reserve_for (Some 60) = Some 2"
    by (simp_all add: reserve_for_def div_trunc_def ON_DEMAND_RESERVE_DIVISOR_def)
qed (auto simp: mirror_def read_budget_def split: option.split)

theorem budget_is_respected_witness:
  "read_budget (snd (mirror (\<lambda>_. None) (Some 4)
       \<lparr>rs_resource = Some ''core'', rs_remaining = Some 0, rs_limit = Some 60, rs_reset_at = Some 90\<rparr> 50))
     (Some 5) ''core'' = None"
  using budget_is_respected [where row = None and od = False and now = 50 and u = 0
      and t = "\<lambda>_. None" and acc = "Some 4"
      and rate = "\<lparr>rs_resource = Some ''core'', rs_remaining = Some 0, rs_limit = Some 60,
                    rs_reset_at = Some 90\<rparr>"]
  by (simp add: mirror_def read_budget_def)

end
