(* ===== verification/Sync_Runner.thy ===== *)
theory Sync_Runner
  imports Sync_Policy "HOL-Library.Product_Lexorder" "HOL-Library.Multiset"
begin

text \<open>
  The sync runner (\<open>sync/runner.rs\<close>) over its table (\<open>sync/store.rs\<close>), its schedule
  (\<open>sync/schedule.rs\<close>) and its tasks (\<open>sync/task.rs\<close>, \<open>sync/progress.rs\<close>). The table is the list
  of its rows in id order, one row per task and key. One thread runs the loop, so the step relation
  interleaves its sections with the callers that only append to the inbox. What a task's request
  answered, the accounts and the dependency and sweep tables are inputs of the steps; SQLite itself
  is taken to succeed.
\<close>

section \<open>Tasks\<close>

datatype sync_task =
  TaskAccountRepos int | TaskProjectRemote int | TaskRenameProbe int | TaskAdvisories

fun task_kind :: "sync_task \<Rightarrow> sync_task_kind" where
  "task_kind (TaskAccountRepos _) = AccountRepos"
| "task_kind (TaskProjectRemote _) = ProjectRemote"
| "task_kind (TaskRenameProbe _) = RenameProbe"
| "task_kind TaskAdvisories = Advisories"

fun task_key :: "sync_task \<Rightarrow> int option" where
  "task_key (TaskAccountRepos a) = Some a"
| "task_key (TaskProjectRemote p) = Some p"
| "task_key (TaskRenameProbe a) = Some a"
| "task_key TaskAdvisories = None"

fun sync_kind_slug :: "sync_task_kind \<Rightarrow> string" where
  "sync_kind_slug AccountRepos = ''account_repos''"
| "sync_kind_slug ProjectRemote = ''project_remote''"
| "sync_kind_slug RenameProbe = ''rename_probe''"
| "sync_kind_slug Advisories = ''advisories''"

definition task_of :: "sync_row \<Rightarrow> sync_task option" where
  "task_of row =
     (case (sr_kind row, sr_key row) of
        (AccountRepos, Some k) \<Rightarrow> Some (TaskAccountRepos k)
      | (ProjectRemote, Some k) \<Rightarrow> Some (TaskProjectRemote k)
      | (RenameProbe, Some k) \<Rightarrow> Some (TaskRenameProbe k)
      | (Advisories, None) \<Rightarrow> Some TaskAdvisories
      | _ \<Rightarrow> None)"

definition is_on_demand :: "sync_task \<Rightarrow> bool" where
  "is_on_demand t = (case t of TaskProjectRemote _ \<Rightarrow> True | _ \<Rightarrow> False)"

section \<open>The table\<close>

type_synonym sync_table = "sync_row list"

definition row_id :: "sync_row \<Rightarrow> sync_task_kind \<times> int option" where
  "row_id r = (sr_kind r, sr_key r)"

text \<open>The upsert keeps the id of the row it replaces, so the row keeps its place.\<close>

fun put :: "sync_row \<Rightarrow> sync_table \<Rightarrow> sync_table" where
  "put r [] = [r]"
| "put r (x # xs) = (if row_id x = row_id r then r # xs else x # put r xs)"

definition load :: "sync_table \<Rightarrow> sync_task_kind \<Rightarrow> int option \<Rightarrow> sync_row option" where
  "load t k key = find (\<lambda>r. row_id r = (k, key)) t"

definition load_all :: "sync_table \<Rightarrow> sync_row list" where
  "load_all t = sort_key sr_not_before t"

definition requeue_running :: "sync_table \<Rightarrow> int \<Rightarrow> nat \<times> sync_table" where
  "requeue_running t now =
     (length (filter (\<lambda>r. sr_state r = SsRunning) t),
      map (\<lambda>r. if sr_state r = SsRunning
               then r\<lparr>sr_state := SsQueued, sr_not_before := 0, sr_at := now\<rparr> else r) t)"

definition delete_account_tasks :: "sync_table \<Rightarrow> int \<Rightarrow> nat \<times> sync_table" where
  "delete_account_tasks t account =
     (let hit = (\<lambda>r. (sr_kind r = AccountRepos \<or> sr_kind r = RenameProbe) \<and> sr_key r = Some account)
      in (length (filter hit t), filter (\<lambda>r. \<not> hit r) t))"

datatype sync_reset_cause =
  AccountReconnected | ScopeUpgraded | OrgOptInChanged | ScAppUpgraded | ScUserRequested

fun sync_cause_slug :: "sync_reset_cause \<Rightarrow> string" where
  "sync_cause_slug AccountReconnected = ''account_reconnected''"
| "sync_cause_slug ScopeUpgraded = ''scope_upgraded''"
| "sync_cause_slug OrgOptInChanged = ''org_opt_in_changed''"
| "sync_cause_slug ScAppUpgraded = ''app_upgraded''"
| "sync_cause_slug ScUserRequested = ''user_requested''"

datatype sync_reset_scope = ScopeEverything | ScopeAccount int | ScopeProject int

fun in_scope :: "sync_reset_scope \<Rightarrow> sync_row \<Rightarrow> bool" where
  "in_scope ScopeEverything r = True"
| "in_scope (ScopeAccount a) r =
     ((sr_kind r = AccountRepos \<or> sr_kind r = RenameProbe) \<and> sr_key r = Some a)"
| "in_scope (ScopeProject p) r = (sr_kind r = ProjectRemote \<and> sr_key r = Some p)"

definition sync_reset_for ::
  "sync_table \<Rightarrow> sync_reset_scope \<Rightarrow> sync_reset_cause \<Rightarrow> int \<Rightarrow> nat \<times> sync_table" where
  "sync_reset_for t scope cause now =
     (let hit = (\<lambda>r. sr_state r = SsDeferred \<and> in_scope scope r)
      in (length (filter hit t),
          map (\<lambda>r. if hit r
                   then r\<lparr>sr_state := SsQueued, sr_fail_count := 0, sr_not_before := 0,
                          sr_reason := Some (sync_cause_slug cause), sr_at := now\<rparr> else r) t))"

section \<open>The schedule\<close>

definition LISTING_INTERVAL_SECS :: int where "LISTING_INTERVAL_SECS = 6 * 60 * 60"
definition ADVISORY_SWEEP_INTERVAL_SECS :: int where "ADVISORY_SWEEP_INTERVAL_SECS = 24 * 60 * 60"

text \<open>The accounts are the ids of the enabled ones, ascending.\<close>

definition due_listings :: "int list \<Rightarrow> sync_table \<Rightarrow> int \<Rightarrow> int list" where
  "due_listings accounts t now =
     filter (\<lambda>a. case load t AccountRepos (Some a) of
                   None \<Rightarrow> True
                 | Some r \<Rightarrow> sr_state r = SsOk \<and> sr_at r + LISTING_INTERVAL_SECS \<le> now) accounts"

definition advisory_due :: "bool \<Rightarrow> int option \<Rightarrow> int \<Rightarrow> bool" where
  "advisory_due asks newest now =
     (if \<not> asks then False
      else case newest of
             None \<Rightarrow> True
           | Some t \<Rightarrow> sat_i64 (t + ADVISORY_SWEEP_INTERVAL_SECS) \<le> now)"

record schedule_inputs =
  si_accounts :: "int list"
  si_has_dependencies :: bool
  si_newest_sweep :: "int option"

definition busy :: "sync_row option \<Rightarrow> bool" where
  "busy r = (case r of None \<Rightarrow> False
             | Some row \<Rightarrow> sr_state row \<in> {SsQueued, SsRunning, SsParked, SsBlocked})"

definition sweep_schedule :: "schedule_inputs \<Rightarrow> sync_table \<Rightarrow> int \<Rightarrow> nat \<times> sync_table" where
  "sweep_schedule si t now =
     (let due = due_listings (si_accounts si) t now;
          t = foldl (\<lambda>t a. put (queued_row AccountRepos (Some a) now) t) t due;
          queued = length due
      in if advisory_due (si_has_dependencies si) (si_newest_sweep si) now
            \<and> \<not> busy (load t Advisories None)
         then (queued + 1, put (queued_row Advisories None now) t)
         else (queued, t))"

definition any_outstanding :: "sync_table \<Rightarrow> bool" where
  "any_outstanding t =
     list_ex (\<lambda>r. sr_state r \<in> {SsQueued, SsRunning, SsParked} \<and> task_of r \<noteq> None) (load_all t)"

section \<open>The loop's sections\<close>

definition SCHEDULE_POLL_SECS :: int where "SCHEDULE_POLL_SECS = 60"

datatype sync_notice = NoticeThrottled | NoticeUnauthorized | NoticeForbidden | NoticeOffline

fun notice_for :: "sync_outcome \<Rightarrow> sync_notice option" where
  "notice_for (SoThrottled _ _) = Some NoticeThrottled"
| "notice_for (SoUnauthorized TokenInvalid) = Some NoticeUnauthorized"
| "notice_for (SoUnauthorized SsoRequired) = Some NoticeForbidden"
| "notice_for (SoUnauthorized Forbidden) = Some NoticeForbidden"
| "notice_for (SoTransient _) = Some NoticeOffline"
| "notice_for SoDone = None"
| "notice_for SoNotModified = None"
| "notice_for (SoNextPage _) = None"
| "notice_for SoNotFound = None"
| "notice_for (SoRejected _) = None"

record listing_progress =
  lp_account :: int
  lp_listed :: int
  lp_total :: "int option"

definition new_listing :: "int \<Rightarrow> int option \<Rightarrow> listing_progress" where
  "new_listing a tot = \<lparr>lp_account = a, lp_listed = 0, lp_total = tot\<rparr>"

definition add_listed :: "int \<Rightarrow> listing_progress \<Rightarrow> listing_progress" where
  "add_listed n p = p\<lparr>lp_listed := sat_i64 (lp_listed p + max n 0)\<rparr>"

record sync_runner =
  ru_table :: sync_table
  ru_inbox :: "sync_task list"
  ru_outstanding :: bool
  ru_schedule_due :: int
  ru_stopping :: bool
  ru_notice :: "sync_notice option"
  ru_current :: "sync_task option"

definition sync_enqueue :: "sync_task \<Rightarrow> sync_runner \<Rightarrow> sync_runner" where
  "sync_enqueue task ru = ru\<lparr>ru_inbox := ru_inbox ru @ [task], ru_outstanding := True\<rparr>"

definition drain_one :: "int \<Rightarrow> sync_table \<Rightarrow> sync_task \<Rightarrow> sync_table" where
  "drain_one now t task =
     (if busy (load t (task_kind task) (task_key task)) then t
      else put (queued_row (task_kind task) (task_key task) now) t)"

definition drain_inbox :: "int \<Rightarrow> sync_task list \<Rightarrow> sync_table \<Rightarrow> sync_table" where
  "drain_inbox now pending t = foldl (drain_one now) t pending"

definition promote_parks :: "int \<Rightarrow> sync_table \<Rightarrow> sync_table" where
  "promote_parks now t =
     foldl (\<lambda>t r. if is_due_park r now then put (r\<lparr>sr_state := SsQueued, sr_at := now\<rparr>) t else t)
       t (load_all t)"

definition pick :: "int \<Rightarrow> sync_table \<Rightarrow> (sync_task \<times> sync_row) option" where
  "pick now t =
     (let runnable = List.map_filter (\<lambda>r. map_option (\<lambda>task. (task, r)) (task_of r))
                       (filter (\<lambda>r. is_runnable r now) (load_all t));
          ordered = sort_key (\<lambda>(task, r). (if is_on_demand task then 0 :: nat else 1, sr_not_before r))
                      runnable
      in case ordered of [] \<Rightarrow> None | x # _ \<Rightarrow> Some x)"

definition take_next :: "int \<Rightarrow> sync_runner \<Rightarrow> sync_task option \<times> sync_runner" where
  "take_next now ru =
     (let t = promote_parks now (drain_inbox now (ru_inbox ru) (ru_table ru))
      in case pick now t of
           None \<Rightarrow> (None, ru\<lparr>ru_table := t, ru_inbox := [], ru_outstanding := any_outstanding t\<rparr>)
         | Some (task, row) \<Rightarrow>
             (Some task,
              ru\<lparr>ru_table := put (row\<lparr>sr_state := SsRunning, sr_at := now\<rparr>) t, ru_inbox := [],
                 ru_outstanding := True\<rparr>))"

definition poll_schedule :: "schedule_inputs \<Rightarrow> int \<Rightarrow> sync_runner \<Rightarrow> sync_runner" where
  "poll_schedule si now ru =
     (case sweep_schedule si (ru_table ru) now of
        (queued, t) \<Rightarrow>
          ru\<lparr>ru_table := t, ru_schedule_due := sat_i64 (now + SCHEDULE_POLL_SECS),
             ru_outstanding := (queued > 0 \<or> any_outstanding t \<or> ru_inbox ru \<noteq> [])\<rparr>)"

definition start :: "schedule_inputs \<Rightarrow> int \<Rightarrow> sync_runner \<Rightarrow> sync_runner" where
  "start si now ru =
     (let (moved, t) = requeue_running (ru_table ru) now;
          (queued, t) = sweep_schedule si t now
      in ru\<lparr>ru_table := t, ru_schedule_due := sat_i64 (now + SCHEDULE_POLL_SECS),
            ru_outstanding := (any_outstanding t \<or> ru_inbox ru \<noteq> [])\<rparr>)"

text \<open>\<open>run_one\<close>: the budget first; only a verdict that spends reaches the request.\<close>

definition DEFAULT_RESOURCE :: string where "DEFAULT_RESOURCE = ''core''"

fun resource_for :: "string option \<Rightarrow> sync_task \<Rightarrow> string" where
  "resource_for last_sweep TaskAdvisories =
     (case last_sweep of Some r \<Rightarrow> r | None \<Rightarrow> DEFAULT_RESOURCE)"
| "resource_for last_sweep _ = DEFAULT_RESOURCE"

fun account_of :: "(int \<Rightarrow> int option) \<Rightarrow> sync_task \<Rightarrow> int option" where
  "account_of acct (TaskAccountRepos a) = Some a"
| "account_of acct (TaskRenameProbe a) = Some a"
| "account_of acct (TaskProjectRemote p) = acct p"
| "account_of acct TaskAdvisories = None"

definition task_verdict ::
  "budget_table \<Rightarrow> (int \<Rightarrow> int option) \<Rightarrow> string option \<Rightarrow> sync_task \<Rightarrow> int \<Rightarrow> budget_verdict" where
  "task_verdict b acct last_sweep task now =
     may_spend (read_budget b (account_of acct task) (resource_for last_sweep task))
       (is_on_demand task) now"

text \<open>\<open>answer\<close> is what executing the task answered; an error's text is the reason of a transient
  failure.\<close>

definition run_one ::
  "budget_verdict \<Rightarrow> string + sync_outcome \<Rightarrow> (string + sync_outcome) \<times> bool" where
  "run_one verdict answer =
     (case verdict of
        ParkUntil until \<Rightarrow> (Inr (SoThrottled until False), False)
      | Reserved until \<Rightarrow> (Inr (SoThrottled until False), True)
      | _ \<Rightarrow> (answer, False))"

definition sync_settle ::
  "sync_task \<Rightarrow> string + sync_outcome \<Rightarrow> bool \<Rightarrow> int \<Rightarrow> sync_runner \<Rightarrow> sync_runner" where
  "sync_settle task answer reserved now ru =
     (let out = (case answer of Inl e \<Rightarrow> SoTransient e | Inr x \<Rightarrow> x);
          k = task_kind task; key = task_key task;
          before = (case load (ru_table ru) k key of
                      Some r \<Rightarrow> r | None \<Rightarrow> queued_row k key now);
          nxt = fst (sync_apply before out now);
          nxt = (if reserved then nxt\<lparr>sr_reason := Some ''reserve''\<rparr> else nxt);
          ru = ru\<lparr>ru_table := put nxt (ru_table ru)\<rparr>;
          ru = (case (task, out) of
                  (TaskAccountRepos a, SoDone) \<Rightarrow> sync_enqueue (TaskRenameProbe a) ru
                | _ \<Rightarrow> ru)
      in ru\<lparr>ru_notice := notice_for out, ru_outstanding := True\<rparr>)"

section \<open>The runner's steps\<close>

inductive runner_step :: "sync_runner \<Rightarrow> sync_runner \<Rightarrow> bool" where
  caller_enqueues: "runner_step ru (sync_enqueue task ru)"
| loop_polls:
    "ru_current ru = None \<Longrightarrow> \<not> ru_stopping ru \<Longrightarrow> ru_schedule_due ru \<le> now \<Longrightarrow>
     sorted_wrt (<) (si_accounts si) \<Longrightarrow>
     runner_step ru (poll_schedule si now ru)"
| loop_takes:
    "ru_current ru = None \<Longrightarrow> \<not> ru_stopping ru \<Longrightarrow> ru_outstanding ru \<Longrightarrow>
     take_next now ru = (picked, ru') \<Longrightarrow>
     runner_step ru (ru'\<lparr>ru_current := picked\<rparr>)"
| loop_settles:
    "ru_current ru = Some task \<Longrightarrow>
     run_one (task_verdict b acct last_sweep task now) answer = (answer', reserved) \<Longrightarrow>
     runner_step ru ((sync_settle task answer' reserved now' ru)\<lparr>ru_current := None\<rparr>)"
| user_resets: "runner_step ru (ru\<lparr>ru_table := snd (sync_reset_for (ru_table ru) scope cause now)\<rparr>)"
| account_removed: "runner_step ru (ru\<lparr>ru_table := snd (delete_account_tasks (ru_table ru) account)\<rparr>)"
| stop_requested: "runner_step ru (ru\<lparr>ru_stopping := True\<rparr>)"

inductive_cases runner_stepE: "runner_step ru ru'"

inductive reachable_runner :: "sync_runner \<Rightarrow> sync_runner \<Rightarrow> bool" for ru0 where
  rr_init: "reachable_runner ru0 ru0"
| rr_step: "reachable_runner ru0 ru \<Longrightarrow> runner_step ru ru' \<Longrightarrow> reachable_runner ru0 ru'"

section \<open>The table keeps one row per task\<close>

definition table_ok :: "sync_table \<Rightarrow> bool" where
  "table_ok t \<longleftrightarrow> distinct (map row_id t)"

lemma ids_put [simp]: "row_id ` set (put r t) = insert (row_id r) (row_id ` set t)"
  by (induction r t rule: put.induct) auto

lemma table_ok_put [intro, simp]: "table_ok t \<Longrightarrow> table_ok (put r t)"
proof (induction r t rule: put.induct)
  case (2 r x xs)
  then show ?case by (auto simp: table_ok_def)
qed (simp add: table_ok_def)

lemma set_put: "table_ok t \<Longrightarrow> set (put r t) = insert r {x \<in> set t. row_id x \<noteq> row_id r}"
proof (induction r t rule: put.induct)
  case (2 r x xs)
  then have "table_ok xs" "row_id x \<notin> row_id ` set xs" by (auto simp: table_ok_def)
  then show ?case using 2 by (auto simp: image_iff)
qed simp

lemma load_Some_iff:
  assumes "table_ok t"
  shows "load t k key = Some r \<longleftrightarrow> r \<in> set t \<and> row_id r = (k, key)"
proof
  assume "load t k key = Some r"
  then show "r \<in> set t \<and> row_id r = (k, key)" by (auto simp: load_def find_Some_iff)
next
  assume r: "r \<in> set t \<and> row_id r = (k, key)"
  then have "load t k key \<noteq> None" by (auto simp: load_def find_None_iff)
  then obtain x where x: "load t k key = Some x" by blast
  then have "x \<in> set t" "row_id x = row_id r" using r by (auto simp: load_def find_Some_iff)
  then have "x = r" using assms r by (simp add: table_ok_def distinct_map inj_on_def)
  then show "load t k key = Some r" using x by simp
qed

lemma load_None_iff: "load t k key = None \<longleftrightarrow> (k, key) \<notin> row_id ` set t"
  by (force simp: load_def find_None_iff)

lemma set_load_all [simp]: "set (load_all t) = set t" by (simp add: load_all_def)

lemma table_ok_filter [intro]: "table_ok t \<Longrightarrow> table_ok (filter P t)"
  by (simp add: table_ok_def distinct_map_filter)

lemma table_ok_map: "(\<And>r. row_id (f r) = row_id r) \<Longrightarrow> table_ok t \<Longrightarrow> table_ok (map f t)"
  by (simp add: table_ok_def comp_def)

section \<open>What each section does to a row\<close>

text \<open>\<open>safe_op P\<close>: a table operation that leaves every row \<open>P\<close> holds of as it was and makes no
  row running.\<close>

definition safe_op :: "(sync_row \<Rightarrow> bool) \<Rightarrow> sync_table \<Rightarrow> sync_table \<Rightarrow> bool" where
  "safe_op P t t' \<longleftrightarrow> table_ok t'
     \<and> (\<forall>r \<in> set t. P r \<longrightarrow> r \<in> set t')
     \<and> (\<forall>r \<in> set t'. r \<in> set t \<or> sr_state r \<noteq> SsRunning)"

lemma safe_op_refl: "table_ok t \<Longrightarrow> safe_op P t t" by (simp add: safe_op_def)

lemma safe_op_trans: "safe_op P t t' \<Longrightarrow> safe_op P t' t'' \<Longrightarrow> safe_op P t t''"
  unfolding safe_op_def by blast

lemma safe_op_put:
  assumes "table_ok t" "sr_state r \<noteq> SsRunning" "\<forall>x \<in> set t. row_id x = row_id r \<longrightarrow> \<not> P x"
  shows "safe_op P t (put r t)"
  using assms by (auto simp: safe_op_def set_put)

definition blocked :: "sync_row \<Rightarrow> bool" where "blocked r \<longleftrightarrow> sr_state r = SsBlocked"

lemma queued_row_simps [simp]:
  "row_id (queued_row k key now) = (k, key)" "sr_state (queued_row k key now) = SsQueued"
  by (simp_all add: queued_row_def row_id_def)

text \<open>Queueing afresh spares the rows that are queued, running, parked or blocked.\<close>

definition spared :: "sync_row \<Rightarrow> bool" where
  "spared r \<longleftrightarrow> sr_state r \<in> {SsQueued, SsRunning, SsParked, SsBlocked}"

lemma drain_one_safe: "table_ok t \<Longrightarrow> safe_op spared t (drain_one now t task)"
proof -
  assume ok: "table_ok t"
  show ?thesis
  proof (cases "busy (load t (task_kind task) (task_key task))")
    case True
    then show ?thesis using ok by (simp add: drain_one_def safe_op_refl)
  next
    case False
    have "\<not> spared x" if "x \<in> set t" "row_id x = (task_kind task, task_key task)" for x
    proof -
      have "load t (task_kind task) (task_key task) = Some x" using load_Some_iff [OF ok] that by simp
      then show ?thesis using False by (simp add: busy_def spared_def)
    qed
    then show ?thesis
      using ok False by (auto simp: drain_one_def intro!: safe_op_put)
  qed
qed

lemma drain_inbox_safe: "table_ok t \<Longrightarrow> safe_op spared t (drain_inbox now pending t)"
proof (induction pending arbitrary: t)
  case Nil then show ?case by (simp add: drain_inbox_def safe_op_refl)
next
  case (Cons x xs)
  have one: "safe_op spared t (drain_one now t x)" using Cons.prems by (rule drain_one_safe)
  then have "table_ok (drain_one now t x)" by (simp add: safe_op_def)
  from Cons.IH [OF this] safe_op_trans [OF one] show ?case by (simp add: drain_inbox_def)
qed

lemma due_listings_safe:
  assumes "table_ok t" "\<forall>a \<in> set due. \<forall>x \<in> set t. row_id x = (AccountRepos, Some a) \<longrightarrow> sr_state x = SsOk"
    and "distinct due"
  shows "safe_op spared t (foldl (\<lambda>t a. put (queued_row AccountRepos (Some a) now) t) t due)"
  using assms
proof (induction due arbitrary: t)
  case Nil then show ?case by (simp add: safe_op_refl)
next
  case (Cons a due)
  define t1 where "t1 = put (queued_row AccountRepos (Some a) now) t"
  have one: "safe_op spared t t1"
    unfolding t1_def using Cons.prems by (intro safe_op_put) (auto simp: spared_def)
  have "safe_op spared t1 (foldl (\<lambda>t a. put (queued_row AccountRepos (Some a) now) t) t1 due)"
    using Cons.prems by (intro Cons.IH) (auto simp: t1_def set_put)
  then show ?case using safe_op_trans [OF one] by (simp add: t1_def)
qed

lemma due_listings_ok:
  assumes "table_ok t" "a \<in> set (due_listings accounts t now)" "x \<in> set t"
    "row_id x = (AccountRepos, Some a)"
  shows "sr_state x = SsOk"
  using assms load_Some_iff [OF assms(1), of AccountRepos "Some a" x] by (auto simp: due_listings_def)

lemma sweep_schedule_safe:
  assumes "table_ok t" "distinct (si_accounts si)"
  shows "safe_op spared t (snd (sweep_schedule si t now))"
proof -
  define due where "due = due_listings (si_accounts si) t now"
  define t1 where "t1 = foldl (\<lambda>t a. put (queued_row AccountRepos (Some a) now) t) t due"
  have one: "safe_op spared t t1"
    unfolding t1_def due_def
    using assms due_listings_ok by (intro due_listings_safe) (auto simp: due_listings_def)
  have ok: "table_ok t1" using one by (simp add: safe_op_def)
  show ?thesis
  proof (cases "advisory_due (si_has_dependencies si) (si_newest_sweep si) now
      \<and> \<not> busy (load t1 Advisories None)")
    case True
    have "\<not> spared x" if "x \<in> set t1" "row_id x = (Advisories, None)" for x
    proof -
      have "load t1 Advisories None = Some x" using load_Some_iff [OF ok] that by simp
      then show ?thesis using True by (simp add: busy_def spared_def)
    qed
    then have "safe_op spared t1 (put (queued_row Advisories None now) t1)"
      using ok by (intro safe_op_put) auto
    then show ?thesis
      using True safe_op_trans [OF one]
      by (simp add: sweep_schedule_def Let_def due_def [symmetric] t1_def [symmetric])
  next
    case False
    then show ?thesis
      using one by (auto simp: sweep_schedule_def Let_def due_def [symmetric] t1_def [symmetric])
  qed
qed

text \<open>Promotion moves only the parks whose instant has come.\<close>

definition unpromoted :: "int \<Rightarrow> sync_row \<Rightarrow> bool" where
  "unpromoted now r \<longleftrightarrow> \<not> is_due_park r now"

lemma promote_safe_aux:
  assumes "table_ok t" "set rs \<subseteq> set t0" "table_ok t0"
    and "\<forall>r \<in> set rs. is_due_park r now \<longrightarrow> (\<forall>x \<in> set t. row_id x = row_id r \<longrightarrow> \<not> unpromoted now x)"
    and "distinct (map row_id rs)"
  shows "safe_op (unpromoted now) t
     (foldl (\<lambda>t r. if is_due_park r now then put (r\<lparr>sr_state := SsQueued, sr_at := now\<rparr>) t else t) t rs)"
  using assms
proof (induction rs arbitrary: t)
  case Nil then show ?case by (simp add: safe_op_refl)
next
  case (Cons r rs)
  define t1 where "t1 = (if is_due_park r now then put (r\<lparr>sr_state := SsQueued, sr_at := now\<rparr>) t else t)"
  have rid: "row_id (r\<lparr>sr_state := SsQueued, sr_at := now\<rparr>) = row_id r" by (simp add: row_id_def)
  have one: "safe_op (unpromoted now) t t1"
    using Cons.prems rid by (auto simp: t1_def safe_op_refl intro!: safe_op_put)
  have ids: "row_id x = row_id r' \<Longrightarrow> x \<in> set t1 \<Longrightarrow> r' \<in> set rs \<Longrightarrow> x \<in> set t" for x r'
    using Cons.prems(1,5) rid by (auto simp: t1_def set_put image_iff split: if_splits)
  have "safe_op (unpromoted now) t1
     (foldl (\<lambda>t r. if is_due_park r now then put (r\<lparr>sr_state := SsQueued, sr_at := now\<rparr>) t else t) t1 rs)"
  proof (rule Cons.IH)
    show "table_ok t1" using one by (simp add: safe_op_def)
    show "\<forall>r' \<in> set rs. is_due_park r' now \<longrightarrow>
        (\<forall>x \<in> set t1. row_id x = row_id r' \<longrightarrow> \<not> unpromoted now x)"
    proof (intro ballI impI)
      fix r' x assume a: "r' \<in> set rs" "is_due_park r' now" "x \<in> set t1" "row_id x = row_id r'"
      then have "x \<in> set t" using ids by blast
      then show "\<not> unpromoted now x" using a Cons.prems(4) by simp
    qed
  qed (use Cons.prems in auto)
  then show ?case using safe_op_trans [OF one] by (simp add: t1_def)
qed

lemma promote_parks_safe: "table_ok t \<Longrightarrow> safe_op (unpromoted now) t (promote_parks now t)"
proof -
  assume ok: "table_ok t"
  have inj: "r' \<in> set t \<Longrightarrow> r \<in> set t \<Longrightarrow> row_id r' = row_id r \<Longrightarrow> r' = r" for r r'
    using ok by (simp add: table_ok_def distinct_map inj_on_def)
  have "distinct (map row_id (load_all t))"
  proof -
    have "mset (map row_id (load_all t)) = mset (map row_id t)"
      by (simp only: load_all_def mset_map mset_sort)
    then show ?thesis using ok unfolding table_ok_def by (metis mset_eq_imp_distinct_iff)
  qed
  then show ?thesis
    unfolding promote_parks_def using ok inj
    by (intro promote_safe_aux [where t0 = t]) (auto simp: unpromoted_def)
qed

lemma pick_in:
  assumes "pick now t = Some (task, row)"
  shows "row \<in> set t" "is_runnable row now" "task_of row = Some task"
proof -
  define runnable where "runnable = List.map_filter (\<lambda>r. map_option (\<lambda>task. (task, r)) (task_of r))
                       (filter (\<lambda>r. is_runnable r now) (load_all t))"
  have "(task, row) \<in> set runnable"
    using assms unfolding pick_def Let_def runnable_def [symmetric]
    by (metis (no_types, lifting) list.case_eq_if list.set_sel(1) option.discI option.inject set_sort)
  then show "row \<in> set t" "is_runnable row now" "task_of row = Some task"
    by (auto simp: runnable_def List.map_filter_def)
qed

lemma task_of_id: "task_of r = Some task \<longleftrightarrow> row_id r = (task_kind task, task_key task)"
  by (cases task; cases "sr_kind r"; cases "sr_key r") (auto simp: task_of_def row_id_def)

lemma task_of_row_id: "row_id a = row_id b \<Longrightarrow> task_of a = task_of b"
  by (simp add: row_id_def task_of_def)

section \<open>The runner's invariant\<close>

text \<open>One row per task; a row is running exactly when it is the row of the task the thread is on.\<close>

definition runner_ok :: "sync_runner \<Rightarrow> bool" where
  "runner_ok ru \<longleftrightarrow> table_ok (ru_table ru)
     \<and> (\<forall>r \<in> set (ru_table ru). sr_state r = SsRunning \<longleftrightarrow> task_of r = ru_current ru \<and> ru_current ru \<noteq> None)"

lemma runner_ok_safe:
  "runner_ok ru \<Longrightarrow> ru_current ru = None \<Longrightarrow> safe_op P (ru_table ru) t' \<Longrightarrow>
   runner_ok (ru\<lparr>ru_table := t'\<rparr>)"
  unfolding runner_ok_def safe_op_def by auto

lemma take_next_safe:
  fixes now :: int
  assumes ok: "table_ok (ru_table ru)"
  defines "t \<equiv> promote_parks now (drain_inbox now (ru_inbox ru) (ru_table ru))"
  shows "table_ok t"
    and "\<And>r. r \<in> set (ru_table ru) \<Longrightarrow> spared r \<Longrightarrow> unpromoted now r \<Longrightarrow> r \<in> set t"
    and "\<And>r. r \<in> set t \<Longrightarrow> sr_state r = SsRunning \<Longrightarrow> r \<in> set (ru_table ru)"
proof -
  define t1 where "t1 = drain_inbox now (ru_inbox ru) (ru_table ru)"
  have 1: "safe_op spared (ru_table ru) t1" using drain_inbox_safe [OF ok] by (simp add: t1_def)
  then have 2: "safe_op (unpromoted now) t1 t"
    using promote_parks_safe by (simp add: t_def t1_def safe_op_def)
  show "table_ok t" using 2 by (simp add: safe_op_def)
  show "r \<in> set (ru_table ru) \<Longrightarrow> spared r \<Longrightarrow> unpromoted now r \<Longrightarrow> r \<in> set t" for r
    using 1 2 unfolding safe_op_def by blast
  show "r \<in> set t \<Longrightarrow> sr_state r = SsRunning \<Longrightarrow> r \<in> set (ru_table ru)" for r
    using 1 2 unfolding safe_op_def by blast
qed

lemma sync_apply_fields:
  "sr_state (fst (sync_apply row out now)) \<noteq> SsRunning"
  "row_id (fst (sync_apply row out now)) = row_id row"
  by (cases out; simp add: sync_apply_defs split_beta row_id_def)+

lemma sync_settle_table:
  assumes "table_ok (ru_table ru)"
  obtains nxt where "ru_table (sync_settle task answer reserved now ru) = put nxt (ru_table ru)"
    "row_id nxt = (task_kind task, task_key task)" "sr_state nxt \<noteq> SsRunning"
proof -
  define before where "before = (case load (ru_table ru) (task_kind task) (task_key task) of
                      Some r \<Rightarrow> r | None \<Rightarrow> queued_row (task_kind task) (task_key task) now)"
  have id: "row_id before = (task_kind task, task_key task)"
    using load_Some_iff [OF assms] by (auto simp: before_def split: option.splits)
  define out where "out = (case answer of Inl e \<Rightarrow> SoTransient e | Inr x \<Rightarrow> x)"
  define nxt where "nxt = fst (sync_apply before out now)"
  define nxt' where "nxt' = (if reserved then nxt\<lparr>sr_reason := Some ''reserve''\<rparr> else nxt)"
  have "row_id nxt' = (task_kind task, task_key task)" "sr_state nxt' \<noteq> SsRunning"
    using sync_apply_fields [of before out now] id by (auto simp: nxt'_def nxt_def row_id_def)
  moreover have "ru_table (sync_settle task answer reserved now ru) = put nxt' (ru_table ru)"
    unfolding sync_settle_def Let_def out_def [symmetric] before_def [symmetric] nxt_def [symmetric]
      nxt'_def [symmetric]
    by (auto simp: sync_enqueue_def split: sync_task.splits sync_outcome.splits)
  ultimately show thesis using that by blast
qed

lemma sync_settle_current [simp]: "ru_current (sync_settle task answer reserved now ru) = ru_current ru"
  unfolding sync_settle_def Let_def
  by (auto simp: sync_enqueue_def split: sync_task.splits sync_outcome.splits)

lemma runner_ok_step:
  assumes "runner_step ru ru'" "runner_ok ru"
  shows "runner_ok ru'"
  using assms
proof (induction rule: runner_step.induct)
  case (loop_polls ru now si)
  have "safe_op spared (ru_table ru) (snd (sweep_schedule si (ru_table ru) now))"
    using sweep_schedule_safe loop_polls by (simp add: runner_ok_def strict_sorted_iff)
  from runner_ok_safe [OF loop_polls(5) loop_polls(1) this] show ?case
    by (simp add: poll_schedule_def runner_ok_def split_beta)
next
  case (loop_takes ru now picked ru')
  have ok: "table_ok (ru_table ru)" using loop_takes by (simp add: runner_ok_def)
  have idle: "\<forall>r \<in> set (ru_table ru). sr_state r \<noteq> SsRunning"
    using loop_takes by (auto simp: runner_ok_def)
  define t where "t = promote_parks now (drain_inbox now (ru_inbox ru) (ru_table ru))"
  note safe = take_next_safe [OF ok, where now = now, folded t_def]
  have quiet: "\<forall>r \<in> set t. sr_state r \<noteq> SsRunning" using safe(3) idle by blast
  show ?case
  proof (cases "pick now t")
    case None
    then show ?thesis
      using loop_takes(4) safe(1) quiet by (auto simp: take_next_def Let_def t_def [symmetric] runner_ok_def)
  next
    case (Some p)
    obtain task row where p: "p = (task, row)" by fastforce
    define row' where "row' = row\<lparr>sr_state := SsRunning, sr_at := now\<rparr>"
    have row': "task_of row' = Some task" "sr_state row' = SsRunning"
      using pick_in(3) Some p by (simp_all add: task_of_def row'_def)
    have eq: "picked = Some task" "ru_table ru' = put row' t"
      using loop_takes(4) Some p by (auto simp: take_next_def Let_def t_def [symmetric] row'_def)
    have "task_of r \<noteq> Some task" if "row_id r \<noteq> row_id row'" for r
      using that row'(1) task_of_id by metis
    then show ?thesis using eq row' safe(1) quiet by (auto simp: runner_ok_def set_put)
  qed
next
  case (loop_settles ru task b acct last_sweep now answer answer' reserved now')
  then have ok: "table_ok (ru_table ru)" by (simp add: runner_ok_def)
  obtain nxt where nxt: "ru_table (sync_settle task answer' reserved now' ru) = put nxt (ru_table ru)"
    "row_id nxt = (task_kind task, task_key task)" "sr_state nxt \<noteq> SsRunning"
    using sync_settle_table [OF ok] by metis
  have "row_id r = (task_kind task, task_key task)" if "r \<in> set (ru_table ru)" "sr_state r = SsRunning" for r
  proof -
    have "task_of r = Some task" using that loop_settles by (simp add: runner_ok_def)
    then show ?thesis unfolding task_of_id .
  qed
  then show ?case using ok nxt by (auto simp: runner_ok_def set_put)
next
  case (user_resets ru scope cause now)
  define f where "f = (\<lambda>r :: sync_row. if sr_state r = SsDeferred \<and> in_scope scope r
      then r\<lparr>sr_state := SsQueued, sr_fail_count := 0, sr_not_before := 0,
             sr_reason := Some (sync_cause_slug cause), sr_at := now\<rparr> else r)"
  have rid: "row_id (f r) = row_id r" for r by (simp add: f_def row_id_def)
  have f: "row_id (f r) = row_id r" "task_of (f r) = task_of r"
    "sr_state (f r) = SsRunning \<longleftrightarrow> sr_state r = SsRunning" for r
    using rid task_of_row_id [OF rid] by (simp_all add: f_def)
  have "snd (sync_reset_for (ru_table ru) scope cause now) = map f (ru_table ru)"
    by (simp add: sync_reset_for_def f_def Let_def)
  then show ?case
    using user_resets f by (auto simp: runner_ok_def intro!: table_ok_map)
next
  case (account_removed ru account)
  then show ?case by (auto simp: runner_ok_def delete_account_tasks_def Let_def)
qed (simp_all add: runner_ok_def sync_enqueue_def)

lemma reachable_runner_ok:
  "reachable_runner ru0 ru \<Longrightarrow> runner_ok ru0 \<Longrightarrow> runner_ok ru"
  by (induction rule: reachable_runner.induct) (blast intro: runner_ok_step)+

lemma start_ok:
  assumes "table_ok (ru_table ru)" "ru_current ru = None" "sorted_wrt (<) (si_accounts si)"
  shows "runner_ok (start si now ru)"
proof -
  define t where "t = snd (requeue_running (ru_table ru) now)"
  have t: "table_ok t" "\<forall>r \<in> set t. sr_state r \<noteq> SsRunning"
    using assms(1) by (auto simp: t_def requeue_running_def row_id_def intro!: table_ok_map)
  have "safe_op spared t (snd (sweep_schedule si t now))"
    using t(1) assms(3) sweep_schedule_safe by (simp add: strict_sorted_iff)
  then have "table_ok (snd (sweep_schedule si t now))"
    "\<forall>r \<in> set (snd (sweep_schedule si t now)). sr_state r \<noteq> SsRunning"
    using t(2) unfolding safe_op_def by blast+
  then show ?thesis
    using assms(2) by (simp add: start_def Let_def split_beta t_def [symmetric] runner_ok_def)
qed

section \<open>Properties\<close>

definition idle_runner :: "sync_table \<Rightarrow> sync_runner" where
  "idle_runner t =
     \<lparr>ru_table = t, ru_inbox = [], ru_outstanding = False, ru_schedule_due = i64_min,
      ru_stopping = False, ru_notice = None, ru_current = None\<rparr>"

text \<open>
  C6: From start-up over any stored table, crash leftovers included, and whatever callers, polls,
  resets and disconnects interleave with the loop, the table holds one row per task and key, and at
  most one row is running: the one the thread is on.
\<close>

theorem one_task_runs:
  assumes "table_ok t" and "sorted_wrt (<) (si_accounts si)"
    and "reachable_runner (start si now (idle_runner t)) ru"
  shows "distinct (map row_id (ru_table ru))
    \<and> length (filter (\<lambda>r. sr_state r = SsRunning) (ru_table ru)) \<le> 1
    \<and> (\<forall>r \<in> set (ru_table ru). sr_state r = SsRunning \<longrightarrow> ru_current ru = task_of r)"
proof -
  have ok: "runner_ok ru"
    using reachable_runner_ok [OF assms(3)] start_ok [of "idle_runner t"] assms(1,2)
    by (simp add: idle_runner_def)
  define rs where "rs = filter (\<lambda>r. sr_state r = SsRunning) (ru_table ru)"
  have one: "r = r'" if "r \<in> set rs" "r' \<in> set rs" for r r'
  proof -
    have "task_of r = task_of r'" "task_of r \<noteq> None" using ok that by (auto simp: rs_def runner_ok_def)
    then obtain task where "task_of r = Some task" "task_of r' = Some task" by auto
    then have "row_id r = row_id r'" unfolding task_of_id by simp
    then show ?thesis using ok that by (auto simp: rs_def runner_ok_def table_ok_def distinct_map inj_on_def)
  qed
  have "distinct rs" using ok by (simp add: rs_def runner_ok_def table_ok_def distinct_map)
  then have "length rs = card (set rs)" by (simp add: distinct_card)
  also have "\<dots> \<le> 1" using one by (metis card_le_Suc0_iff_eq List.finite_set One_nat_def)
  finally show ?thesis using ok by (auto simp: rs_def runner_ok_def table_ok_def)
qed

definition demo_inputs :: schedule_inputs where
  "demo_inputs = \<lparr>si_accounts = [4], si_has_dependencies = False, si_newest_sweep = None\<rparr>"

theorem one_task_runs_witness:
  "length (filter (\<lambda>r. sr_state r = SsRunning) (ru_table (sync_enqueue (TaskProjectRemote 9)
     (start demo_inputs 5 (idle_runner [(queued_row ProjectRemote (Some 9) 0)\<lparr>sr_state := SsRunning\<rparr>]))))) \<le> 1"
proof -
  have "reachable_runner
     (start demo_inputs 5 (idle_runner [(queued_row ProjectRemote (Some 9) 0)\<lparr>sr_state := SsRunning\<rparr>]))
     (sync_enqueue (TaskProjectRemote 9)
        (start demo_inputs 5 (idle_runner [(queued_row ProjectRemote (Some 9) 0)\<lparr>sr_state := SsRunning\<rparr>])))"
    by (rule rr_step [OF rr_init caller_enqueues])
  from one_task_runs [OF _ _ this] show ?thesis by (simp add: table_ok_def demo_inputs_def)
qed



text \<open>
  What the loop takes. A park whose instant has not come is left as it was; a task is taken
  only when queued and past its instant; an on-demand task goes before every other, and within each
  class the oldest instant goes first; nothing is taken only when nothing is runnable.
\<close>

theorem take_next_order:
  fixes now :: int
  assumes "table_ok (ru_table ru)"
  defines "t \<equiv> promote_parks now (drain_inbox now (ru_inbox ru) (ru_table ru))"
  shows "(\<forall>r \<in> set (ru_table ru). sr_state r = SsParked \<and> now < sr_not_before r \<longrightarrow>
             r \<in> set (ru_table (snd (take_next now ru))))
    \<and> (case take_next now ru of
         (None, ru') \<Rightarrow> \<forall>r \<in> set t. is_runnable r now \<longrightarrow> task_of r = None
       | (Some task, ru') \<Rightarrow>
           \<exists>row \<in> set t. task_of row = Some task \<and> is_runnable row now
             \<and> row\<lparr>sr_state := SsRunning, sr_at := now\<rparr> \<in> set (ru_table ru')
             \<and> (\<forall>r \<in> set t. \<forall>other. is_runnable r now \<and> task_of r = Some other \<longrightarrow>
                  (is_on_demand other \<longrightarrow> is_on_demand task)
                  \<and> (is_on_demand other = is_on_demand task \<longrightarrow> sr_not_before row \<le> sr_not_before r)))"
proof -
  note safe = take_next_safe [OF assms(1), where now = now, folded t_def]
  define key where "key = (\<lambda>(task, r :: sync_row). (if is_on_demand task then 0 :: nat else 1, sr_not_before r))"
  define runnable where "runnable = List.map_filter (\<lambda>r. map_option (\<lambda>task. (task, r)) (task_of r))
                       (filter (\<lambda>r. is_runnable r now) (load_all t))"
  have run: "(task, r) \<in> set runnable \<longleftrightarrow> r \<in> set t \<and> is_runnable r now \<and> task_of r = Some task" for task r
    by (force simp: runnable_def List.map_filter_def image_iff)
  have pick_eq: "pick now t = (case sort_key key runnable of [] \<Rightarrow> None | x # _ \<Rightarrow> Some x)"
    by (simp add: pick_def Let_def runnable_def key_def)
  show ?thesis
  proof (cases "pick now t")
    case None
    then have "sort_key key runnable = []" unfolding pick_eq by (simp split: list.splits)
    then have empty: "runnable = []" by (metis set_empty set_sort)
    have no: "task_of r = None" if "r \<in> set t" "is_runnable r now" for r
    proof (rule ccontr)
      assume "task_of r \<noteq> None"
      then obtain task where "task_of r = Some task" by blast
      then have "(task, r) \<in> set runnable" using run that by simp
      then show False using empty by simp
    qed
    have tn: "take_next now ru = (None, ru\<lparr>ru_table := t, ru_inbox := [], ru_outstanding := any_outstanding t\<rparr>)"
      using None by (simp add: take_next_def t_def Let_def)
    show ?thesis
      unfolding tn using no safe(2) by (auto simp: spared_def unpromoted_def is_due_park_def)
  next
    case (Some p)
    obtain task row where p: "p = (task, row)" by fastforce
    note pin = pick_in [OF Some [unfolded p]]
    define row' where "row' = row\<lparr>sr_state := SsRunning, sr_at := now\<rparr>"
    have tn: "take_next now ru = (Some task, ru\<lparr>ru_table := put row' t, ru_inbox := [], ru_outstanding := True\<rparr>)"
      using Some p by (simp add: take_next_def t_def Let_def row'_def)
    obtain rest where rest: "sort_key key runnable = (task, row) # rest"
      using Some p unfolding pick_eq by (auto split: list.splits)
    have "sorted (map key (sort_key key runnable))" by simp
    then have least: "key (task, row) \<le> key x" if "x \<in> set runnable" for x
    proof -
      have "x \<in> set ((task, row) # rest)" using that rest set_sort by metis
      then show ?thesis using \<open>sorted (map key (sort_key key runnable))\<close> unfolding rest by auto
    qed
    have order: "(is_on_demand other \<longrightarrow> is_on_demand task)
        \<and> (is_on_demand other = is_on_demand task \<longrightarrow> sr_not_before row \<le> sr_not_before r)"
      if "r \<in> set t" "is_runnable r now" "task_of r = Some other" for r other
      using least [of "(other, r)"] run that by (auto simp: key_def less_eq_prod_def split: if_splits)
    have kept: "r \<in> set (put row' t)" if "r \<in> set (ru_table ru)" "sr_state r = SsParked" "now < sr_not_before r" for r
    proof -
      have rt: "r \<in> set t" using safe(2) that by (simp add: spared_def unpromoted_def is_due_park_def)
      have "r \<noteq> row" using pin(2) that by (auto simp: is_runnable_def)
      then have "row_id r \<noteq> row_id row"
        using rt pin(1) safe(1) by (auto simp: table_ok_def distinct_map inj_on_def)
      then show ?thesis using rt safe(1) by (simp add: set_put row'_def row_id_def)
    qed
    have "row' \<in> set (put row' t)" using safe(1) by (simp add: set_put)
    then show ?thesis
      unfolding tn using pin order kept by (auto simp: row'_def)
  qed
qed

theorem take_next_order_witness:
  "fst (take_next 10 (idle_runner [queued_row AccountRepos (Some 1) 0, queued_row ProjectRemote (Some 2) 0]))
     = Some (TaskProjectRemote 2)"
proof -
  define ru where "ru = idle_runner [queued_row AccountRepos (Some 1) 0, queued_row ProjectRemote (Some 2) 0]"
  have ok: "table_ok (ru_table ru)" by (simp add: ru_def idle_runner_def table_ok_def)
  have t: "promote_parks 10 (drain_inbox 10 (ru_inbox ru) (ru_table ru))
      = [queued_row AccountRepos (Some 1) 0, queued_row ProjectRemote (Some 2) 0]"
    by (simp add: ru_def idle_runner_def drain_inbox_def promote_parks_def load_all_def is_due_park_def)
  obtain picked ru' where tn: "take_next 10 ru = (picked, ru')" by fastforce
  show ?thesis
    using take_next_order [OF ok, of 10] unfolding t tn ru_def [symmetric]
    by (auto simp: is_runnable_def task_of_def queued_row_def is_on_demand_def
        split: option.splits sync_task.splits)
qed

definition awake :: "sync_runner \<Rightarrow> bool" where
  "awake ru \<longleftrightarrow> ru_outstanding ru \<or> ru_inbox ru = [] \<and> \<not> any_outstanding (ru_table ru)"

lemma any_outstanding_iff:
  "any_outstanding t \<longleftrightarrow> (\<exists>r \<in> set t. sr_state r \<in> {SsQueued, SsRunning, SsParked} \<and> task_of r \<noteq> None)"
  by (simp add: any_outstanding_def list_ex_iff)



text \<open>The two cadences differ in one state. A deferred listing waits for a revival cause; a
  deferred advisory sweep is queued afresh by the next poll, its failures forgotten.\<close>

lemma deferred_sweep_is_requeued:
  "snd (sweep_schedule \<lparr>si_accounts = [4], si_has_dependencies = True, si_newest_sweep = None\<rparr>
     [(queued_row AccountRepos (Some 4) 0)\<lparr>sr_state := SsDeferred, sr_fail_count := 3\<rparr>,
      (queued_row Advisories None 0)\<lparr>sr_state := SsDeferred, sr_fail_count := 3\<rparr>] 100) =
     [(queued_row AccountRepos (Some 4) 0)\<lparr>sr_state := SsDeferred, sr_fail_count := 3\<rparr>,
      queued_row Advisories None 100]"
  by (simp add: sweep_schedule_def due_listings_def load_def row_id_def queued_row_def
      advisory_due_def busy_def)

end
