(* ===== verification/Session_Segment.thy ===== *)
theory Session_Segment
  imports Prelude
begin

text \<open>
  The state machine of one session (\<open>src/core/src/session/segment.rs\<close>, the constants and the
  column spellings of \<open>session/mod.rs\<close>): in a segment, between segments, or ended. Idleness is
  decided on the monotonic clock, a \<open>u64\<close> of milliseconds held in a \<open>nat\<close>, on which the
  saturating subtraction is that of \<open>nat\<close>; every stamp is wall time, an \<open>i64\<close> of seconds.
\<close>

definition SEGMENT_IDLE_SECS :: int where "SEGMENT_IDLE_SECS = 1200"
definition SEGMENT_IDLE_MS :: nat where "SEGMENT_IDLE_MS = nat \<bar>SEGMENT_IDLE_SECS\<bar> * 1000"
definition SESSION_IDLE_SECS :: int where "SESSION_IDLE_SECS = 3600"
definition SESSION_IDLE_MS :: nat where "SESSION_IDLE_MS = nat \<bar>SESSION_IDLE_SECS\<bar> * 1000"
definition FOCUS_STALE_SECS :: int where "FOCUS_STALE_SECS = 120"
definition FOCUS_STALE_MS :: nat where "FOCUS_STALE_MS = nat \<bar>FOCUS_STALE_SECS\<bar> * 1000"

datatype close_reason = CrStop | CrIdle | CrProcessExit | CrAppExit | CrCrash | CrOrphaned

fun close_reason_str :: "close_reason \<Rightarrow> string" where
  "close_reason_str CrStop = ''stop''"
| "close_reason_str CrIdle = ''idle''"
| "close_reason_str CrProcessExit = ''process_exit''"
| "close_reason_str CrAppExit = ''app_exit''"
| "close_reason_str CrCrash = ''crash''"
| "close_reason_str CrOrphaned = ''orphaned''"

datatype closed_by = CbIdle | CbSessionEnd | CbAppExit | CbCrash

fun closed_by_str :: "closed_by \<Rightarrow> string" where
  "closed_by_str CbIdle = ''idle''"
| "closed_by_str CbSessionEnd = ''session_end''"
| "closed_by_str CbAppExit = ''app_exit''"
| "closed_by_str CbCrash = ''crash''"

section \<open>The machine\<close>

record tick =
  mono_ms :: nat
  unix :: int

datatype signal = Worktree | OwnView | NoSignal

record closed_segment =
  cs_started_at :: int
  cs_ended_at :: int
  cs_credited_seconds :: int
  cs_closed_by :: closed_by

record segment_outcome =
  opened_segment_at :: "int option"
  activity_at :: "int option"
  closed_segment :: "closed_segment option"
  ended_session :: "(int \<times> close_reason) option"

definition no_outcome :: segment_outcome where
  "no_outcome = \<lparr>opened_segment_at = None, activity_at = None, closed_segment = None,
                 ended_session = None\<rparr>"

datatype phase = InSegment int int nat | Between int nat | EndedPhase

record segment_machine =
  sm_phase :: phase
  sm_wait_mode :: bool

definition credit :: "int \<Rightarrow> int \<Rightarrow> int" where
  "credit started_at ended_at = max (sat_i64 (ended_at - started_at)) 0"

definition sm_open :: "tick \<Rightarrow> bool \<Rightarrow> segment_machine \<times> segment_outcome" where
  "sm_open at wait_mode =
     (\<lparr>sm_phase = InSegment (unix at) (unix at) (mono_ms at), sm_wait_mode = wait_mode\<rparr>,
      no_outcome\<lparr>opened_segment_at := Some (unix at)\<rparr>)"

fun in_segment :: "segment_machine \<Rightarrow> bool" where
  "in_segment m = (case sm_phase m of InSegment _ _ _ \<Rightarrow> True | _ \<Rightarrow> False)"

fun is_ended :: "segment_machine \<Rightarrow> bool" where
  "is_ended m = (case sm_phase m of EndedPhase \<Rightarrow> True | _ \<Rightarrow> False)"

definition observe ::
  "tick \<Rightarrow> signal \<Rightarrow> segment_machine \<Rightarrow> segment_machine \<times> segment_outcome" where
  "observe at sig m =
     (case sm_phase m of
        EndedPhase \<Rightarrow> (m, no_outcome)
      | InSegment started_at last_at last_mono_ms \<Rightarrow>
          (if sig \<noteq> NoSignal
           then let last_at = max (unix at) last_at
                in (m\<lparr>sm_phase := InSegment started_at last_at (max (mono_ms at) last_mono_ms)\<rparr>,
                    no_outcome\<lparr>activity_at := Some last_at\<rparr>)
           else if mono_ms at - last_mono_ms < SEGMENT_IDLE_MS then (m, no_outcome)
           else let ended_at = max (min (sat_i64 (last_at + SEGMENT_IDLE_SECS)) (unix at)) started_at
                in (m\<lparr>sm_phase := Between ended_at (sat_u64 (last_mono_ms + SEGMENT_IDLE_MS))\<rparr>,
                    no_outcome\<lparr>closed_segment := Some
                      \<lparr>cs_started_at = started_at, cs_ended_at = ended_at,
                       cs_credited_seconds = credit started_at ended_at,
                       cs_closed_by = CbIdle\<rparr>\<rparr>))
      | Between since_at since_mono_ms \<Rightarrow>
          (if sig \<noteq> NoSignal
           then (m\<lparr>sm_phase := InSegment (unix at) (unix at) (mono_ms at)\<rparr>,
                 no_outcome\<lparr>opened_segment_at := Some (unix at)\<rparr>)
           else if sm_wait_mode m then (m, no_outcome)
           else if mono_ms at - since_mono_ms < SESSION_IDLE_MS then (m, no_outcome)
           else (m\<lparr>sm_phase := EndedPhase\<rparr>,
                 no_outcome\<lparr>ended_session := Some (since_at, CrIdle)\<rparr>)))"

definition sm_end ::
  "tick \<Rightarrow> close_reason \<Rightarrow> segment_machine \<Rightarrow> segment_machine \<times> segment_outcome" where
  "sm_end at reason m =
     (if is_ended m then (m, no_outcome)
      else
        let by_what = (if reason = CrAppExit then CbAppExit else CbSessionEnd);
            out = (case sm_phase m of
                     InSegment started_at _ _ \<Rightarrow>
                       let ended_at = max (unix at) started_at
                       in no_outcome\<lparr>closed_segment := Some
                            \<lparr>cs_started_at = started_at, cs_ended_at = ended_at,
                             cs_credited_seconds = credit started_at ended_at,
                             cs_closed_by = by_what\<rparr>\<rparr>
                   | _ \<Rightarrow> no_outcome)
        in (m\<lparr>sm_phase := EndedPhase\<rparr>, out\<lparr>ended_session := Some (unix at, reason)\<rparr>))"

section \<open>A session's life\<close>

text \<open>What a session meets after its launch, in order: ticks with what happened since the last,
  and the ends the manager asks for. \<open>sm_run\<close> gives the outcomes in the same order.\<close>

datatype sm_input = Observe tick signal | End tick close_reason

fun input_tick :: "sm_input \<Rightarrow> tick" where
  "input_tick (Observe at _) = at"
| "input_tick (End at _) = at"

fun sm_step :: "sm_input \<Rightarrow> segment_machine \<Rightarrow> segment_machine \<times> segment_outcome" where
  "sm_step (Observe at sig) m = observe at sig m"
| "sm_step (End at reason) m = sm_end at reason m"

fun sm_run :: "segment_machine \<Rightarrow> sm_input list \<Rightarrow> segment_machine \<times> segment_outcome list" where
  "sm_run m [] = (m, [])"
| "sm_run m (i # ins) =
     (case sm_step i m of (m', out) \<Rightarrow> case sm_run m' ins of (m'', outs) \<Rightarrow> (m'', out # outs))"

definition closed_of :: "segment_outcome list \<Rightarrow> closed_segment list" where
  "closed_of outs = List.map_filter closed_segment outs"

fun untouched :: "sm_input \<Rightarrow> bool" where
  "untouched (Observe _ sig) = (sig = NoSignal)"
| "untouched (End _ _) = False"

section \<open>Lemmas\<close>

lemmas idle_consts = SEGMENT_IDLE_MS_def SEGMENT_IDLE_SECS_def SESSION_IDLE_MS_def
  SESSION_IDLE_SECS_def FOCUS_STALE_MS_def FOCUS_STALE_SECS_def

lemma closed_of_simps [simp]:
  "closed_of [] = []"
  "closed_of (out # outs) = (case closed_segment out of None \<Rightarrow> [] | Some c \<Rightarrow> [c]) @ closed_of outs"
  by (auto simp: closed_of_def List.map_filter_simps split: option.split)

lemma no_outcome_simps [simp]:
  "opened_segment_at no_outcome = None" "activity_at no_outcome = None"
  "closed_segment no_outcome = None" "ended_session no_outcome = None"
  by (simp_all add: no_outcome_def)

lemma ended_stays: "is_ended m \<Longrightarrow> sm_step i m = (m, no_outcome)"
  by (cases i) (auto simp: observe_def sm_end_def split: phase.splits)

lemma ended_run: "is_ended m \<Longrightarrow> sm_run m ins = (m, replicate (length ins) no_outcome)"
  by (induction ins) (simp_all add: ended_stays del: is_ended.simps)

lemma wait_mode_kept: "sm_wait_mode (fst (sm_step i m)) = sm_wait_mode m"
  by (cases i) (auto simp: observe_def sm_end_def Let_def split: phase.splits)

lemma ended_iff_reported:
  "\<not> is_ended m \<Longrightarrow> is_ended (fst (sm_step i m)) \<longleftrightarrow> ended_session (snd (sm_step i m)) \<noteq> None"
  by (cases i) (auto simp: observe_def sm_end_def Let_def split: phase.splits)

section \<open>Credit against the wall clock\<close>

text \<open>What is accounted for when the wall clock has read \<open>w\<close>: the credit still to come starts
  no earlier than \<open>accounted m w\<close>.\<close>

fun phase_ok :: "phase \<Rightarrow> int \<Rightarrow> bool" where
  "phase_ok (InSegment s l _) w \<longleftrightarrow> 0 \<le> s \<and> s \<le> l \<and> l \<le> w"
| "phase_ok (Between since _) w \<longleftrightarrow> 0 \<le> since \<and> since \<le> w"
| "phase_ok EndedPhase w \<longleftrightarrow> 0 \<le> w"

fun accounted :: "phase \<Rightarrow> int \<Rightarrow> int" where
  "accounted (InSegment s _ _) w = s"
| "accounted (Between since _) w = since"
| "accounted EndedPhase w = w"

lemma accounted_le: "phase_ok p w \<Longrightarrow> accounted p w \<le> w"
  by (cases p) auto

lemma credit_exact: "0 \<le> s \<Longrightarrow> s \<le> e \<Longrightarrow> e \<le> i64_max \<Longrightarrow> credit s e = e - s"
  by (simp add: credit_def sat_i64_def)

lemma step_credit:
  assumes "phase_ok (sm_phase m) w" and "w \<le> u" and "u \<le> i64_max" and u: "u = unix (input_tick i)"
    and step: "sm_step i m = (m', out)"
  shows "phase_ok (sm_phase m') u"
    and "closed_segment out = None \<Longrightarrow> accounted (sm_phase m) w \<le> accounted (sm_phase m') u"
    and "closed_segment out = Some c \<Longrightarrow>
      cs_started_at c = accounted (sm_phase m) w \<and> cs_started_at c \<le> cs_ended_at c
      \<and> cs_ended_at c \<le> accounted (sm_phase m') u
      \<and> cs_credited_seconds c = cs_ended_at c - cs_started_at c"
proof -
  have all: "phase_ok (sm_phase m') u
    \<and> (closed_segment out = None \<longrightarrow> accounted (sm_phase m) w \<le> accounted (sm_phase m') u)
    \<and> (\<forall>c. closed_segment out = Some c \<longrightarrow>
         cs_started_at c = accounted (sm_phase m) w \<and> cs_started_at c \<le> cs_ended_at c
         \<and> cs_ended_at c \<le> accounted (sm_phase m') u
         \<and> cs_credited_seconds c = cs_ended_at c - cs_started_at c)"
  proof (cases "sm_phase m")
    case (InSegment s l ms)
    define e where "e = max (min (sat_i64 (l + SEGMENT_IDLE_SECS)) u) s"
    have "0 \<le> s" "s \<le> e" "e \<le> u" "credit s e = e - s" "credit s u = u - s"
      using assms(1-3) InSegment credit_exact [of s e] credit_exact [of s u] by (auto simp: e_def)
    then show ?thesis
      using assms(1,2) step u InSegment
      by (cases i) (auto simp: observe_def sm_end_def e_def Let_def split: if_splits)
  next
    case (Between since ms)
    then show ?thesis
      using assms(1,2) step u
      by (cases i) (auto simp: observe_def sm_end_def Let_def split: if_splits)
  next
    case EndedPhase
    then show ?thesis
      using assms(1,2) step u ended_stays [of m i] by auto
  qed
  show "phase_ok (sm_phase m') u" using all by blast
  show "closed_segment out = None \<Longrightarrow> accounted (sm_phase m) w \<le> accounted (sm_phase m') u"
    using all by blast
  show "closed_segment out = Some c \<Longrightarrow>
      cs_started_at c = accounted (sm_phase m) w \<and> cs_started_at c \<le> cs_ended_at c
      \<and> cs_ended_at c \<le> accounted (sm_phase m') u
      \<and> cs_credited_seconds c = cs_ended_at c - cs_started_at c"
    using all by blast
qed

lemma run_credit:
  assumes "phase_ok (sm_phase m) w" and "sorted (w # map (unix \<circ> input_tick) ins)"
    and "\<forall>i \<in> set ins. unix (input_tick i) \<le> i64_max"
    and "sm_run m ins = (m', outs)"
  shows "(\<forall>c \<in> set (closed_of outs). accounted (sm_phase m) w \<le> cs_started_at c
            \<and> cs_started_at c \<le> cs_ended_at c
            \<and> cs_credited_seconds c = cs_ended_at c - cs_started_at c)
         \<and> sorted_wrt (\<lambda>a b. cs_ended_at a \<le> cs_started_at b) (closed_of outs)
         \<and> sum_list (map cs_credited_seconds (closed_of outs))
             \<le> last (w # map (unix \<circ> input_tick) ins) - accounted (sm_phase m) w"
  using assms
proof (induction ins arbitrary: m w outs)
  case Nil
  then show ?case using accounted_le by auto
next
  case (Cons i ins)
  define u where "u = unix (input_tick i)"
  obtain m1 out where step: "sm_step i m = (m1, out)" by fastforce
  obtain outs1 where run: "sm_run m1 ins = (m', outs1)" and outs: "outs = out # outs1"
    using Cons.prems(4) step by (auto split: prod.splits)
  have "w \<le> u" "u \<le> i64_max" using Cons.prems(2,3) by (simp_all add: u_def)
  note sc = step_credit [OF Cons.prems(1) this u_def step]
  have IH: "(\<forall>c \<in> set (closed_of outs1). accounted (sm_phase m1) u \<le> cs_started_at c
            \<and> cs_started_at c \<le> cs_ended_at c
            \<and> cs_credited_seconds c = cs_ended_at c - cs_started_at c)
         \<and> sorted_wrt (\<lambda>a b. cs_ended_at a \<le> cs_started_at b) (closed_of outs1)
         \<and> sum_list (map cs_credited_seconds (closed_of outs1))
             \<le> last (u # map (unix \<circ> input_tick) ins) - accounted (sm_phase m1) u"
    using Cons.IH [OF sc(1) _ _ run] Cons.prems(2,3)
    by (simp add: u_def comp_def del: last.simps)
  have last: "last (w # map (unix \<circ> input_tick) (i # ins)) = last (u # map (unix \<circ> input_tick) ins)"
    by (simp add: u_def)
  show ?case
  proof (cases "closed_segment out")
    case None
    with sc(2) IH show ?thesis unfolding last outs by force
  next
    case (Some c)
    with sc(3) [OF Some] IH show ?thesis unfolding last outs by fastforce
  qed
qed

section \<open>A session nobody touches\<close>

lemma untouched_closes:
  assumes "\<forall>i \<in> set ins. untouched i" and "sm_run m ins = (m', outs)"
  shows "(case sm_phase m of
            InSegment s l _ \<Rightarrow> in_i64 s \<and> s = l \<longrightarrow> length (closed_of outs) \<le> 1
              \<and> (\<forall>c \<in> set (closed_of outs). 0 \<le> cs_credited_seconds c \<and> cs_credited_seconds c \<le> 1200)
          | _ \<Rightarrow> closed_of outs = [])"
  using assms
proof (induction ins arbitrary: m outs)
  case Nil
  then show ?case by (auto split: phase.split)
next
  case (Cons i ins)
  obtain at where i: "i = Observe at NoSignal"
    using Cons.prems(1) by (cases i) auto
  obtain m1 out where step: "observe at NoSignal m = (m1, out)" by fastforce
  obtain outs1 where run: "sm_run m1 ins = (m', outs1)" and outs: "outs = out # outs1"
    using Cons.prems(2) step i by (auto split: prod.splits)
  have tail: "0 \<le> credit s (max (min (sat_i64 (s + 1200)) u) s)
      \<and> credit s (max (min (sat_i64 (s + 1200)) u) s) \<le> 1200" if "in_i64 s" for s u
    using that by (auto simp: credit_def sat_i64_def in_i64_def)
  have IH: "(case sm_phase m1 of
            InSegment s l _ \<Rightarrow> in_i64 s \<and> s = l \<longrightarrow> length (closed_of outs1) \<le> 1
              \<and> (\<forall>c \<in> set (closed_of outs1). 0 \<le> cs_credited_seconds c \<and> cs_credited_seconds c \<le> 1200)
          | _ \<Rightarrow> closed_of outs1 = [])"
    using Cons.IH run Cons.prems(1) by simp
  show ?case
  proof (cases "sm_phase m")
    case (InSegment s l ms)
    then show ?thesis
      using step IH outs tail [of s "unix at"]
      by (auto simp: observe_def SEGMENT_IDLE_SECS_def Let_def split: if_splits)
  qed (use step IH outs in \<open>auto simp: observe_def split: if_splits\<close>)
qed

text \<open>How far an untouched session has come by the monotonic time of a tick.\<close>

definition stage :: "nat \<Rightarrow> segment_machine \<Rightarrow> nat \<Rightarrow> bool" where
  "stage m0 m n \<longleftrightarrow>
     (case sm_phase m of
        InSegment _ _ ms \<Rightarrow> n = 0 \<and> ms = m0
      | Between _ ms \<Rightarrow> n \<le> 1 \<and> ms \<le> m0 + SEGMENT_IDLE_MS
      | EndedPhase \<Rightarrow> True)"

lemma stage_step:
  assumes "stage m0 m n" and "untouched i" and "\<not> sm_wait_mode m"
  shows "stage m0 (fst (sm_step i m))
     (if n = 0 \<and> mono_ms (input_tick i) \<ge> m0 + SEGMENT_IDLE_MS then 1
      else if n = 1 \<and> mono_ms (input_tick i) \<ge> m0 + SEGMENT_IDLE_MS + SESSION_IDLE_MS then 2 else n)"
proof -
  obtain at where i: "i = Observe at NoSignal" using assms(2) by (cases i) auto
  show ?thesis
    using assms(1,3) i
    by (auto simp: stage_def observe_def Let_def sat_u64_def split: phase.splits)
qed

lemma stage_run:
  assumes "stage m0 m n" and "\<forall>i \<in> set ins. untouched i" and "\<not> sm_wait_mode m"
  shows "stage m0 (fst (sm_run m ins)) n"
  using assms
proof (induction ins arbitrary: m)
  case (Cons i ins)
  have "stage m0 (fst (sm_step i m)) n"
    using stage_step [OF Cons.prems(1) _ Cons.prems(3), of i] Cons.prems(2)
    by (auto simp: stage_def split: phase.splits if_splits)
  then show ?case
    using Cons.IH [of "fst (sm_step i m)"] Cons.prems(2,3) wait_mode_kept [of i m]
    by (simp add: case_prod_beta)
qed simp

lemma sm_run_append:
  "fst (sm_run m (ins @ js)) = fst (sm_run (fst (sm_run m ins)) js)"
  by (induction ins arbitrary: m) (simp_all add: case_prod_beta)

lemma wait_mode_run: "sm_wait_mode (fst (sm_run m ins)) = sm_wait_mode m"
  by (induction ins arbitrary: m) (simp_all add: case_prod_beta wait_mode_kept)

section \<open>The tail of an idle close\<close>

text \<open>The instants something touched the session at, the launch first.\<close>

definition touches :: "int \<Rightarrow> segment_outcome list \<Rightarrow> int set" where
  "touches t0 outs = insert t0 (\<Union>out \<in> set outs.
     set_option (opened_segment_at out) \<union> set_option (activity_at out))"

lemma idle_tail:
  assumes "sm_run m ins = (m', outs)"
    and "case sm_phase m of InSegment s l _ \<Rightarrow> s \<in> T \<and> l \<in> T | _ \<Rightarrow> True"
    and "\<forall>out \<in> set outs. set_option (opened_segment_at out) \<union> set_option (activity_at out) \<subseteq> T"
    and "\<forall>t \<in> T. in_i64 t"
  shows "\<forall>c \<in> set (closed_of outs). cs_started_at c \<in> T
     \<and> (cs_closed_by c = CbIdle \<longrightarrow> (\<exists>t \<in> T. cs_ended_at c \<le> t + 1200))"
  using assms
proof (induction ins arbitrary: m outs)
  case (Cons i ins)
  obtain m1 out where step: "sm_step i m = (m1, out)" by fastforce
  obtain outs1 where run: "sm_run m1 ins = (m', outs1)" and outs: "outs = out # outs1"
    using Cons.prems(1) step by (auto split: prod.splits)
  have next_ok: "case sm_phase m1 of InSegment s l _ \<Rightarrow> s \<in> T \<and> l \<in> T | _ \<Rightarrow> True"
    using Cons.prems(2,3) step outs
    by (cases i) (auto simp: observe_def sm_end_def Let_def split: phase.splits if_splits)
  have sat: "sat_i64 (t + 1200) \<le> t + 1200" if "in_i64 t" for t
    using that by (auto simp: sat_i64_def in_i64_def)
  have "cs_started_at c \<in> T \<and> (cs_closed_by c = CbIdle \<longrightarrow> (\<exists>t \<in> T. cs_ended_at c \<le> t + 1200))"
    if "closed_segment out = Some c" for c
  proof (cases "sm_phase m")
    case (InSegment s l ms)
    have T: "s \<in> T" "l \<in> T" using Cons.prems(2) InSegment by simp_all
    show ?thesis
    proof (cases i)
      case (Observe at sig)
      then have c: "cs_started_at c = s"
        "cs_ended_at c = max (min (sat_i64 (l + 1200)) (unix at)) s"
        using step InSegment that
        by (auto simp: observe_def Let_def SEGMENT_IDLE_SECS_def split: if_splits)
      have "max (min (sat_i64 (l + 1200)) (unix at)) s \<le> l + 1200 \<or>
            max (min (sat_i64 (l + 1200)) (unix at)) s \<le> s + 1200"
        using sat [of l] Cons.prems(4) T by auto
      then show ?thesis using c T by auto
    next
      case (End at reason)
      then show ?thesis
        using step InSegment that T by (auto simp: sm_end_def Let_def split: if_splits)
    qed
  qed (use step that in \<open>cases i; auto simp: observe_def sm_end_def split: if_splits\<close>)+
  moreover have "\<forall>c \<in> set (closed_of outs1). cs_started_at c \<in> T
     \<and> (cs_closed_by c = CbIdle \<longrightarrow> (\<exists>t \<in> T. cs_ended_at c \<le> t + 1200))"
    using Cons.IH [OF run next_ok _ Cons.prems(4)] Cons.prems(3) outs by simp
  ultimately show ?case using outs by (auto split: option.splits)
qed simp

section \<open>Properties\<close>

text \<open>
  C13: A session's credit against the wall clock. While the wall clock does not go back, the
  segments a session closes are in order and apart, each credited for exactly its span, and the
  credit of all of them together never exceeds the time since the launch; once the session has
  reported its end nothing it meets is credited, reopened or ended again.
\<close>

theorem credit_within_wall_time:
  assumes "sm_run (fst (sm_open at wait)) ins = (m', outs)"
    and "0 \<le> unix at" and "sorted (map unix (at # map input_tick ins))"
    and "\<forall>i \<in> set ins. unix (input_tick i) \<le> i64_max"
  shows "let cs = closed_of outs
    in (\<forall>c \<in> set cs. unix at \<le> cs_started_at c \<and> cs_started_at c \<le> cs_ended_at c
          \<and> cs_credited_seconds c = cs_ended_at c - cs_started_at c)
       \<and> sorted_wrt (\<lambda>a b. cs_ended_at a \<le> cs_started_at b) cs
       \<and> sum_list (map cs_credited_seconds cs) \<le> unix (last (at # map input_tick ins)) - unix at
       \<and> (\<forall>xs y ys. outs = xs @ y # ys \<and> ended_session y \<noteq> None \<longrightarrow>
            ys = replicate (length ys) no_outcome \<and> is_ended m')"
proof -
  define m where "m = fst (sm_open at wait)"
  have phase: "sm_phase m = InSegment (unix at) (unix at) (mono_ms at)" by (simp add: m_def sm_open_def)
  have last: "last (unix at # map (unix \<circ> input_tick) ins) = unix (last (at # map input_tick ins))"
    by (simp add: last_map comp_def)
  have credit: "(\<forall>c \<in> set (closed_of outs). unix at \<le> cs_started_at c \<and> cs_started_at c \<le> cs_ended_at c
            \<and> cs_credited_seconds c = cs_ended_at c - cs_started_at c)
       \<and> sorted_wrt (\<lambda>a b. cs_ended_at a \<le> cs_started_at b) (closed_of outs)
       \<and> sum_list (map cs_credited_seconds (closed_of outs))
           \<le> unix (last (at # map input_tick ins)) - unix at"
    using run_credit [of m "unix at" ins m' outs] assms phase unfolding last m_def [symmetric]
    by (simp add: comp_def)
  have after: "ys = replicate (length ys) no_outcome \<and> is_ended m'"
    if "sm_run m ins = (m', xs @ y # ys)" "ended_session y \<noteq> None" for m xs y ys
    using that
  proof (induction ins arbitrary: m xs)
    case (Cons i ins)
    obtain m1 out where step: "sm_step i m = (m1, out)" by fastforce
    obtain outs1 where run: "sm_run m1 ins = (m', outs1)" and outs: "xs @ y # ys = out # outs1"
      using Cons.prems(1) step by (auto split: prod.splits)
    show ?case
    proof (cases xs)
      case Nil
      then have y: "y = out" "ys = outs1" using outs by simp_all
      then have "is_ended m1"
        using ended_iff_reported [of m i] ended_stays [of m i] step Cons.prems(2)
        by (cases "is_ended m") auto
      then show ?thesis using ended_run run y by auto
    next
      case (Cons x xs')
      then show ?thesis using Cons.IH [of m1 xs'] run outs Cons.prems(2) by simp
    qed
  qed simp
  show ?thesis using credit after assms(1) unfolding Let_def by blast
qed

theorem credit_within_wall_time_witness:
  "let outs = snd (sm_run (fst (sm_open \<lparr>mono_ms = 0, unix = 100\<rparr> False))
       [Observe \<lparr>mono_ms = 60000, unix = 160\<rparr> Worktree, End \<lparr>mono_ms = 90000, unix = 190\<rparr> CrStop])
   in sum_list (map cs_credited_seconds (closed_of outs)) \<le> 90"
  using credit_within_wall_time [where at = "\<lparr>mono_ms = 0, unix = 100\<rparr>" and wait = False
      and ins = "[Observe \<lparr>mono_ms = 60000, unix = 160\<rparr> Worktree,
                   End \<lparr>mono_ms = 90000, unix = 190\<rparr> CrStop]"]
  by (simp add: case_prod_beta Let_def)

text \<open>
  C14: The idle bound. A segment the idle rule closes starts at a touch and ends at most twenty
  minutes after one; a session nothing touches closes at most one segment and credits at most
  twenty minutes in all, whatever the two clocks do and however late the ticks come; and, unless a
  wait-mode process holds it open, it has ended once one tick has come twenty minutes after the
  launch and a later one an hour after that.
\<close>

theorem idle_bound:
  assumes "sm_run (fst (sm_open at wait)) ins = (m', outs)"
    and "in_i64 (unix at)" and "\<forall>i \<in> set ins. in_i64 (unix (input_tick i))"
  shows "(\<forall>c \<in> set (closed_of outs). cs_closed_by c = CbIdle \<longrightarrow>
            cs_started_at c \<in> touches (unix at) outs
            \<and> (\<exists>t \<in> touches (unix at) outs. cs_ended_at c \<le> t + 1200))
       \<and> ((\<forall>i \<in> set ins. untouched i) \<longrightarrow>
            length (closed_of outs) \<le> 1
            \<and> (\<forall>c \<in> set (closed_of outs). 0 \<le> cs_credited_seconds c \<and> cs_credited_seconds c \<le> 1200)
            \<and> (\<forall>xs i ys j zs. ins = xs @ i # ys @ j # zs \<and> \<not> wait
                 \<and> mono_ms (input_tick i) \<ge> mono_ms at + 1200000
                 \<and> mono_ms (input_tick j) \<ge> mono_ms at + 4800000 \<longrightarrow> is_ended m'))"
proof (intro conjI impI)
  define m where "m = fst (sm_open at wait)"
  have phase: "sm_phase m = InSegment (unix at) (unix at) (mono_ms at)" and wait: "sm_wait_mode m = wait"
    by (simp_all add: m_def sm_open_def)
  have run: "sm_run m ins = (m', outs)" using assms(1) by (simp add: m_def)
  have stamps: "set_option (opened_segment_at out) \<union> set_option (activity_at out) \<subseteq> {t. in_i64 t}"
    if "sm_run n js = (n', outs')" "out \<in> set outs'" "\<forall>i \<in> set js. in_i64 (unix (input_tick i))"
      "case sm_phase n of InSegment _ l _ \<Rightarrow> in_i64 l | _ \<Rightarrow> True" for n n' js out outs'
    using that
  proof (induction js arbitrary: n outs')
    case (Cons i js)
    obtain n1 out1 where step: "sm_step i n = (n1, out1)" by fastforce
    obtain outs1 where rest: "sm_run n1 js = (n', outs1)" and outs: "outs' = out1 # outs1"
      using Cons.prems(1) step by (auto split: prod.splits)
    have "case sm_phase n1 of InSegment _ l _ \<Rightarrow> in_i64 l | _ \<Rightarrow> True"
      and "set_option (opened_segment_at out1) \<union> set_option (activity_at out1) \<subseteq> {t. in_i64 t}"
      using step Cons.prems(3,4)
      by (cases i; auto simp: observe_def sm_end_def Let_def max_def split: phase.splits if_splits)+
    then show ?case using Cons.IH [OF rest] Cons.prems(2,3) outs by auto
  qed simp
  have T: "\<forall>t \<in> touches (unix at) outs. in_i64 t"
    using stamps [OF run] assms(2,3) phase by (auto simp: touches_def)
  show "\<forall>c \<in> set (closed_of outs). cs_closed_by c = CbIdle \<longrightarrow>
            cs_started_at c \<in> touches (unix at) outs
            \<and> (\<exists>t \<in> touches (unix at) outs. cs_ended_at c \<le> t + 1200)"
    using idle_tail [OF run _ _ T] phase by (auto simp: touches_def)
  assume untouched: "\<forall>i \<in> set ins. untouched i"
  show "length (closed_of outs) \<le> 1"
    and "\<forall>c \<in> set (closed_of outs). 0 \<le> cs_credited_seconds c \<and> cs_credited_seconds c \<le> 1200"
    using untouched_closes [OF untouched run] phase assms(2) by simp_all
  show "\<forall>xs i ys j zs. ins = xs @ i # ys @ j # zs \<and> \<not> wait
      \<and> mono_ms (input_tick i) \<ge> mono_ms at + 1200000
      \<and> mono_ms (input_tick j) \<ge> mono_ms at + 4800000 \<longrightarrow> is_ended m'"
  proof (intro allI impI, elim conjE)
    fix xs i ys j zs
    assume ins: "ins = xs @ i # ys @ j # zs" and "\<not> wait"
      and late: "mono_ms at + 1200000 \<le> mono_ms (input_tick i)"
        "mono_ms at + 4800000 \<le> mono_ms (input_tick j)"
    define run where "run n js = fst (sm_run n js)" for n js
    have fold: "run n (js @ ks) = run (run n js) ks" "run n (k # ks) = run (fst (sm_step k n)) ks" for n js k ks
      by (simp_all add: run_def sm_run_append case_prod_beta)
    have w: "\<not> sm_wait_mode (run n js)" if "\<not> sm_wait_mode n" for n js
      using that by (simp add: run_def wait_mode_run)
    have u: "\<forall>x \<in> set xs. untouched x" "untouched i" "\<forall>x \<in> set ys. untouched x" "untouched j"
      using untouched unfolding ins by simp_all
    define m1 where "m1 = run m xs"
    define m2 where "m2 = fst (sm_step i m1)"
    define m3 where "m3 = run m2 ys"
    define m4 where "m4 = fst (sm_step j m3)"
    have "m' = run m4 zs"
      using run ins fold unfolding m1_def m2_def m3_def m4_def by (metis fst_conv run_def)
    have nw: "\<not> sm_wait_mode m" "\<not> sm_wait_mode m1" "\<not> sm_wait_mode m2" "\<not> sm_wait_mode m3"
      using \<open>\<not> wait\<close> wait w by (simp_all add: m1_def m2_def m3_def wait_mode_kept)
    have "stage (mono_ms at) m 0" by (simp add: stage_def phase)
    then have "stage (mono_ms at) m1 0" using stage_run u(1) nw(1) by (simp add: m1_def run_def)
    then have "stage (mono_ms at) m2 1"
      using stage_step [OF _ u(2) nw(2)] late(1) by (fastforce simp: m2_def idle_consts)
    then have "stage (mono_ms at) m3 1" using stage_run u(3) nw(3) by (simp add: m3_def run_def)
    then have "stage (mono_ms at) m4 2"
      using stage_step [OF _ u(4) nw(4)] late(2) by (fastforce simp: m4_def idle_consts)
    then have "is_ended m4" by (auto simp: stage_def split: phase.splits)
    then show "is_ended m'" using ended_run [of m4 zs] \<open>m' = run m4 zs\<close> by (simp add: run_def)
  qed
qed

theorem idle_bound_witness:
  "is_ended (fst (sm_run (fst (sm_open \<lparr>mono_ms = 5, unix = 100\<rparr> False))
     [Observe \<lparr>mono_ms = 1200005, unix = 90\<rparr> NoSignal, Observe \<lparr>mono_ms = 4800005, unix = 9000\<rparr> NoSignal]))"
proof -
  define ins where "ins = [Observe \<lparr>mono_ms = 1200005, unix = 90\<rparr> NoSignal,
    Observe \<lparr>mono_ms = 4800005, unix = 9000\<rparr> NoSignal]"
  obtain m' outs where run: "sm_run (fst (sm_open \<lparr>mono_ms = 5, unix = 100\<rparr> False)) ins = (m', outs)"
    by fastforce
  have split: "ins = [] @ Observe \<lparr>mono_ms = 1200005, unix = 90\<rparr> NoSignal
      # [] @ Observe \<lparr>mono_ms = 4800005, unix = 9000\<rparr> NoSignal # []"
    by (simp add: ins_def)
  have "is_ended m'"
    using idle_bound [OF run] split by (fastforce simp: ins_def in_i64_def)
  then show ?thesis using run by (simp add: ins_def)
qed

text \<open>A tick that comes late and carries a signal takes the branch of the signal before the idle
  rule is asked: the three hours in between are credited.\<close>

lemma late_signal_credits_the_gap:
  "map cs_credited_seconds (closed_of (snd (sm_run (fst (sm_open \<lparr>mono_ms = 0, unix = 0\<rparr> False))
     [Observe \<lparr>mono_ms = 10800000, unix = 10800\<rparr> Worktree,
      End \<lparr>mono_ms = 10800000, unix = 10800\<rparr> CrStop]))) = [10800]"
  by (simp add: sm_open_def observe_def sm_end_def credit_def sat_i64_def Let_def)

end
