(* ===== verification/Clock.thy ===== *)
theory Clock
  imports Prelude
begin

text \<open>
  The clock seam's pure part (\<open>src/core/src/clock.rs\<close>): the local day of an instant and the
  range of instants of a local day. The zone is a function of the instant, the offset from UTC in
  minutes, and is a parameter as it is in the code. Instants are epoch seconds; the sums the code
  leaves unchecked stay in range for every instant within a day of the ends of \<open>i64\<close>.
\<close>

type_synonym zone = "int \<Rightarrow> int"

record local_instant =
  li_unix :: int
  li_offset_min :: int

definition local_day :: "int \<Rightarrow> int \<Rightarrow> int" where
  "local_day epoch_seconds tz_offset_min = (epoch_seconds + tz_offset_min * 60) div 86400"

definition zone_at :: "zone \<Rightarrow> int \<Rightarrow> local_instant" where
  "zone_at z t = \<lparr>li_unix = t, li_offset_min = z t\<rparr>"

definition li_day :: "local_instant \<Rightarrow> int" where
  "li_day i = local_day (li_unix i) (li_offset_min i)"

text \<open>The search of \<open>first_instant_of\<close>: the loop over \<open>before\<close> and \<open>reached\<close>.\<close>

function bisect :: "(int \<Rightarrow> bool) \<Rightarrow> int \<Rightarrow> int \<Rightarrow> int" where
  "bisect reaches before reached =
     (if reached - before > 1
      then let mid = before + (reached - before) div 2
           in if reaches mid then bisect reaches before mid else bisect reaches mid reached
      else reached)"
  by pat_completeness auto
termination
  by (relation "measure (\<lambda>(_, before, reached). nat (reached - before))") auto

declare bisect.simps [simp del]

definition SECS_PER_DAY :: int where "SECS_PER_DAY = 86400"

definition first_instant_of :: "zone \<Rightarrow> int \<Rightarrow> int" where
  "first_instant_of z day =
     (let midnight = sat_i64 (day * SECS_PER_DAY)
      in bisect (\<lambda>t. li_day (zone_at z t) \<ge> day)
           (sat_i64 (midnight - SECS_PER_DAY)) (sat_i64 (midnight + SECS_PER_DAY)))"

definition day_bounds :: "zone \<Rightarrow> int \<Rightarrow> int \<times> int" where
  "day_bounds z day = (first_instant_of z day, first_instant_of z (sat_i64 (day + 1)))"

section \<open>Lemmas\<close>

lemma bisect_range:
  "before < reached \<Longrightarrow> before < bisect p before reached \<and> bisect p before reached \<le> reached"
proof (induction p before reached rule: bisect.induct)
  case (1 p before reached)
  define mid where "mid = before + (reached - before) div 2"
  show ?case
  proof (cases "reached - before > 1")
    case True
    then have "before < mid" "mid < reached" by (simp_all add: mid_def)
    with 1 True show ?thesis
      by (subst (1 2) bisect.simps) (fastforce simp: mid_def [symmetric] Let_def)
  next
    case False
    with 1 show ?thesis by (subst (1 2) bisect.simps) simp
  qed
qed

lemma bisect_crossing:
  "before < reached \<Longrightarrow> \<not> p before \<Longrightarrow> p reached \<Longrightarrow>
   p (bisect p before reached) \<and> \<not> p (bisect p before reached - 1)"
proof (induction p before reached rule: bisect.induct)
  case (1 p before reached)
  define mid where "mid = before + (reached - before) div 2"
  show ?case
  proof (cases "reached - before > 1")
    case True
    then have "before < mid" "mid < reached" by (simp_all add: mid_def)
    with 1 True show ?thesis
      by (subst (1 2) bisect.simps) (simp add: mid_def [symmetric] Let_def)
  next
    case False
    then have "before = reached - 1" using 1 by simp
    with 1 show ?thesis by (subst (1 2) bisect.simps) simp
  qed
qed

text \<open>The zones the search is written for: every offset is under a day either way.\<close>

definition zone_ok :: "zone \<Rightarrow> bool" where
  "zone_ok z \<longleftrightarrow> (\<forall>t. \<bar>z t\<bar> < 1440)"

definition day_in_range :: "int \<Rightarrow> bool" where
  "day_in_range day \<longleftrightarrow> \<bar>day\<bar> \<le> 100000000000"

lemma sat_days:
  assumes "\<bar>day\<bar> \<le> 100000000001" and "\<bar>k\<bar> \<le> 1"
  shows "sat_i64 (day * 86400 + k * 86400) = day * 86400 + k * 86400" "sat_i64 (day + k) = day + k"
  using assms by (auto simp: sat_i64_def)

lemma first_instant_eq:
  assumes "\<bar>day\<bar> \<le> 100000000001"
  shows "first_instant_of z day =
    bisect (\<lambda>t. day \<le> local_day t (z t)) (day * 86400 - 86400) (day * 86400 + 86400)"
  using sat_days [OF assms, of 0] sat_days [OF assms, of 1] sat_days [OF assms, of "-1"]
  by (simp add: first_instant_of_def SECS_PER_DAY_def li_day_def zone_at_def Let_def)

lemma first_instant_range:
  assumes "\<bar>day\<bar> \<le> 100000000001"
  shows "day * 86400 - 86400 < first_instant_of z day"
    and "first_instant_of z day \<le> day * 86400 + 86400"
  using bisect_range [of "day * 86400 - 86400" "day * 86400 + 86400"]
  by (auto simp: first_instant_eq [OF assms])

lemma first_instant_crossing:
  assumes "zone_ok z" and "\<bar>day\<bar> \<le> 100000000001"
  shows "day \<le> local_day (first_instant_of z day) (z (first_instant_of z day))"
    and "local_day (first_instant_of z day - 1) (z (first_instant_of z day - 1)) < day"
proof -
  have "\<bar>z t\<bar> < 1440" for t using assms(1) by (simp add: zone_ok_def)
  then have off: "z t < 1440" "- 1440 < z t" for t by (simp_all add: abs_less_iff minus_less_iff)
  have "\<not> day \<le> local_day (day * 86400 - 86400) (z (day * 86400 - 86400))"
    using off(1) [of "day * 86400 - 86400"] by (auto simp: local_day_def)
  moreover have "day \<le> local_day (day * 86400 + 86400) (z (day * 86400 + 86400))"
    using off(2) [of "day * 86400 + 86400"] by (auto simp: local_day_def)
  ultimately show "day \<le> local_day (first_instant_of z day) (z (first_instant_of z day))"
    and "local_day (first_instant_of z day - 1) (z (first_instant_of z day - 1)) < day"
    using bisect_crossing [of "day * 86400 - 86400" "day * 86400 + 86400"
        "\<lambda>t. day \<le> local_day t (z t)"]
    unfolding first_instant_eq [OF assms(2)] by auto
qed

text \<open>A zone whose local day never steps back; in one, an instant is past the start of a day's
  range exactly when its own day has reached that day.\<close>

definition never_steps_back :: "zone \<Rightarrow> bool" where
  "never_steps_back z \<longleftrightarrow> (\<forall>t u. t \<le> u \<longrightarrow> local_day t (z t) \<le> local_day u (z u))"

lemma first_instant_le_iff:
  assumes "zone_ok z" and "never_steps_back z" and "\<bar>d\<bar> \<le> 100000000001"
  shows "first_instant_of z d \<le> t \<longleftrightarrow> d \<le> local_day t (z t)"
proof
  assume "first_instant_of z d \<le> t"
  then show "d \<le> local_day t (z t)"
    using first_instant_crossing(1) [OF assms(1,3)] assms(2) unfolding never_steps_back_def
    by (meson order_trans)
next
  assume d: "d \<le> local_day t (z t)"
  show "first_instant_of z d \<le> t"
  proof (rule ccontr)
    assume "\<not> first_instant_of z d \<le> t"
    then have "t \<le> first_instant_of z d - 1" by simp
    then show False
      using first_instant_crossing(2) [OF assms(1,3)] assms(2) d unfolding never_steps_back_def
      by (meson leD order_trans)
  qed
qed

lemma day_bounds_le_iff:
  assumes "zone_ok z" and "never_steps_back z" and "day_in_range d"
  shows "fst (day_bounds z d) \<le> t \<longleftrightarrow> d \<le> local_day t (z t)"
    and "snd (day_bounds z d) \<le> t \<longleftrightarrow> d < local_day t (z t)"
proof -
  have "\<bar>d\<bar> \<le> 100000000001" "\<bar>d + 1\<bar> \<le> 100000000001" using assms(3) by (auto simp: day_in_range_def)
  then show "fst (day_bounds z d) \<le> t \<longleftrightarrow> d \<le> local_day t (z t)"
    and "snd (day_bounds z d) \<le> t \<longleftrightarrow> d < local_day t (z t)"
    using first_instant_le_iff [OF assms(1,2), of d t] first_instant_le_iff [OF assms(1,2), of "d + 1" t]
      sat_days(2) [of d 1]
    by (auto simp: day_bounds_def)
qed

section \<open>Properties\<close>

text \<open>
  C32: The range of a local day. In a zone whose local day never steps back, the range of a day
  is exactly the instants of that day: what \<open>day_bounds\<close> answers is half-open, meets the next
  day's range at its end, and an instant is inside precisely when its own local day is that one,
  on a day of 23 hours or 25 as on any other. (Where the local day does step back the search finds
  one of the crossings.)
\<close>

theorem day_bounds_exact:
  assumes "zone_ok z" and "day_in_range day" and "never_steps_back z"
  shows "(case day_bounds z day of (from, to) \<Rightarrow> from \<le> t \<and> t < to) \<longleftrightarrow> local_day t (z t) = day"
  using day_bounds_le_iff [OF assms(1,3,2), of t] by (auto simp: case_prod_beta)

theorem day_bounds_exact_witness:
  "(case day_bounds (\<lambda>_. 120) 19000 of (from, to) \<Rightarrow> from \<le> 1641592800 \<and> 1641592800 < to)"
  using day_bounds_exact [of "\<lambda>_. 120" 19000 1641592800]
  by (simp add: zone_ok_def day_in_range_def never_steps_back_def local_day_def zdiv_mono1)

text \<open>A zone that steps from UTC-2:30 back to UTC-3:30 a minute past local midnight, as
  Newfoundland did until 2011: the search lands on the second time the day is reached, an hour
  after the first.\<close>

lemma step_back_finds_the_later_crossing:
  fixes st_johns defines "st_johns \<equiv> \<lambda>t. if t < 9060 then - 150 else - 210 :: int"
  shows "local_day 9000 (st_johns 9000) = 0 \<and> first_instant_of st_johns 0 = 12600"
proof -
  have "first_instant_of st_johns 0 = bisect (\<lambda>t. 0 \<le> local_day t (st_johns t)) (- 86400) 86400"
    by (simp add: first_instant_eq)
  also have "\<dots> = 12600"
    by (simp add: bisect.simps local_day_def st_johns_def)
  finally show ?thesis by (simp add: local_day_def st_johns_def)
qed

end
