(* ===== verification/Session_Store.thy ===== *)
theory Session_Store
  imports Session_Segment Clock "HOL-Library.Product_Lexorder"
begin

text \<open>
  The session tables and their writers (\<open>src/core/src/session/store.rs\<close>), the measure of a
  day's Focus (\<open>session/measure.rs\<close>), and the \<open>focus\<close> rows a segment's close pays
  (\<open>ledger/focus.rs\<close>, the insert of \<open>ledger/retained.rs\<close>). A table is the list of its
  rows in rowid order; a statement is the list function it computes. What other tables answer is
  part of the record: whether a project exists and is Reference, whether a restored record may
  still match it, and its subject key. A date is its local day number. A statement SQLite itself
  fails is outside the model.
\<close>

section \<open>The tables\<close>

record session_row =
  se_id :: int
  se_project :: int
  se_location :: "int option"
  se_target :: "int option"
  se_started :: int
  se_ended :: "int option"
  se_credited :: int
  se_reason :: "close_reason option"

record segment_row =
  sg_id :: int
  sg_session :: int
  sg_started :: int
  sg_ended :: "int option"
  sg_credited :: int
  sg_closed_by :: "closed_by option"
  sg_signalled :: "bool option"

record focus_row =
  fr_id :: int
  fr_project :: int
  fr_date :: int
  fr_key :: "string \<times> int"
  fr_seconds :: int
  fr_at :: local_instant

record session_db =
  db_sessions :: "session_row list"
  db_segments :: "segment_row list"
  db_focus :: "focus_row list"
  db_reference :: "int \<Rightarrow> bool option"
  db_awaiting :: "int \<Rightarrow> bool"
  db_subject :: "int \<Rightarrow> string option"

datatype session_error = SeSqlite | NoSuchSession int | BadColumn string string

definition next_id :: "int list \<Rightarrow> int" where
  "next_id ids = fold max ids 0 + 1"

section \<open>The writers\<close>

definition open_session ::
  "session_db \<Rightarrow> int \<Rightarrow> int option \<Rightarrow> int option \<Rightarrow> int \<Rightarrow> session_error + int \<times> session_db"
where
  "open_session db project location target started_at =
     (if db_reference db project = None then Inl SeSqlite
      else let n = next_id (map se_id (db_sessions db))
           in Inr (n, db\<lparr>db_sessions := db_sessions db @
                [\<lparr>se_id = n, se_project = project, se_location = location, se_target = target,
                  se_started = started_at, se_ended = None, se_credited = 0, se_reason = None\<rparr>]\<rparr>))"

definition open_segment :: "session_db \<Rightarrow> int \<Rightarrow> int \<Rightarrow> bool \<Rightarrow> int \<times> session_db" where
  "open_segment db session started_at signalled =
     (let n = next_id (map sg_id (db_segments db))
      in (n, db\<lparr>db_segments := db_segments db @
           [\<lparr>sg_id = n, sg_session = session, sg_started = started_at, sg_ended = None,
             sg_credited = 0, sg_closed_by = None, sg_signalled = Some signalled\<rparr>]\<rparr>))"

definition update_open :: "int \<Rightarrow> (segment_row \<Rightarrow> segment_row) \<Rightarrow> session_db \<Rightarrow> session_db" where
  "update_open segment_id f db =
     db\<lparr>db_segments :=
       map (\<lambda>g. if sg_id g = segment_id \<and> sg_closed_by g = None then f g else g) (db_segments db)\<rparr>"

definition mark_activity :: "session_db \<Rightarrow> int \<Rightarrow> int \<Rightarrow> session_db" where
  "mark_activity db segment_id at =
     update_open segment_id
       (\<lambda>g. g\<lparr>sg_credited := max (max (at - sg_started g) 0) (sg_credited g),
             sg_signalled := Some True\<rparr>) db"

definition close_segment :: "session_db \<Rightarrow> int \<Rightarrow> closed_segment \<Rightarrow> session_db" where
  "close_segment db segment_id seg =
     update_open segment_id
       (\<lambda>g. g\<lparr>sg_ended := Some (cs_ended_at seg), sg_credited := cs_credited_seconds seg,
             sg_closed_by := Some (cs_closed_by seg)\<rparr>) db"

text \<open>How recovery closes a segment a crash left open: at its watermark.\<close>

definition crash_segment :: "session_db \<Rightarrow> int \<Rightarrow> session_db" where
  "crash_segment db segment_id =
     update_open segment_id
       (\<lambda>g. g\<lparr>sg_ended := Some (sg_started g + sg_credited g), sg_closed_by := Some CbCrash\<rparr>) db"

definition sum_segments :: "session_db \<Rightarrow> int \<Rightarrow> int" where
  "sum_segments db session =
     sum_list (map sg_credited (filter (\<lambda>g. sg_session g = session) (db_segments db)))"

definition find_session :: "session_db \<Rightarrow> int \<Rightarrow> session_row option" where
  "find_session db session = find (\<lambda>s. se_id s = session) (db_sessions db)"

definition update_session :: "int \<Rightarrow> (session_row \<Rightarrow> session_row) \<Rightarrow> session_db \<Rightarrow> session_db" where
  "update_session session f db =
     db\<lparr>db_sessions :=
       map (\<lambda>s. if se_id s = session \<and> se_ended s = None then f s else s) (db_sessions db)\<rparr>"

record session_closed =
  sc_credited_seconds :: int
  sc_ended_at :: int
  sc_condition_changed :: bool

text \<open>The recompute of the project's derived state at the end of the statement answers whether
  the condition moved, and is the argument \<open>moved\<close>.\<close>

definition close_session ::
  "(session_db \<Rightarrow> int \<Rightarrow> bool) \<Rightarrow> session_db \<Rightarrow> int \<Rightarrow> int \<Rightarrow> close_reason \<Rightarrow>
   session_error + session_closed \<times> session_db"
where
  "close_session moved db session ended_at reason =
     (case find_session db session of
        None \<Rightarrow> Inl (NoSuchSession session)
      | Some s \<Rightarrow>
          let credited = sum_segments db session;
              stored_end = max ended_at (se_started s);
              db' = update_session session
                (\<lambda>s. s\<lparr>se_ended := Some stored_end, se_reason := Some reason,
                      se_credited := credited\<rparr>) db
          in Inr (\<lparr>sc_credited_seconds = credited, sc_ended_at = stored_end,
                   sc_condition_changed = moved db' (se_project s)\<rparr>, db'))"

record session_ref =
  rf_id :: int
  rf_project_id :: int
  rf_location_id :: int
  rf_target_id :: int
  rf_started_at :: int
  rf_ended_at :: "int option"
  rf_credited_seconds :: int
  rf_close_reason :: "close_reason option"

definition session_ref :: "session_db \<Rightarrow> int \<Rightarrow> session_error + session_ref" where
  "session_ref db session =
     (case find_session db session of
        None \<Rightarrow> Inl (NoSuchSession session)
      | Some s \<Rightarrow>
          (case se_location s of
             None \<Rightarrow> Inl (BadColumn ''location_id'' ''NULL'')
           | Some l \<Rightarrow>
               (case se_target s of
                  None \<Rightarrow> Inl (BadColumn ''target_id'' ''NULL'')
                | Some t \<Rightarrow>
                    Inr \<lparr>rf_id = session, rf_project_id = se_project s, rf_location_id = l,
                         rf_target_id = t, rf_started_at = se_started s, rf_ended_at = se_ended s,
                         rf_credited_seconds = sum_segments db session,
                         rf_close_reason = se_reason s\<rparr>)))"

definition playtime_seconds :: "session_db \<Rightarrow> int \<Rightarrow> int" where
  "playtime_seconds db project =
     sum_list (map se_credited (filter (\<lambda>s. se_project s = project) (db_sessions db)))"

section \<open>The measure\<close>

definition is_counted :: "bool option \<Rightarrow> bool \<Rightarrow> int \<Rightarrow> bool" where
  "is_counted signalled first_in_session credited_seconds =
     (case signalled of
        Some s \<Rightarrow> s
      | None \<Rightarrow> \<not> first_in_session \<or> credited_seconds > SEGMENT_IDLE_SECS)"

record counted_row =
  ct_id :: int
  ct_start :: int
  ct_end :: int
  ct_closed :: bool

definition sg_end :: "segment_row \<Rightarrow> int" where
  "sg_end g = sg_started g + sg_credited g"

definition first_in_session :: "session_db \<Rightarrow> segment_row \<Rightarrow> bool" where
  "first_in_session db g \<longleftrightarrow>
     \<not> list_ex (\<lambda>f. sg_session f = sg_session g
        \<and> (sg_started f < sg_started g \<or> sg_started f = sg_started g \<and> sg_id f < sg_id g))
       (db_segments db)"

definition of_counted_project :: "session_db \<Rightarrow> segment_row \<Rightarrow> bool" where
  "of_counted_project db g \<longleftrightarrow>
     (case find_session db (sg_session g) of
        None \<Rightarrow> False | Some s \<Rightarrow> db_reference db (se_project s) = Some False)"

definition in_focus :: "session_db \<Rightarrow> segment_row \<Rightarrow> bool" where
  "in_focus db g \<longleftrightarrow>
     of_counted_project db g \<and> is_counted (sg_signalled g) (first_in_session db g) (sg_credited g)"

definition counted :: "session_db \<Rightarrow> int \<Rightarrow> int \<Rightarrow> counted_row list" where
  "counted db from to =
     map (\<lambda>g. \<lparr>ct_id = sg_id g, ct_start = sg_started g, ct_end = sg_end g,
              ct_closed = (sg_closed_by g \<noteq> None)\<rparr>)
       (filter (\<lambda>g. in_focus db g \<and> sg_started g < to \<and> sg_end g > from) (db_segments db))"

text \<open>\<open>union\<close>: the spans in order, each merged into the last where it meets it. The accumulator
  holds the output in reverse, its head the last span.\<close>

fun merge_span :: "int \<times> int \<Rightarrow> (int \<times> int) list \<Rightarrow> (int \<times> int) list" where
  "merge_span (from, to) [] = [(from, to)]"
| "merge_span (from, to) ((a, b) # out) =
     (if from \<le> b then (a, max b to) # out else (from, to) # (a, b) # out)"

definition union_spans :: "(int \<times> int) list \<Rightarrow> (int \<times> int) list" where
  "union_spans spans =
     rev (fold merge_span (sort (filter (\<lambda>(from, to). from < to) spans)) [])"

fun or_first :: "int option \<Rightarrow> int \<Rightarrow> int option" where
  "or_first None at = Some at"
| "or_first (Some f) at = Some f"

fun uncovered_loop :: "int \<Rightarrow> (int \<times> int) list \<Rightarrow> int \<Rightarrow> int option \<Rightarrow> int \<Rightarrow> int \<times> int option \<times> int"
where
  "uncovered_loop to [] seconds first at = (seconds, first, at)"
| "uncovered_loop to ((covered_from, covered_to) # cover) seconds first at =
     (if at \<ge> to \<or> covered_from \<ge> to then (seconds, first, at)
      else if covered_to \<le> at then uncovered_loop to cover seconds first at
      else if covered_from > at
        then uncovered_loop to cover (seconds + (covered_from - at)) (or_first first at)
               (max at covered_to)
      else uncovered_loop to cover seconds first (max at covered_to))"

definition uncovered :: "int \<Rightarrow> int \<Rightarrow> (int \<times> int) list \<Rightarrow> (int \<times> int) option" where
  "uncovered from to cover =
     (case uncovered_loop to cover 0 None from of
        (seconds, first, at) \<Rightarrow>
          (if at < to then Some (seconds + (to - at), the (or_first first at))
           else map_option (\<lambda>first. (seconds, first)) first))"

definition focus_seconds :: "session_db \<Rightarrow> zone \<Rightarrow> int \<Rightarrow> int \<Rightarrow> int" where
  "focus_seconds db z day now =
     (case day_bounds z day of
        (start, till) \<Rightarrow>
          let till = min till now
          in if start \<ge> till then 0
             else sum_list (map (\<lambda>(from, to). to - from)
                    (union_spans (map (\<lambda>c. (max (ct_start c) start, min (ct_end c) till))
                                   (counted db start till)))))"

record contribution =
  dc_day :: int
  dc_seconds :: int
  dc_first_instant :: int

text \<open>The loop over the days of the closing segment. It ends when a day reaches the segment's end;
  at the very end of the range of \<open>i64\<close>, where the days stop advancing, it does not.\<close>

definition day_share ::
  "zone \<Rightarrow> int \<Rightarrow> int \<Rightarrow> (int \<times> int) list \<Rightarrow> int \<Rightarrow> contribution list"
where
  "day_share z start till cover day =
     (case day_bounds z day of
        (day_start, day_end) \<Rightarrow>
          (case uncovered (max start day_start) (min till day_end) cover of
             None \<Rightarrow> []
           | Some (seconds, first) \<Rightarrow>
               [\<lparr>dc_day = day, dc_seconds = seconds, dc_first_instant = first\<rparr>]))"

partial_function (option) shares_loop ::
  "zone \<Rightarrow> int \<Rightarrow> int \<Rightarrow> (int \<times> int) list \<Rightarrow> int \<Rightarrow> contribution list \<Rightarrow> contribution list option"
where
  "shares_loop z start till cover day shares =
     (let shares = shares @ day_share z start till cover day
      in if snd (day_bounds z day) \<ge> till then Some shares
         else shares_loop z start till cover (sat_i64 (day + 1)) shares)"

definition marginal_seconds :: "session_db \<Rightarrow> zone \<Rightarrow> int \<Rightarrow> contribution list option" where
  "marginal_seconds db z segment_id =
     (case find (\<lambda>g. sg_id g = segment_id) (db_segments db) of
        None \<Rightarrow> Some []
      | Some g \<Rightarrow>
          let start = sg_started g; till = sg_end g; segments = counted db start till
          in if \<not> list_ex (\<lambda>c. ct_id c = segment_id) segments then Some []
             else shares_loop z start till
                    (union_spans (map (\<lambda>c. (ct_start c, ct_end c))
                       (filter (\<lambda>c. ct_closed c \<and> ct_id c \<noteq> segment_id) segments)))
                    (li_day (zone_at z start)) [])"

section \<open>The focus rows\<close>

definition pay_share :: "zone \<Rightarrow> int \<Rightarrow> string \<Rightarrow> contribution \<Rightarrow> session_db \<Rightarrow> session_db" where
  "pay_share z project subject_key share db =
     (let first = zone_at z (dc_first_instant share);
          date = li_day first;
          key = (subject_key, date);
          add = (\<lambda>id. db\<lparr>db_focus := map (\<lambda>r. if fr_id r = id
                    then r\<lparr>fr_seconds := fr_seconds r + dc_seconds share\<rparr> else r) (db_focus db)\<rparr>)
      in case find (\<lambda>r. fr_project r = project \<and> fr_date r = date) (db_focus db) of
           Some r \<Rightarrow> add (fr_id r)
         | None \<Rightarrow>
             (case find (\<lambda>r. fr_key r = key) (db_focus db) of
                Some r \<Rightarrow> add (fr_id r)
              | None \<Rightarrow>
                  db\<lparr>db_focus := db_focus db @
                    [\<lparr>fr_id = next_id (map fr_id (db_focus db)), fr_project = project,
                      fr_date = date, fr_key = key, fr_seconds = dc_seconds share,
                      fr_at = first\<rparr>]\<rparr>))"

definition segment_owner :: "session_db \<Rightarrow> int \<Rightarrow> int option" where
  "segment_owner db segment_id =
     Option.bind (find (\<lambda>g. sg_id g = segment_id) (db_segments db))
       (\<lambda>g. Option.bind (find_session db (sg_session g))
          (\<lambda>s. if db_reference db (se_project s) = None then None else Some (se_project s)))"

definition credit_segment_close :: "zone \<Rightarrow> int \<Rightarrow> session_db \<Rightarrow> session_db option" where
  "credit_segment_close z segment_id db =
     (case segment_owner db segment_id of
        None \<Rightarrow> Some db
      | Some project \<Rightarrow>
          if db_awaiting db project then Some db
          else (case db_subject db project of
                  None \<Rightarrow> Some db
                | Some subject_key \<Rightarrow>
                    map_option (\<lambda>shares. fold (pay_share z project subject_key) shares db)
                      (marginal_seconds db z segment_id)))"

end
