(* ===== verification/Session_Focus.thy ===== *)
theory Session_Focus
  imports Session_Store
begin

text \<open>
  The measure of a day's Focus and the rows that pay it: spans against the sets of instants they
  stand for, the days a segment touches, and, over every history of the session tables, the
  agreement of what the \<open>focus\<close> rows of a date add up to with the day's measure.
\<close>

section \<open>Spans as sets of instants\<close>

definition covers :: "(int \<times> int) list \<Rightarrow> int set" where
  "covers spans = (\<Union>(from, to) \<in> set spans. {from..<to})"

lemma covers_simps [simp]:
  "covers [] = {}" "covers ((a, b) # spans) = {a..<b} \<union> covers spans"
  "covers (rev spans) = covers spans"
  by (auto simp: covers_def)

definition apart :: "(int \<times> int) list \<Rightarrow> bool" where
  "apart spans \<longleftrightarrow> (\<forall>(a, b) \<in> set spans. a < b) \<and> sorted_wrt (\<lambda>x y. snd x < fst y) spans"

lemma apart_simps [simp]:
  "apart []"
  "apart ((a, b) # spans) \<longleftrightarrow> a < b \<and> (\<forall>x \<in> set spans. b < fst x) \<and> apart spans"
  by (auto simp: apart_def)

lemma apart_covers_ge: "apart spans \<Longrightarrow> \<forall>x \<in> set spans. c < fst x \<Longrightarrow> t \<in> covers spans \<Longrightarrow> c < t"
  by (force simp: covers_def)

definition apart_rev :: "(int \<times> int) list \<Rightarrow> bool" where
  "apart_rev spans \<longleftrightarrow> (\<forall>(a, b) \<in> set spans. a < b) \<and> sorted_wrt (\<lambda>x y. snd y < fst x) spans"

lemma apart_rev_simps [simp]:
  "apart_rev []"
  "apart_rev ((a, b) # spans) \<longleftrightarrow> a < b \<and> (\<forall>x \<in> set spans. snd x < a) \<and> apart_rev spans"
  by (auto simp: apart_rev_def)

lemma fold_merge:
  assumes "sorted (map fst xs)" and "\<forall>(a, b) \<in> set xs. a < b" and "apart_rev out"
    and "\<forall>x \<in> set xs. case out of [] \<Rightarrow> True | (a, b) # _ \<Rightarrow> a \<le> fst x"
  shows "apart_rev (fold merge_span xs out) \<and> covers (fold merge_span xs out) = covers xs \<union> covers out"
  using assms
proof (induction xs arbitrary: out)
  case (Cons x xs)
  obtain p q where x: "x = (p, q)" by fastforce
  have lt: "p < q" using Cons.prems(2) x by auto
  have lo: "\<forall>y \<in> set xs. p \<le> fst y" using Cons.prems(1) x by auto
  have ok: "apart_rev (merge_span (p, q) out)
      \<and> covers (merge_span (p, q) out) = {p..<q} \<union> covers out
      \<and> (\<forall>y \<in> set xs. case merge_span (p, q) out of [] \<Rightarrow> True | (a, b) # _ \<Rightarrow> a \<le> fst y)"
  proof (cases out)
    case Nil
    then show ?thesis using lt lo by simp
  next
    case (Cons o1 rest)
    obtain a b where o1: "o1 = (a, b)" by fastforce
    have ab: "a < b" "a \<le> p" "apart_rev rest" "\<forall>y \<in> set rest. snd y < a"
      using Cons.prems(3,4) x Cons o1 by auto
    show ?thesis
    proof (cases "p \<le> b")
      case True
      have "{a..<max b q} = {p..<q} \<union> {a..<b}" using True lt ab by auto
      then show ?thesis using True ab lo lt Cons o1 by auto
    next
      case False
      have "snd y < p" if "y \<in> set rest" for y using ab that by fastforce
      then show ?thesis using False ab lo lt Cons o1 by simp
    qed
  qed
  have "apart_rev (fold merge_span xs (merge_span (p, q) out))
      \<and> covers (fold merge_span xs (merge_span (p, q) out))
          = covers xs \<union> covers (merge_span (p, q) out)"
    by (rule Cons.IH) (use Cons.prems ok in auto)
  then show ?case using ok x by auto
qed simp

lemma apart_rev_rev: "apart (rev spans) \<longleftrightarrow> apart_rev spans"
  by (simp add: apart_def apart_rev_def sorted_wrt_rev)

lemma sorted_fst: "sorted (xs :: (int \<times> int) list) \<Longrightarrow> sorted (map fst xs)"
  by (induction xs) (auto simp: less_eq_prod_def)

lemma union_spans_spec:
  shows union_apart: "apart (union_spans spans)"
    and union_covers: "covers (union_spans spans) = covers spans"
proof -
  define xs where "xs = sort (filter (\<lambda>(from, to). from < to) spans)"
  have "sorted (map fst xs)" by (simp add: xs_def sorted_fst)
  moreover have "\<forall>(a, b) \<in> set xs. a < b" by (auto simp: xs_def)
  ultimately have "apart_rev (fold merge_span xs []) \<and> covers (fold merge_span xs []) = covers xs"
    using fold_merge [of xs "[]"] by simp
  moreover have "covers xs = covers spans" by (fastforce simp: xs_def covers_def)
  ultimately show "apart (union_spans spans)" "covers (union_spans spans) = covers spans"
    by (simp_all add: union_spans_def xs_def apart_rev_rev)
qed

lemma finite_covers [simp]: "finite (covers spans)"
  by (auto simp: covers_def)

lemma span_lengths:
  "apart spans \<Longrightarrow> sum_list (map (\<lambda>(from, to). to - from) spans) = int (card (covers spans))"
proof (induction spans)
  case (Cons x spans)
  obtain a b where x: "x = (a, b)" by fastforce
  have "{a..<b} \<inter> covers spans = {}"
    using Cons.prems x apart_covers_ge [of spans b] by (force simp: x)
  then have "card (covers (x # spans)) = card {a..<b} + card (covers spans)"
    by (simp add: x card_Un_disjoint)
  then show ?case using Cons x by simp
qed simp

text \<open>The loop of \<open>uncovered\<close>: what is left of the span it is asked about.\<close>

lemma uncovered_loop_spec:
  assumes "apart cover" and "uncovered_loop to cover seconds first at = (s, f, at')"
    and "R = {at..<to} - covers cover"
  shows "s + (if at' < to then to - at' else 0) = seconds + int (card R)
    \<and> (if at' < to then Some (the (or_first f at')) else f)
        = (case first of Some x \<Rightarrow> Some x | None \<Rightarrow> if R = {} then None else Some (Min R))"
  using assms
proof (induction to cover seconds first at arbitrary: R rule: uncovered_loop.induct)
  case (1 to seconds first at)
  have "Min {at..<to} = at" if "at < to" by (rule Min_eqI) (use that in auto)
  then show ?case using 1 by (cases first) auto
next
  case (2 to a b cover seconds first at)
  have ab: "a < b" and rest: "apart cover" and later: "\<forall>x \<in> set cover. b < fst x"
    using "2.prems"(1) by simp_all
  have beyond: "t \<in> covers cover \<Longrightarrow> b < t" for t
    using apart_covers_ge [OF rest later] .
  consider (stop) "at \<ge> to \<or> a \<ge> to" | (skip) "\<not> (at \<ge> to \<or> a \<ge> to)" "b \<le> at"
    | (gap) "\<not> (at \<ge> to \<or> a \<ge> to)" "\<not> b \<le> at" "a > at"
    | (meet) "\<not> (at \<ge> to \<or> a \<ge> to)" "\<not> b \<le> at" "\<not> a > at" by blast
  then show ?case
  proof cases
    case stop
    have R: "R = {at..<to}"
      using stop ab beyond unfolding "2.prems"(3) by (force simp: covers_simps)
    have "Min {at..<to} = at" if "at < to" by (rule Min_eqI) (use that in auto)
    then show ?thesis using "2.prems"(2) stop R by (cases first) auto
  next
    case skip
    then have R: "R = {at..<to} - covers cover"
      using "2.prems"(3) by auto
    show ?thesis by (rule "2.IH"(1) [OF skip rest _ R]) (use "2.prems"(2) skip in simp)
  next
    case gap
    define R' where "R' = {b..<to} - covers cover"
    have R: "R = {at..<a} \<union> R'" "{at..<a} \<inter> R' = {}"
      using gap ab beyond unfolding "2.prems"(3) R'_def by (auto simp: covers_simps) force
    then have "card R = card {at..<a} + card R'"
      by (simp add: card_Un_disjoint R'_def)
    moreover have "Min R = at" "R \<noteq> {}"
      using R(1) gap ab by (auto intro!: Min_eqI simp: R'_def)
    moreover have "max at b = b" using gap by simp
    moreover have "or_first first at = Some (case first of Some x \<Rightarrow> x | None \<Rightarrow> at)"
      by (cases first) simp_all
    ultimately show ?thesis
      using "2.IH"(2) [OF gap rest, of R'] "2.prems"(2) gap
      by (cases first) (simp_all add: R'_def)
  next
    case meet
    have R: "R = {max at b..<to} - covers cover"
      using meet ab unfolding "2.prems"(3) by (auto simp: covers_simps)
    show ?thesis by (rule "2.IH"(3) [OF meet rest _ R]) (use "2.prems"(2) meet in simp)
  qed
qed

lemma uncovered_spec:
  assumes "apart cover" and "R = {from..<to} - covers cover"
  shows "uncovered from to cover = (if R = {} then None else Some (int (card R), Min R))"
proof -
  obtain s f at' where loop: "uncovered_loop to cover 0 None from = (s, f, at')"
    by (cases "uncovered_loop to cover 0 None from") auto
  have "finite R" using assms(2) by simp
  show ?thesis
    using uncovered_loop_spec [OF assms(1) loop assms(2)] loop \<open>finite R\<close>
    by (cases "at' < to"; cases f) (auto simp: uncovered_def split: if_splits)
qed

section \<open>The days a segment touches\<close>

abbreviation day_at :: "zone \<Rightarrow> int \<Rightarrow> int" where
  "day_at z t \<equiv> local_day t (z t)"

definition plain_zone :: "zone \<Rightarrow> bool" where
  "plain_zone z \<longleftrightarrow> zone_ok z \<and> never_steps_back z"

definition near :: "int \<Rightarrow> bool" where
  "near t \<longleftrightarrow> \<bar>t\<bar> \<le> 1000000000000000"

lemma plain_mono: "plain_zone z \<Longrightarrow> t \<le> u \<Longrightarrow> day_at z t \<le> day_at z u"
  by (simp add: plain_zone_def never_steps_back_def)

lemma near_day:
  assumes "plain_zone z" and "near t"
  shows "\<bar>day_at z t\<bar> \<le> 20000000000"
proof -
  have "\<bar>z t\<bar> < 1440" using assms(1) by (simp add: plain_zone_def zone_ok_def)
  then show ?thesis using assms(2) by (auto simp: near_def local_day_def)
qed

lemma near_day_in_range: "plain_zone z \<Longrightarrow> near t \<Longrightarrow> day_in_range (day_at z t)"
  using near_day by (fastforce simp: day_in_range_def)

text \<open>What is left of \<open>{start..<till}\<close> on a day.\<close>

definition left_on :: "zone \<Rightarrow> int \<Rightarrow> int \<Rightarrow> (int \<times> int) list \<Rightarrow> int \<Rightarrow> int set" where
  "left_on z start till cover d = {t. start \<le> t \<and> t < till \<and> day_at z t = d} - covers cover"

lemma finite_left_on [simp]: "finite (left_on z start till cover d)"
  by (rule finite_subset [of _ "{start..<till}"]) (auto simp: left_on_def)

lemma day_share_spec:
  assumes "plain_zone z" and "day_in_range d" and "apart cover"
  shows "day_share z start till cover d =
    (let R = left_on z start till cover d
     in if R = {} then []
        else [\<lparr>dc_day = d, dc_seconds = int (card R), dc_first_instant = Min R\<rparr>])"
proof -
  obtain a b where ab: "day_bounds z d = (a, b)" by fastforce
  have "a \<le> t \<longleftrightarrow> d \<le> day_at z t" "b \<le> t \<longleftrightarrow> d < day_at z t" for t
    using day_bounds_le_iff [of z d t] assms(1,2) ab by (simp_all add: plain_zone_def)
  then have "max start a \<le> t \<and> t < min till b \<longleftrightarrow> start \<le> t \<and> t < till \<and> day_at z t = d" for t
    by (metis antisym max.bounded_iff min_less_iff_conj not_le order_refl)
  then have "left_on z start till cover d = {max start a..<min till b} - covers cover"
    by (simp add: left_on_def atLeastLessThan_def lessThan_def atLeast_def set_eq_iff)
  from uncovered_spec [OF assms(3) this] show ?thesis
    by (simp add: day_share_def ab Let_def)
qed

lemma shares_loop_returns:
  assumes z: "plain_zone z" and "near (till - 1)" and "- 20000000000 \<le> day"
    and "day \<le> day_at z (till - 1)"
  shows "shares_loop z start till cover day acc =
    Some (acc @ concat (map (day_share z start till cover) [day..day_at z (till - 1)]))"
  using assms(3,4)
proof (induction "nat (day_at z (till - 1) - day)" arbitrary: day acc rule: less_induct)
  case less
  have K: "day_at z (till - 1) \<le> 20000000000" using near_day [OF z assms(2)] by simp
  have d: "day_in_range day" using less.prems K by (auto simp: day_in_range_def)
  have stop: "till \<le> snd (day_bounds z day) \<longleftrightarrow> day_at z (till - 1) \<le> day"
    using day_bounds_le_iff(2) [of z day "till - 1"] z d unfolding plain_zone_def by linarith
  show ?case
  proof (cases "day_at z (till - 1) \<le> day")
    case True
    then have "[day..day_at z (till - 1)] = [day]" using less.prems by simp
    then show ?thesis using True stop by (subst shares_loop.simps) (simp add: Let_def)
  next
    case False
    have "sat_i64 (day + 1) = day + 1" using d by (simp add: day_in_range_def sat_i64_def)
    moreover have "[day..day_at z (till - 1)] = day # [day + 1..day_at z (till - 1)]"
      using False by (simp add: upto_rec1)
    ultimately show ?thesis
      using False stop less.hyps [of "day + 1" "acc @ day_share z start till cover day"] less.prems
      by (subst shares_loop.simps) (simp add: Let_def)
  qed
qed

lemma sum_over_days:
  "distinct ds \<Longrightarrow> (\<And>e. e \<in> set ds \<Longrightarrow> \<forall>c \<in> set (f e). g c = e) \<Longrightarrow>
   sum_list (map h (filter (\<lambda>c. g c = d) (concat (map f ds)))) =
     (if d \<in> set ds then sum_list (map h (f d)) else (0 :: int))"
proof (induction ds)
  case (Cons e ds)
  have "filter (\<lambda>c. g c = d) (f e) = (if e = d then f e else [])"
    using Cons.prems(2) [of e] by (auto simp: filter_id_conv filter_empty_conv)
  then show ?case using Cons by auto
qed simp

text \<open>The shares of an interval, added up on one day.\<close>

lemma shares_on_day:
  assumes z: "plain_zone z" and "near start" and "near (till - 1)" and "start < till" and "apart cover"
  shows "\<exists>shares. shares_loop z start till cover (day_at z start) [] = Some shares
    \<and> (\<forall>c \<in> set shares. day_at z (dc_first_instant c) = dc_day c)
    \<and> (\<forall>d. sum_list (map dc_seconds (filter (\<lambda>c. dc_day c = d) shares))
            = int (card (left_on z start till cover d)))"
proof -
  define K where "K = day_at z (till - 1)"
  define shares where "shares = concat (map (day_share z start till cover) [day_at z start..K])"
  have lo: "- 20000000000 \<le> day_at z start" using near_day [OF z assms(2)] by linarith
  have hi: "K \<le> 20000000000" using near_day [OF z assms(3)] unfolding K_def by linarith
  have "day_at z start \<le> K" unfolding K_def by (rule plain_mono [OF z]) (use assms(4) in simp)
  then have ret: "shares_loop z start till cover (day_at z start) [] = Some shares"
    using shares_loop_returns [OF z assms(3) lo] by (simp add: shares_def K_def)
  have spec: "day_share z start till cover d =
    (let R = left_on z start till cover d
     in if R = {} then []
        else [\<lparr>dc_day = d, dc_seconds = int (card R), dc_first_instant = Min R\<rparr>])"
    if "d \<in> set [day_at z start..K]" for d
    by (rule day_share_spec [OF z _ assms(5)]) (use that lo hi in \<open>auto simp: day_in_range_def\<close>)
  have each: "\<forall>c \<in> set (day_share z start till cover d). dc_day c = d \<and> day_at z (dc_first_instant c) = d"
    if "d \<in> set [day_at z start..K]" for d
  proof -
    define R where "R = left_on z start till cover d"
    have "Min R \<in> R" if "R \<noteq> {}" using that by (intro Min_in) (simp_all add: R_def)
    then show ?thesis
      unfolding spec [OF that] Let_def R_def [symmetric]
      by (auto simp: R_def left_on_def)
  qed
  have "sum_list (map dc_seconds (filter (\<lambda>c. dc_day c = d) shares))
      = int (card (left_on z start till cover d))" for d
  proof (cases "d \<in> set [day_at z start..K]")
    case True
    then show ?thesis
      unfolding shares_def using each by (subst sum_over_days) (auto simp: spec Let_def)
  next
    case False
    have "left_on z start till cover d = {}"
    proof (rule ccontr)
      assume "left_on z start till cover d \<noteq> {}"
      then obtain t where t: "start \<le> t" "t \<le> till - 1" "day_at z t = d"
        by (fastforce simp: left_on_def)
      then have "day_at z start \<le> d" "d \<le> K"
        using plain_mono [OF z] unfolding K_def by blast+
      then show False using False by simp
    qed
    then show ?thesis
      unfolding shares_def using each False by (subst sum_over_days) auto
  qed
  moreover have "\<forall>c \<in> set shares. day_at z (dc_first_instant c) = dc_day c"
    using each by (fastforce simp: shares_def)
  ultimately show ?thesis using ret by blast
qed

section \<open>What the focus rows of a date add up to\<close>

definition paid :: "session_db \<Rightarrow> int \<Rightarrow> int" where
  "paid db d = sum_list (map fr_seconds (filter (\<lambda>r. fr_date r = d) (db_focus db)))"

definition focus_rows_ok :: "session_db \<Rightarrow> bool" where
  "focus_rows_ok db \<longleftrightarrow> distinct (map fr_id (db_focus db))
     \<and> (\<forall>r \<in> set (db_focus db). fr_date r = snd (fr_key r))"

lemma next_id_fresh: "x \<in> set ids \<Longrightarrow> x < next_id ids"
proof -
  assume "x \<in> set ids"
  then have "x \<le> Max (set (0 # ids))" by simp
  then show "x < next_id ids" unfolding next_id_def Max.set_eq_fold by simp
qed

lemma sum_filter_add:
  assumes "distinct (map fr_id rows)" and "r \<in> set rows"
  shows "sum_list (map fr_seconds (filter (\<lambda>x. fr_date x = d)
      (map (\<lambda>x. if fr_id x = fr_id r then x\<lparr>fr_seconds := fr_seconds x + n\<rparr> else x) rows)))
    = sum_list (map fr_seconds (filter (\<lambda>x. fr_date x = d) rows)) + (if fr_date r = d then n else 0)"
  using assms
proof (induction rows)
  case (Cons x rows)
  have same: "map (\<lambda>x. if fr_id x = fr_id r then x\<lparr>fr_seconds := fr_seconds x + n\<rparr> else x) rows = rows"
    if "fr_id r \<notin> fr_id ` set rows"
    by (rule map_idI) (use that in \<open>metis image_eqI\<close>)
  show ?case
  proof (cases "r = x")
    case True
    then show ?thesis using Cons.prems same by simp
  next
    case False
    then have "r \<in> set rows" "fr_id x \<noteq> fr_id r" using Cons.prems by auto
    then show ?thesis using Cons by simp
  qed
qed simp

lemma pay_share_spec:
  assumes "focus_rows_ok db" and date: "date = day_at z (dc_first_instant share)"
  shows "focus_rows_ok (pay_share z p k share db)
    \<and> paid (pay_share z p k share db) d = paid db d + (if date = d then dc_seconds share else 0)
    \<and> db_sessions (pay_share z p k share db) = db_sessions db
    \<and> db_segments (pay_share z p k share db) = db_segments db
    \<and> db_reference (pay_share z p k share db) = db_reference db
    \<and> db_awaiting (pay_share z p k share db) = db_awaiting db
    \<and> db_subject (pay_share z p k share db) = db_subject db"
proof -
  define add :: "focus_row \<Rightarrow> session_db" where "add r = db\<lparr>db_focus := map (\<lambda>x. if fr_id x = fr_id r
      then x\<lparr>fr_seconds := fr_seconds x + dc_seconds share\<rparr> else x) (db_focus db)\<rparr>" for r
  have ids: "map fr_id (db_focus (add r)) = map fr_id (db_focus db)" for r
    by (auto simp: add_def)
  have keys: "\<forall>x \<in> set (db_focus (add r)). fr_date x = snd (fr_key x)" for r
    using assms(1) by (auto simp: focus_rows_ok_def add_def)
  have added: "focus_rows_ok (add r) \<and> paid (add r) d = paid db d + (if date = d then dc_seconds share else 0)"
    if "r \<in> set (db_focus db)" "fr_date r = date" for r
  proof
    have dist: "distinct (map fr_id (db_focus db))" using assms(1) by (simp add: focus_rows_ok_def)
    show "focus_rows_ok (add r)" unfolding focus_rows_ok_def using ids keys dist by simp
    show "paid (add r) d = paid db d + (if date = d then dc_seconds share else 0)"
      using sum_filter_add [OF dist that(1), of d "dc_seconds share"] that(2)
      by (simp add: paid_def add_def)
  qed
  define key where "key = (k, date)"
  have li: "li_day (zone_at z (dc_first_instant share)) = date"
    by (simp add: li_day_def zone_at_def date)
  consider (own) r where "find (\<lambda>r. fr_project r = p \<and> fr_date r = date) (db_focus db) = Some r"
    | (held) r where "find (\<lambda>r. fr_project r = p \<and> fr_date r = date) (db_focus db) = None"
        "find (\<lambda>r. fr_key r = key) (db_focus db) = Some r"
    | (fresh) "find (\<lambda>r. fr_project r = p \<and> fr_date r = date) (db_focus db) = None"
        "find (\<lambda>r. fr_key r = key) (db_focus db) = None"
    by fastforce
  then show ?thesis
  proof cases
    case own
    then have eq: "pay_share z p k share db = add r" by (simp add: pay_share_def add_def li Let_def)
    have "r \<in> set (db_focus db)" "fr_date r = date" using own by (auto simp: find_Some_iff)
    then show ?thesis using added [of r] unfolding eq by (simp add: add_def)
  next
    case held
    then have eq: "pay_share z p k share db = add r"
      by (simp add: pay_share_def add_def li key_def Let_def)
    have r: "r \<in> set (db_focus db)" "fr_key r = key" using held(2) by (auto simp: find_Some_iff)
    then have "fr_date r = date" using assms(1) by (simp add: focus_rows_ok_def key_def)
    then show ?thesis using added [of r] r(1) unfolding eq by (simp add: add_def)
  next
    case fresh
    have "next_id (map fr_id (db_focus db)) \<notin> fr_id ` set (db_focus db)"
      using next_id_fresh [of _ "map fr_id (db_focus db)"] by fastforce
    with fresh show ?thesis
      using assms(1) by (simp add: pay_share_def li key_def focus_rows_ok_def paid_def Let_def)
  qed
qed

lemma pay_shares_spec:
  assumes "focus_rows_ok db" and "\<forall>c \<in> set shares. day_at z (dc_first_instant c) = dc_day c"
  shows "focus_rows_ok (fold (pay_share z p k) shares db)
    \<and> paid (fold (pay_share z p k) shares db) d
        = paid db d + sum_list (map dc_seconds (filter (\<lambda>c. dc_day c = d) shares))
    \<and> db_sessions (fold (pay_share z p k) shares db) = db_sessions db
    \<and> db_segments (fold (pay_share z p k) shares db) = db_segments db
    \<and> db_reference (fold (pay_share z p k) shares db) = db_reference db
    \<and> db_awaiting (fold (pay_share z p k) shares db) = db_awaiting db
    \<and> db_subject (fold (pay_share z p k) shares db) = db_subject db"
  using assms
proof (induction shares arbitrary: db)
  case (Cons c shares)
  have "day_at z (dc_first_instant c) = dc_day c" using Cons.prems(2) by simp
  then show ?case
    using pay_share_spec [OF Cons.prems(1), where z = z and share = c and p = p and k = k and d = d]
      Cons.IH [of "pay_share z p k c db"] Cons.prems(2) by simp
qed simp

end
