(* ===== verification/Session_History.thy ===== *)
theory Session_History
  imports Session_Focus
begin

text \<open>
  Every history of the session tables: sessions and segments opened, touched, closed and recovered
  in any order, each close paying its focus rows as it is written. What the rows of a date add up
  to is the measure of that date over the closed segments.
\<close>

section \<open>What the writers keep\<close>

definition row_ok :: "session_db \<Rightarrow> segment_row \<Rightarrow> bool" where
  "row_ok db g \<longleftrightarrow> near (sg_started g) \<and> near (sg_end g) \<and> 0 \<le> sg_credited g
     \<and> sg_signalled g \<noteq> None \<and> find_session db (sg_session g) \<noteq> None"

definition tables_ok :: "session_db \<Rightarrow> bool" where
  "tables_ok db \<longleftrightarrow> distinct (map se_id (db_sessions db)) \<and> distinct (map sg_id (db_segments db))
     \<and> focus_rows_ok db \<and> (\<forall>g \<in> set (db_segments db). row_ok db g)"

definition closed_rows :: "session_db \<Rightarrow> segment_row list" where
  "closed_rows db = filter (\<lambda>g. sg_closed_by g \<noteq> None \<and> in_focus db g) (db_segments db)"

definition closed_cover :: "session_db \<Rightarrow> int set" where
  "closed_cover db = covers (map (\<lambda>g. (sg_started g, sg_end g)) (closed_rows db))"

definition on_day :: "zone \<Rightarrow> int \<Rightarrow> int set" where
  "on_day z d = {t. day_at z t = d}"

text \<open>The projects a close may pay: every one that is not Reference has a subject, and no restored
  record may still match it.\<close>

definition payable :: "session_db \<Rightarrow> bool" where
  "payable db \<longleftrightarrow> (\<forall>p. db_reference db p = Some False \<longrightarrow>
     \<not> db_awaiting db p \<and> db_subject db p \<noteq> None)"

definition owed :: "zone \<Rightarrow> session_db \<Rightarrow> int \<Rightarrow> int" where
  "owed z db d = int (card (on_day z d \<inter> closed_cover db)) - paid db d"

lemma finite_closed_cover [simp]: "finite (closed_cover db)"
  by (simp add: closed_cover_def)

lemma in_focus_signalled:
  "sg_signalled g = Some s \<Longrightarrow> in_focus db g \<longleftrightarrow> of_counted_project db g \<and> s"
  by (simp add: in_focus_def is_counted_def)

lemma closed_cover_eq:
  "closed_cover db = (\<Union>g \<in> set (closed_rows db). {sg_started g..<sg_end g})"
  by (auto simp: closed_cover_def covers_def)

lemma of_counted_project_cong:
  assumes "find_session db' (sg_session g) = find_session db (sg_session g)"
    and "db_reference db' = db_reference db"
  shows "of_counted_project db' g = of_counted_project db g"
  using assms by (simp add: of_counted_project_def split: option.split)

lemma closed_cover_cong:
  assumes "db_sessions db' = db_sessions db" and "db_segments db' = db_segments db"
    and "db_reference db' = db_reference db"
  shows "closed_cover db' = closed_cover db"
proof -
  have "in_focus db' g = in_focus db g" for g
    using assms of_counted_project_cong [of db' g db]
    by (simp add: in_focus_def first_in_session_def find_session_def)
  then show ?thesis using assms(2) by (simp add: closed_cover_eq closed_rows_def)
qed

section \<open>One close\<close>

text \<open>The update of one open row, its id known.\<close>

lemma update_open_rows:
  assumes "distinct (map sg_id (db_segments db))" and "g \<in> set (db_segments db)"
    and "sg_closed_by g = None"
  shows "set (db_segments (update_open (sg_id g) f db)) = insert (f g) (set (db_segments db) - {g})"
proof -
  have "h = g" if "h \<in> set (db_segments db)" "sg_id h = sg_id g" for h
    using assms(1,2) that by (metis distinct_map inj_onD)
  then have "map (\<lambda>h. if sg_id h = sg_id g \<and> sg_closed_by h = None then f h else h) (db_segments db)
      = map (\<lambda>h. if h = g then f g else h) (db_segments db)"
    using assms(3) by (intro map_cong) auto
  then show ?thesis using assms(2) by (auto simp: update_open_def)
qed

lemma update_open_ids:
  "(\<And>g. sg_id (f g) = sg_id g) \<Longrightarrow>
   map sg_id (db_segments (update_open i f db)) = map sg_id (db_segments db)"
  by (auto simp: update_open_def)

lemma update_open_else [simp]:
  "db_sessions (update_open i f db) = db_sessions db"
  "db_focus (update_open i f db) = db_focus db"
  "db_reference (update_open i f db) = db_reference db"
  "db_awaiting (update_open i f db) = db_awaiting db"
  "db_subject (update_open i f db) = db_subject db"
  "find_session (update_open i f db) = find_session db"
  by (simp_all add: update_open_def find_session_def fun_eq_iff)

text \<open>What a closing segment is paid: the seconds of its own interval that no other closed and
  counted one covers, on each day.\<close>

lemma close_pays:
  assumes ok: "tables_ok db" and z: "plain_zone z" and pay: "payable db"
    and g: "g \<in> set (db_segments db)" "sg_closed_by g = None"
    and f: "\<And>h. sg_id (f h) = sg_id h" "sg_session (f g) = sg_session g"
      "sg_signalled (f g) = sg_signalled g" "sg_closed_by (f g) \<noteq> None" and fg: "row_ok db (f g)"
  defines "db' \<equiv> update_open (sg_id g) f db"
  shows "\<exists>db''. credit_segment_close z (sg_id g) db' = Some db'' \<and> focus_rows_ok db''
     \<and> db_sessions db'' = db_sessions db \<and> db_segments db'' = db_segments db'
     \<and> db_reference db'' = db_reference db \<and> db_awaiting db'' = db_awaiting db
     \<and> db_subject db'' = db_subject db \<and> (\<forall>d. owed z db'' d = owed z db d)"
proof -
  define others where "others = set (closed_rows db)"
  define cov where "cov = closed_cover db"
  obtain sig where sig: "sg_signalled g = Some sig"
    using ok g(1) by (auto simp: tables_ok_def row_ok_def)
  have rows: "set (db_segments db') = insert (f g) (set (db_segments db) - {g})"
    unfolding db'_def by (rule update_open_rows) (use ok g in \<open>simp_all add: tables_ok_def\<close>)
  have dist: "distinct (map sg_id (db_segments db'))"
    using ok f(1) by (simp add: db'_def update_open_ids tables_ok_def)
  have proj: "of_counted_project db' h = of_counted_project db h" for h
    by (rule of_counted_project_cong) (simp_all add: db'_def)
  have same: "db_awaiting db' = db_awaiting db" "db_subject db' = db_subject db"
    "db_sessions db' = db_sessions db" "db_reference db' = db_reference db" "db_focus db' = db_focus db"
    by (simp_all add: db'_def)
  have projg: "of_counted_project db' (f g) = of_counted_project db g"
    unfolding proj by (simp add: of_counted_project_def f(2))
  have foc: "in_focus db' h = in_focus db h" if "h \<in> set (db_segments db)" for h
    using that ok in_focus_signalled proj by (fastforce simp: tables_ok_def row_ok_def)
  have focg: "in_focus db' (f g) \<longleftrightarrow> of_counted_project db g \<and> sig"
    using in_focus_signalled [of "f g" sig db'] f(3) sig projg by simp
  have closed': "set (closed_rows db') = others \<union> (if in_focus db' (f g) then {f g} else {})"
    using rows foc f(4) g by (auto simp: closed_rows_def others_def)
  have cov': "closed_cover db' = cov \<union> (if in_focus db' (f g) then {sg_started (f g)..<sg_end (f g)} else {})"
    unfolding closed_cover_eq closed' cov_def others_def by auto
  have find: "find (\<lambda>h. sg_id h = sg_id g) (db_segments db') = Some (f g)"
  proof -
    have "f g \<in> set (db_segments db')" using rows by simp
    then obtain h where h: "find (\<lambda>h. sg_id h = sg_id g) (db_segments db') = Some h"
      using f(1) find_None_iff [of "\<lambda>h. sg_id h = sg_id g" "db_segments db'"] by fastforce
    then have "h \<in> set (db_segments db')" "sg_id h = sg_id (f g)"
      using f(1) by (auto simp: find_Some_iff)
    then have "h = f g" using dist \<open>f g \<in> set (db_segments db')\<close> by (metis distinct_map inj_onD)
    then show ?thesis using h by simp
  qed
  have listed: "set (counted db' a b) = (\<lambda>h. \<lparr>ct_id = sg_id h, ct_start = sg_started h,
      ct_end = sg_end h, ct_closed = (sg_closed_by h \<noteq> None)\<rparr>)
      ` {h \<in> set (db_segments db'). in_focus db' h \<and> sg_started h < b \<and> sg_end h > a}" for a b
    by (auto simp: counted_def)
  show ?thesis
  proof (cases "in_focus db' (f g) \<and> 0 < sg_credited (f g)")
    case True
    define start till where "start = sg_started (f g)" and "till = sg_end (f g)"
    define cover where "cover = union_spans (map (\<lambda>c. (ct_start c, ct_end c))
      (filter (\<lambda>c. ct_closed c \<and> ct_id c \<noteq> sg_id g) (counted db' start till)))"
    have "start < till" using True by (simp add: start_def till_def sg_end_def)
    have nears: "near start" "near (till - 1)"
      using fg \<open>start < till\<close> by (auto simp: row_ok_def start_def till_def near_def)
    have "list_ex (\<lambda>c. ct_id c = sg_id g) (counted db' start till)"
      unfolding list_ex_iff listed using rows True \<open>start < till\<close> f(1)
      by (auto simp: start_def till_def)
    then have marg: "marginal_seconds db' z (sg_id g)
        = shares_loop z start till cover (day_at z start) []"
      by (simp add: marginal_seconds_def find Let_def cover_def start_def till_def li_day_def zone_at_def)
    have meets: "covers (map (\<lambda>c. (ct_start c, ct_end c)) cs)
        = (\<Union>c \<in> set cs. {ct_start c..<ct_end c})" for cs :: "counted_row list"
      by (auto simp: covers_def)
    have eq: "covers cover \<inter> {start..<till} = cov \<inter> {start..<till}"
    proof -
      have cc: "covers cover = (\<Union>h \<in> {h \<in> set (db_segments db'). in_focus db' h \<and> sg_started h < till
          \<and> sg_end h > start \<and> sg_closed_by h \<noteq> None \<and> sg_id h \<noteq> sg_id g}. {sg_started h..<sg_end h})"
        unfolding cover_def union_covers meets set_filter listed by auto
      have oth: "h \<in> set (db_segments db') \<and> in_focus db' h \<and> sg_closed_by h \<noteq> None \<and> sg_id h \<noteq> sg_id g
          \<longleftrightarrow> h \<in> others" for h
      proof -
        have uniq: "sg_id h \<noteq> sg_id g" if "h \<in> set (db_segments db)" "h \<noteq> g" for h
          using ok that g(1) by (metis distinct_map inj_onD tables_ok_def)
        show ?thesis
        proof
          assume L: "h \<in> set (db_segments db') \<and> in_focus db' h \<and> sg_closed_by h \<noteq> None \<and> sg_id h \<noteq> sg_id g"
          then have "h \<noteq> f g" using f(1) [of g] by metis
          then have "h \<in> set (db_segments db)" using L rows by simp
          then show "h \<in> others" using L foc by (simp add: others_def closed_rows_def)
        next
          assume "h \<in> others"
          then have h: "h \<in> set (db_segments db)" "in_focus db h" "sg_closed_by h \<noteq> None"
            by (simp_all add: others_def closed_rows_def)
          then have "h \<noteq> g" using g(2) by auto
          then show "h \<in> set (db_segments db') \<and> in_focus db' h \<and> sg_closed_by h \<noteq> None \<and> sg_id h \<noteq> sg_id g"
            using h rows foc uniq by simp
        qed
      qed
      have sets: "{h \<in> set (db_segments db'). in_focus db' h \<and> sg_started h < till
          \<and> sg_end h > start \<and> sg_closed_by h \<noteq> None \<and> sg_id h \<noteq> sg_id g}
          = {h \<in> others. sg_started h < till \<and> sg_end h > start}"
        using oth by blast
      have cc': "covers cover = (\<Union>h \<in> {h \<in> others. sg_started h < till \<and> sg_end h > start}.
          {sg_started h..<sg_end h})"
        unfolding cc sets ..
      have cov_un: "cov = (\<Union>h \<in> others. {sg_started h..<sg_end h})"
        unfolding cov_def closed_cover_eq others_def ..
      show ?thesis
      proof (rule set_eqI)
        fix t
        show "t \<in> covers cover \<inter> {start..<till} \<longleftrightarrow> t \<in> cov \<inter> {start..<till}"
          unfolding cc' cov_un Int_iff UN_iff mem_Collect_eq atLeastLessThan_iff
          by (rule iffI; elim conjE bexE; intro conjI bexI; auto)
      qed
    qed
    have "t \<in> covers cover \<longleftrightarrow> t \<in> cov" if "start \<le> t" "t < till" for t
      using arg_cong [OF eq, of "\<lambda>S. t \<in> S"] that by simp
    then have left: "left_on z start till cover d = on_day z d \<inter> {start..<till} - cov" for d
      unfolding left_on_def on_day_def by auto
    obtain shares where sh: "shares_loop z start till cover (day_at z start) [] = Some shares"
        "\<forall>c \<in> set shares. day_at z (dc_first_instant c) = dc_day c"
        "\<And>d. sum_list (map dc_seconds (filter (\<lambda>c. dc_day c = d) shares))
           = int (card (left_on z start till cover d))"
      using shares_on_day [OF z nears \<open>start < till\<close>] union_apart unfolding cover_def by blast
    obtain s where s: "find_session db (sg_session g) = Some s"
        "db_reference db (se_project s) = Some False"
      using True focg by (auto simp: of_counted_project_def split: option.splits)
    then obtain k where k: "db_subject db (se_project s) = Some k" "\<not> db_awaiting db (se_project s)"
      using pay by (auto simp: payable_def)
    have owner: "segment_owner db' (sg_id g) = Some (se_project s)"
      using s f(2) find [unfolded db'_def] by (simp add: segment_owner_def db'_def)
    define db'' where "db'' = fold (pay_share z (se_project s) k) shares db'"
    have credit: "credit_segment_close z (sg_id g) db' = Some db''"
      using k by (simp add: credit_segment_close_def owner marg sh(1) db''_def same)
    have rows_ok': "focus_rows_ok db'" using ok by (simp add: db'_def focus_rows_ok_def tables_ok_def)
    note spec = pay_shares_spec [OF rows_ok' sh(2), where p = "se_project s" and k = k, folded db''_def]
    have owed: "owed z db'' d = owed z db d" for d
    proof -
      have cc: "closed_cover db'' = closed_cover db'"
        using spec [of d] by (intro closed_cover_cong) simp_all
      have "on_day z d \<inter> closed_cover db' = (on_day z d \<inter> cov) \<union> (on_day z d \<inter> {start..<till} - cov)"
        using True unfolding cov' start_def till_def by auto
      also have "card \<dots> = card (on_day z d \<inter> cov) + card (on_day z d \<inter> {start..<till} - cov)"
        by (rule card_Un_disjoint) (auto simp: cov_def)
      finally show ?thesis
        using spec [of d] sh(3) [of d] cc
        by (simp add: owed_def left cov_def same paid_def)
    qed
    have "focus_rows_ok db''" "db_sessions db'' = db_sessions db" "db_segments db'' = db_segments db'"
      "db_reference db'' = db_reference db" "db_awaiting db'' = db_awaiting db"
      "db_subject db'' = db_subject db"
      using spec [of 0] by (simp_all add: same)
    with owed credit show ?thesis by blast
  next
    case False
    have "closed_cover db' = cov" using False fg by (auto simp: cov' sg_end_def row_ok_def)
    then have owed: "owed z db' d = owed z db d" for d
      by (simp add: owed_def cov_def paid_def db'_def)
    have "\<not> list_ex (\<lambda>c. ct_id c = sg_id g) (counted db' (sg_started (f g)) (sg_end (f g)))"
    proof
      assume "list_ex (\<lambda>c. ct_id c = sg_id g) (counted db' (sg_started (f g)) (sg_end (f g)))"
      then obtain h where h: "h \<in> set (db_segments db')" "in_focus db' h" "sg_id h = sg_id (f g)"
          "sg_started h < sg_end (f g)" "sg_end h > sg_started (f g)"
        unfolding list_ex_iff listed using f(1) by auto
      then have "h = f g" using dist rows by (metis distinct_map inj_onD insertI1)
      then show False using h False by (simp add: sg_end_def)
    qed
    then have "marginal_seconds db' z (sg_id g) = Some []"
      by (simp add: marginal_seconds_def find Let_def)
    then have "credit_segment_close z (sg_id g) db' = Some db'"
      by (simp add: credit_segment_close_def split: option.split)
    moreover have "focus_rows_ok db'" using ok by (simp add: db'_def focus_rows_ok_def tables_ok_def)
    ultimately show ?thesis using owed by (auto simp: db'_def)
  qed
qed

section \<open>Histories\<close>

inductive tables_step :: "zone \<Rightarrow> session_db \<Rightarrow> session_db \<Rightarrow> bool" for z where
  session_opened: "open_session db p l t at = Inr (n, db') \<Longrightarrow> tables_step z db db'"
| segment_opened:
    "find_session db s \<noteq> None \<Longrightarrow> near at \<Longrightarrow> open_segment db s at sig = (n, db') \<Longrightarrow>
     tables_step z db db'"
| segment_touched: "near at \<Longrightarrow> tables_step z db (mark_activity db i at)"
| segment_closed:
    "g \<in> set (db_segments db) \<Longrightarrow> sg_closed_by g = None \<Longrightarrow> 0 \<le> cs_credited_seconds c \<Longrightarrow>
     near (sg_started g + cs_credited_seconds c) \<Longrightarrow>
     credit_segment_close z (sg_id g) (close_segment db (sg_id g) c) = Some db' \<Longrightarrow>
     tables_step z db db'"
| segment_recovered:
    "g \<in> set (db_segments db) \<Longrightarrow> sg_closed_by g = None \<Longrightarrow>
     credit_segment_close z (sg_id g) (crash_segment db (sg_id g)) = Some db' \<Longrightarrow>
     tables_step z db db'"
| session_closed: "close_session moved db s e r = Inr (cl, db') \<Longrightarrow> tables_step z db db'"

inductive_cases tables_stepE: "tables_step z db db'"

definition empty_tables :: "session_db \<Rightarrow> bool" where
  "empty_tables db \<longleftrightarrow> db_sessions db = [] \<and> db_segments db = [] \<and> db_focus db = []"

text \<open>What every step keeps, and the balance it keeps with it.\<close>

definition kept :: "zone \<Rightarrow> session_db \<Rightarrow> session_db \<Rightarrow> bool" where
  "kept z db db' \<longleftrightarrow> tables_ok db' \<and> payable db' \<and> (\<forall>d. owed z db' d = owed z db d)"

lemma find_session_append:
  "find_session db s \<noteq> None \<Longrightarrow> find_session (db\<lparr>db_sessions := db_sessions db @ xs\<rparr>) s = find_session db s"
proof -
  have "find P ys \<noteq> None \<Longrightarrow> find P (ys @ xs) = find P ys" for P and ys :: "session_row list"
    by (induction ys) auto
  then show "find_session db s \<noteq> None \<Longrightarrow>
      find_session (db\<lparr>db_sessions := db_sessions db @ xs\<rparr>) s = find_session db s"
    by (simp add: find_session_def)
qed

text \<open>A step that leaves the closed rows, the focus rows and the projects alone.\<close>

lemma quiet_kept:
  assumes "tables_ok db'" and "payable db"
    and "set (closed_rows db') = set (closed_rows db)" and "db_focus db' = db_focus db"
    and "db_reference db' = db_reference db" and "db_awaiting db' = db_awaiting db"
    and "db_subject db' = db_subject db"
  shows "kept z db db'"
  using assms by (simp add: kept_def payable_def owed_def paid_def closed_cover_eq)

lemma in_focus_same_project:
  assumes "map_option se_project (find_session db' (sg_session g)) = map_option se_project (find_session db (sg_session g))"
    and "db_reference db' = db_reference db" and "sg_signalled g \<noteq> None"
  shows "in_focus db' g = in_focus db g"
  using assms by (auto simp: in_focus_def is_counted_def of_counted_project_def split: option.splits)

lemma closed_rows_quiet:
  assumes "tables_ok db" and "db_reference db' = db_reference db"
    and "\<And>g. g \<in> set (db_segments db) \<Longrightarrow> map_option se_project (find_session db' (sg_session g))
            = map_option se_project (find_session db (sg_session g))"
    and "set (filter (\<lambda>g. sg_closed_by g \<noteq> None) (db_segments db'))
       = set (filter (\<lambda>g. sg_closed_by g \<noteq> None) (db_segments db))"
  shows "set (closed_rows db') = set (closed_rows db)"
proof -
  have "in_focus db' g = in_focus db g" if "g \<in> set (db_segments db)" for g
    using assms(1) that by (intro in_focus_same_project assms(2,3)) (auto simp: tables_ok_def row_ok_def)
  then show ?thesis
    using assms(4) unfolding closed_rows_def by (auto simp: set_eq_iff)
qed

lemma open_session_kept:
  assumes "tables_ok db" and "payable db" and "open_session db p l t at = Inr (n, db')"
  shows "kept z db db'"
proof -
  define row where "row = \<lparr>se_id = n, se_project = p, se_location = l, se_target = t,
    se_started = at, se_ended = None, se_credited = 0, se_reason = None\<rparr>"
  have n: "n = next_id (map se_id (db_sessions db))" and db': "db' = db\<lparr>db_sessions := db_sessions db @ [row]\<rparr>"
    using assms(3) by (auto simp: open_session_def row_def Let_def split: if_splits)
  have fresh: "n \<notin> se_id ` set (db_sessions db)"
    using next_id_fresh [of n "map se_id (db_sessions db)"] n by auto
  have found: "find_session db' (sg_session g) = find_session db (sg_session g)"
    if "g \<in> set (db_segments db)" for g
    unfolding db' by (rule find_session_append) (use assms(1) that in \<open>auto simp: tables_ok_def row_ok_def\<close>)
  have "row_ok db' g" if "g \<in> set (db_segments db)" for g
    using assms(1) that found [OF that] by (simp add: tables_ok_def row_ok_def)
  then have "tables_ok db'"
    using assms(1) fresh by (simp add: db' tables_ok_def focus_rows_ok_def row_def)
  then show ?thesis
    using assms(2) closed_rows_quiet [OF assms(1), of db'] found
    by (intro quiet_kept) (simp_all add: db')
qed

lemma open_segment_kept:
  assumes "tables_ok db" and "payable db" and "find_session db s \<noteq> None" and "near at"
    and "open_segment db s at sig = (n, db')"
  shows "kept z db db'"
proof -
  define row where "row = \<lparr>sg_id = n, sg_session = s, sg_started = at, sg_ended = None,
    sg_credited = 0, sg_closed_by = None, sg_signalled = Some sig\<rparr>"
  have n: "n = next_id (map sg_id (db_segments db))" and db': "db' = db\<lparr>db_segments := db_segments db @ [row]\<rparr>"
    using assms(5) by (auto simp: open_segment_def row_def Let_def)
  have fresh: "n \<notin> sg_id ` set (db_segments db)"
    using next_id_fresh [of n "map sg_id (db_segments db)"] n by auto
  have fs: "find_session db' = find_session db" by (simp add: db' find_session_def fun_eq_iff)
  have "row_ok db' row" using assms(3,4) fs by (simp add: row_ok_def row_def sg_end_def)
  moreover have "row_ok db' g" if "g \<in> set (db_segments db)" for g
    using assms(1) that fs by (simp add: tables_ok_def row_ok_def)
  ultimately have "tables_ok db'"
    using assms(1) fresh by (auto simp: db' tables_ok_def focus_rows_ok_def row_def)
  then show ?thesis
    using assms(2) closed_rows_quiet [OF assms(1), of db'] fs
    by (intro quiet_kept) (auto simp: db' row_def)
qed

lemma mark_activity_kept:
  assumes "tables_ok db" and "payable db" and "near at"
  shows "kept z db (mark_activity db i at)"
proof -
  define f where "f g = g\<lparr>sg_credited := max (max (at - sg_started g) 0) (sg_credited g),
      sg_signalled := Some True\<rparr>" for g :: segment_row
  define db' where "db' = update_open i f db"
  have row: "row_ok db' (f g)" if "row_ok db g" for g
    using that assms(3) by (auto simp: row_ok_def f_def sg_end_def near_def db'_def)
  have keep: "row_ok db' g" if "row_ok db g" for g
    using that by (simp add: row_ok_def db'_def)
  have "map sg_id (db_segments db') = map sg_id (db_segments db)"
    unfolding db'_def by (rule update_open_ids) (simp add: f_def)
  moreover have "\<forall>g \<in> set (db_segments db'). row_ok db' g"
    using assms(1) row keep by (auto simp: tables_ok_def db'_def update_open_def)
  ultimately have "tables_ok db'"
    using assms(1) by (simp add: tables_ok_def focus_rows_ok_def db'_def)
  moreover have "filter (\<lambda>g. sg_closed_by g \<noteq> None) (db_segments db')
      = filter (\<lambda>g. sg_closed_by g \<noteq> None) (db_segments db)"
  proof -
    have "filter (\<lambda>g. sg_closed_by g \<noteq> None)
        (map (\<lambda>g. if sg_id g = i \<and> sg_closed_by g = None then f g else g) gs)
        = filter (\<lambda>g. sg_closed_by g \<noteq> None) gs" for gs
      by (induction gs) (auto simp: f_def)
    then show ?thesis by (simp add: db'_def update_open_def)
  qed
  ultimately have "kept z db db'"
    using assms(2) closed_rows_quiet [OF assms(1), of db'] by (intro quiet_kept) (simp_all add: db'_def)
  then show ?thesis by (simp add: mark_activity_def db'_def f_def [abs_def])
qed

lemma close_session_kept:
  assumes "tables_ok db" and "payable db" and "close_session moved db s e r = Inr (cl, db')"
  shows "kept z db db'"
proof -
  obtain f where db': "db' = update_session s f db" and f: "\<And>x. se_id (f x) = se_id x"
      "\<And>x. se_project (f x) = se_project x"
    using assms(3) by (fastforce simp: close_session_def Let_def split: option.splits)
  define h where "h x = (if se_id x = s \<and> se_ended x = None then f x else x)" for x
  have h: "se_id (h x) = se_id x" "se_project (h x) = se_project x" for x by (simp_all add: h_def f)
  have "find (\<lambda>x. se_id x = k) (map h xs) = map_option h (find (\<lambda>x. se_id x = k) xs)" for k xs
    by (induction xs) (simp_all add: h)
  then have fs: "find_session db' k = map_option h (find_session db k)" for k
    by (simp add: db' find_session_def update_session_def h_def [abs_def])
  have "map se_id (db_sessions db') = map se_id (db_sessions db)"
    by (simp add: db' update_session_def f)
  moreover have "\<forall>g \<in> set (db_segments db'). row_ok db' g"
    using assms(1) by (auto simp: tables_ok_def row_ok_def fs) (simp_all add: db' update_session_def)
  ultimately have "tables_ok db'"
    using assms(1) by (simp add: tables_ok_def focus_rows_ok_def) (simp add: db' update_session_def)
  moreover have "map_option se_project (find_session db' k) = map_option se_project (find_session db k)" for k
    by (cases "find_session db k") (simp_all add: fs h)
  ultimately show ?thesis
    using assms(2) closed_rows_quiet [OF assms(1), of db']
    by (intro quiet_kept) (simp_all add: db' update_session_def)
qed

text \<open>A close and a recovery: the row is closed, and what it is owed is paid.\<close>

lemma closing_kept:
  assumes ok: "tables_ok db" and z: "plain_zone z" and pay: "payable db"
    and g: "g \<in> set (db_segments db)" "sg_closed_by g = None"
    and f: "\<And>h. sg_id (f h) = sg_id h" "sg_session (f g) = sg_session g"
      "sg_signalled (f g) = sg_signalled g" "sg_closed_by (f g) \<noteq> None" and fg: "row_ok db (f g)"
  shows "\<exists>db'. credit_segment_close z (sg_id g) (update_open (sg_id g) f db) = Some db' \<and> kept z db db'"
proof -
  define db1 where "db1 = update_open (sg_id g) f db"
  obtain db' where db': "credit_segment_close z (sg_id g) db1 = Some db'" "focus_rows_ok db'"
      "db_sessions db' = db_sessions db" "db_segments db' = db_segments db1"
      "db_reference db' = db_reference db" "db_awaiting db' = db_awaiting db"
      "db_subject db' = db_subject db" "\<forall>d. owed z db' d = owed z db d"
    using close_pays [OF ok z pay g f fg] unfolding db1_def by blast
  have rows: "set (db_segments db1) = insert (f g) (set (db_segments db) - {g})"
    unfolding db1_def by (rule update_open_rows) (use ok g in \<open>simp_all add: tables_ok_def\<close>)
  have "row_ok db' h" if "row_ok db h" for h
    using that by (simp add: row_ok_def find_session_def db'(3))
  then have "\<forall>h \<in> set (db_segments db'). row_ok db' h"
    using ok fg rows by (auto simp: tables_ok_def db'(4))
  moreover have "map sg_id (db_segments db') = map sg_id (db_segments db)"
    unfolding db'(4) db1_def by (rule update_open_ids) (rule f(1))
  ultimately have "kept z db db'"
    using ok pay db' by (simp add: kept_def tables_ok_def payable_def)
  then show ?thesis using db'(1) by (auto simp: db1_def)
qed

lemma close_returns:
  assumes "tables_ok db" and "plain_zone z" and "payable db"
    and "g \<in> set (db_segments db)" "sg_closed_by g = None"
    and "0 \<le> cs_credited_seconds c" "near (sg_started g + cs_credited_seconds c)"
  shows "\<exists>db'. credit_segment_close z (sg_id g) (close_segment db (sg_id g) c) = Some db' \<and> kept z db db'"
  unfolding close_segment_def
  using assms by (intro closing_kept) (auto simp: tables_ok_def row_ok_def sg_end_def)

lemma recovery_returns:
  assumes "tables_ok db" and "plain_zone z" and "payable db"
    and "g \<in> set (db_segments db)" "sg_closed_by g = None"
  shows "\<exists>db'. credit_segment_close z (sg_id g) (crash_segment db (sg_id g)) = Some db' \<and> kept z db db'"
  unfolding crash_segment_def
  using assms by (intro closing_kept) (auto simp: tables_ok_def row_ok_def sg_end_def)

lemma tables_step_kept:
  assumes "tables_step z db db'" and "plain_zone z" and "tables_ok db" and "payable db"
  shows "kept z db db'"
  using assms(1)
proof (cases rule: tables_step.cases)
  case session_opened
  then show ?thesis using open_session_kept assms by blast
next
  case segment_opened
  then show ?thesis using open_segment_kept assms by blast
next
  case segment_touched
  then show ?thesis using mark_activity_kept assms by blast
next
  case (segment_closed g c)
  then show ?thesis using close_returns [OF assms(3,2,4)] by fastforce
next
  case (segment_recovered g)
  then show ?thesis using recovery_returns [OF assms(3,2,4)] by fastforce
next
  case session_closed
  then show ?thesis using close_session_kept assms by blast
qed

lemma history_kept:
  assumes "(tables_step z)\<^sup>*\<^sup>* db0 db" and "plain_zone z" and "empty_tables db0" and "payable db0"
  shows "tables_ok db \<and> payable db \<and> (\<forall>d. owed z db d = 0)"
  using assms(1)
proof (induction rule: rtranclp_induct)
  case base
  then show ?case
    using assms(3,4)
    by (auto simp: empty_tables_def tables_ok_def focus_rows_ok_def owed_def paid_def closed_cover_eq closed_rows_def)
next
  case (step db1 db2)
  then have "kept z db1 db2" using tables_step_kept assms(2) by blast
  then show ?case using step.IH by (simp add: kept_def)
qed

text \<open>The measure of a day, read off the tables.\<close>

lemma focus_seconds_spec:
  assumes "plain_zone z" and "day_in_range d"
  shows "focus_seconds db z d now = int (card ({t \<in> on_day z d. t < now} \<inter>
     (\<Union>g \<in> {g \<in> set (db_segments db). in_focus db g}. {sg_started g..<sg_end g})))"
proof -
  obtain a b where ab: "day_bounds z d = (a, b)" by fastforce
  have "a \<le> t \<longleftrightarrow> d \<le> day_at z t" "b \<le> t \<longleftrightarrow> d < day_at z t" for t
    using day_bounds_le_iff [of z d t] assms ab by (simp_all add: plain_zone_def)
  then have day: "t \<in> on_day z d \<longleftrightarrow> a \<le> t \<and> t < b" for t
    by (metis (mono_tags) mem_Collect_eq not_le on_day_def order_antisym_conv order_refl)
  define till where "till = min b now"
  define S where "S = {t \<in> on_day z d. t < now}"
  have S: "S = {a..<till}" by (auto simp: S_def day till_def)
  define U where "U = (\<Union>g \<in> {g \<in> set (db_segments db). in_focus db g}. {sg_started g..<sg_end g})"
  have "focus_seconds db z d now = int (card (S \<inter> U))"
  proof (cases "a \<ge> till")
    case True
    then show ?thesis by (simp add: focus_seconds_def ab till_def [symmetric] Let_def S)
  next
    case False
    define spans where "spans = map (\<lambda>c. (max (ct_start c) a, min (ct_end c) till)) (counted db a till)"
    have "covers spans = (\<Union>g \<in> {g \<in> set (db_segments db). in_focus db g \<and> sg_started g < till \<and> sg_end g > a}.
        {max (sg_started g) a..<min (sg_end g) till})"
      by (auto simp: spans_def covers_def counted_def)
    also have "\<dots> = S \<inter> U"
      unfolding S U_def by (rule set_eqI) (simp, meson le_less_trans)
    finally have "covers spans = S \<inter> U" .
    then show ?thesis
      using span_lengths [OF union_apart, of spans] False
      by (simp add: focus_seconds_def ab till_def [symmetric] Let_def spans_def [symmetric] union_covers)
  qed
  then show ?thesis by (simp add: S_def U_def)
qed

section \<open>Properties\<close>


lemma credit_keeps:
  assumes "credit_segment_close z i db = Some db'"
  shows "db_segments db' = db_segments db" "db_sessions db' = db_sessions db"
    "db_reference db' = db_reference db"
proof -
  have pay: "db_segments (pay_share z p k c db) = db_segments db
      \<and> db_sessions (pay_share z p k c db) = db_sessions db
      \<and> db_reference (pay_share z p k c db) = db_reference db" for p k c db
    by (simp add: pay_share_def Let_def split: option.split)
  have "db_segments (fold (pay_share z p k) cs db) = db_segments db
      \<and> db_sessions (fold (pay_share z p k) cs db) = db_sessions db
      \<and> db_reference (fold (pay_share z p k) cs db) = db_reference db" for p k cs db
    by (induction cs arbitrary: db) (simp_all add: pay)
  then show "db_segments db' = db_segments db" "db_sessions db' = db_sessions db"
    "db_reference db' = db_reference db"
    using assms by (auto simp: credit_segment_close_def split: option.splits if_splits)
qed

text \<open>Ten minutes of the first day of the epoch, in UTC: one session, one touched segment.\<close>

definition demo_tables :: session_db where
  "demo_tables = \<lparr>db_sessions = [], db_segments = [], db_focus = [], db_reference = (\<lambda>_. Some False),
     db_awaiting = (\<lambda>_. False), db_subject = (\<lambda>_. Some ''path:x'')\<rparr>"


end
