(* ===== verification/Session_Manager.thy ===== *)
theory Session_Manager
  imports Session_History Ordered_Map
begin

text \<open>
  The live sessions (\<open>src/core/src/session/manager.rs\<close>) and the recovery of the ones a crash left
  open (\<open>session/orphan.rs\<close>), over the tables. A clock reading is the argument of the call that
  takes it. What the activity filter made of each drained batch, which wait-mode processes have
  finished, and whether a close moved a project's condition are arguments too. A handler's result
  carries the error it returns, with the state as the handler leaves it; the outer \<open>None\<close> is a
  close that does not return.
\<close>

section \<open>The state\<close>

record live =
  lv_project :: int
  lv_location :: "int option"
  lv_machine :: segment_machine
  lv_segment :: "int option"
  lv_launched_mono_ms :: nat
  lv_waiter :: bool

datatype session_event =
    EvStarted session_ref
  | EvSegmentClosed int int closed_segment int
  | EvEnded session_ref

record session_world =
  sw_live :: "(int, live) btree"
  sw_focus :: "(int \<times> nat) option"
  sw_condition_changes :: "int list"
  sw_db :: session_db
  sw_events :: "session_event list"

record launched_session =
  ls_project_id :: int
  ls_location_id :: "int option"
  ls_target_id :: "int option"
  ls_waiter :: bool

type_synonym handled = "(session_error option \<times> session_world) option"

section \<open>Writing an outcome\<close>

text \<open>The statements of one transaction, in order: the tables, the events, the segment the session
  is in afterwards when that changed, whether the condition moved and whether the session ended.\<close>

definition write_closed ::
  "zone \<Rightarrow> int \<Rightarrow> int \<Rightarrow> int option \<Rightarrow> closed_segment \<Rightarrow> session_db \<Rightarrow>
   (session_db \<times> session_event) option"
where
  "write_closed z session project segment closed db =
     map_option (\<lambda>db. (db, EvSegmentClosed session project closed (sum_segments db session)))
       (case segment of
          None \<Rightarrow> Some db
        | Some g \<Rightarrow> credit_segment_close z g (close_segment db g closed))"

definition write_ended ::
  "(session_db \<Rightarrow> int \<Rightarrow> bool) \<Rightarrow> int \<Rightarrow> (int \<times> close_reason) option \<Rightarrow> session_db \<Rightarrow>
   session_error + session_db \<times> session_event list \<times> bool"
where
  "write_ended moved session ended db =
     (case ended of
        None \<Rightarrow> Inr (db, [], False)
      | Some (at, reason) \<Rightarrow>
          (case close_session moved db session at reason of
             Inl e \<Rightarrow> Inl e
           | Inr (closed, db) \<Rightarrow>
               (case session_ref db session of
                  Inl e \<Rightarrow> Inl e
                | Inr r \<Rightarrow> Inr (db, [EvEnded r], sc_condition_changed closed))))"

definition apply_session ::
  "(session_db \<Rightarrow> int \<Rightarrow> bool) \<Rightarrow> zone \<Rightarrow> int \<Rightarrow> segment_outcome \<Rightarrow> session_world \<Rightarrow> handled"
where
  "apply_session moved z session out w =
     (if out = no_outcome then Some (None, w)
      else case map_of (sw_live w) session of
        None \<Rightarrow> Some (None, w)
      | Some lv \<Rightarrow>
          let db = (case (activity_at out, lv_segment lv) of
                      (Some at, Some g) \<Rightarrow> mark_activity (sw_db w) g at | _ \<Rightarrow> sw_db w)
          in Option.bind
               (case closed_segment out of
                  None \<Rightarrow> Some (db, [], None)
                | Some c \<Rightarrow> map_option (\<lambda>(db, ev). (db, [ev], Some None))
                              (write_closed z session (lv_project lv) (lv_segment lv) c db))
               (\<lambda>(db, evs, nxt).
                  let (db, nxt) = (case opened_segment_at out of
                                     None \<Rightarrow> (db, nxt)
                                   | Some at \<Rightarrow> (case open_segment db session at True of
                                                  (g, db) \<Rightarrow> (db, Some (Some g))))
                  in case write_ended moved session (ended_session out) db of
                       Inl e \<Rightarrow> Some (Some e, w)
                     | Inr (db, evs', changed) \<Rightarrow>
                         let live = (case nxt of
                                       None \<Rightarrow> sw_live w
                                     | Some g \<Rightarrow> bt_insert session (lv\<lparr>lv_segment := g\<rparr>) (sw_live w));
                             live = (if ended_session out \<noteq> None then bt_remove session live else live)
                         in Some (None, w\<lparr>sw_db := db, sw_live := live,
                              sw_condition_changes := sw_condition_changes w
                                @ (if changed then [lv_project lv] else []),
                              sw_events := sw_events w @ evs @ evs'\<rparr>)))"

text \<open>A step of one session's machine and the writing of what it produced. A machine that has moved
  stays moved when the write fails.\<close>

definition drive ::
  "(session_db \<Rightarrow> int \<Rightarrow> bool) \<Rightarrow> zone \<Rightarrow> int \<Rightarrow>
   (segment_machine \<Rightarrow> segment_machine \<times> segment_outcome) \<Rightarrow> session_world \<Rightarrow> handled"
where
  "drive moved z session step w =
     (case map_of (sw_live w) session of
        None \<Rightarrow> Some (None, w)
      | Some lv \<Rightarrow>
          (case step (lv_machine lv) of
             (m, out) \<Rightarrow>
               apply_session moved z session out
                 (w\<lparr>sw_live := bt_insert session (lv\<lparr>lv_machine := m\<rparr>) (sw_live w)\<rparr>)))"

fun drive_all :: "(int \<Rightarrow> session_world \<Rightarrow> handled) \<Rightarrow> int list \<Rightarrow> session_world \<Rightarrow> handled" where
  "drive_all f [] w = Some (None, w)"
| "drive_all f (sid # sids) w =
     Option.bind (f sid w) (\<lambda>(err, w). case err of None \<Rightarrow> drive_all f sids w | Some e \<Rightarrow> Some (Some e, w))"

section \<open>The handlers\<close>

definition launch ::
  "tick \<Rightarrow> launched_session \<Rightarrow> session_world \<Rightarrow> (session_error + int) \<times> session_world"
where
  "launch now l w =
     (case sm_open now (ls_waiter l) of
        (m, opened) \<Rightarrow>
          (case open_session (sw_db w) (ls_project_id l) (ls_location_id l) (ls_target_id l) (unix now) of
             Inl e \<Rightarrow> (Inl e, w)
           | Inr (session, db) \<Rightarrow>
               (case open_segment db session
                       (case opened_segment_at opened of Some at \<Rightarrow> at | None \<Rightarrow> unix now) False of
                  (g, db) \<Rightarrow>
                    (case session_ref db session of
                       Inl e \<Rightarrow> (Inl e, w)
                     | Inr started \<Rightarrow>
                         (Inr session,
                          w\<lparr>sw_db := db,
                            sw_live := bt_insert session
                              \<lparr>lv_project = ls_project_id l, lv_location = ls_location_id l,
                               lv_machine = m, lv_segment = Some g,
                               lv_launched_mono_ms = mono_ms now, lv_waiter = ls_waiter l\<rparr> (sw_live w),
                            sw_events := sw_events w @ [EvStarted started]\<rparr>)))))"

definition set_focus :: "nat \<Rightarrow> int option \<Rightarrow> session_world \<Rightarrow> session_world" where
  "set_focus at project w = w\<lparr>sw_focus := map_option (\<lambda>p. (p, at)) project\<rparr>"

definition end_one ::
  "(session_db \<Rightarrow> int \<Rightarrow> bool) \<Rightarrow> zone \<Rightarrow> tick \<Rightarrow> close_reason \<Rightarrow> int \<Rightarrow> session_world \<Rightarrow> handled"
where
  "end_one moved z now reason sid w = drive moved z sid (sm_end now reason) w"

definition stop ::
  "(session_db \<Rightarrow> int \<Rightarrow> bool) \<Rightarrow> zone \<Rightarrow> tick \<Rightarrow> int \<Rightarrow> session_world \<Rightarrow> handled"
where
  "stop moved z now session w = end_one moved z now CrStop session w"

definition location_offline ::
  "(session_db \<Rightarrow> int \<Rightarrow> bool) \<Rightarrow> zone \<Rightarrow> (int \<Rightarrow> tick) \<Rightarrow> int \<Rightarrow> session_world \<Rightarrow> handled"
where
  "location_offline moved z clock location w =
     drive_all (\<lambda>sid. end_one moved z (clock sid) CrIdle sid)
       (map fst (filter (\<lambda>(_, lv). lv_location lv = Some location) (sw_live w))) w"

definition shutdown ::
  "(session_db \<Rightarrow> int \<Rightarrow> bool) \<Rightarrow> zone \<Rightarrow> (int \<Rightarrow> tick) \<Rightarrow> session_world \<Rightarrow> handled"
where
  "shutdown moved z clock w =
     drive_all (\<lambda>sid. end_one moved z (clock sid) CrAppExit sid) (map fst (sw_live w)) w"

text \<open>The signals of one tick: what the worktrees did, then the focus, for the sessions of the
  focused project the launch of which it does not precede.\<close>

definition batch_signals :: "(int, live) btree \<Rightarrow> (int \<times> signal) list \<Rightarrow> int \<Rightarrow> signal option" where
  "batch_signals live batches =
     fold (\<lambda>(session, sig) signals.
             if map_of live session = None \<or> sig = NoSignal then signals
             else signals(session \<mapsto> sig)) batches (\<lambda>_. None)"

definition focus_claims :: "tick \<Rightarrow> session_world \<Rightarrow> live \<Rightarrow> bool" where
  "focus_claims now w lv \<longleftrightarrow>
     (case sw_focus w of
        None \<Rightarrow> False
      | Some (project, reported_at) \<Rightarrow>
          mono_ms now - reported_at < FOCUS_STALE_MS
          \<and> lv_project lv = project \<and> reported_at \<ge> lv_launched_mono_ms lv)"

definition signal_of :: "tick \<Rightarrow> (int \<times> signal) list \<Rightarrow> session_world \<Rightarrow> int \<Rightarrow> signal" where
  "signal_of now batches w sid =
     (case batch_signals (sw_live w) batches sid of
        Some sig \<Rightarrow> sig
      | None \<Rightarrow>
          (case map_of (sw_live w) sid of
             Some lv \<Rightarrow> if focus_claims now w lv then OwnView else NoSignal
           | None \<Rightarrow> NoSignal))"

definition finish_waiter ::
  "(session_db \<Rightarrow> int \<Rightarrow> bool) \<Rightarrow> zone \<Rightarrow> tick \<Rightarrow> (int \<Rightarrow> bool) \<Rightarrow> int \<Rightarrow> session_world \<Rightarrow> handled"
where
  "finish_waiter moved z now finished sid w =
     (case map_of (sw_live w) sid of
        None \<Rightarrow> Some (None, w)
      | Some lv \<Rightarrow>
          if \<not> (lv_waiter lv \<and> finished sid) then Some (None, w)
          else drive moved z sid (sm_end now CrProcessExit)
                 (w\<lparr>sw_live := bt_insert sid (lv\<lparr>lv_waiter := False\<rparr>) (sw_live w)\<rparr>))"

definition manager_tick ::
  "(session_db \<Rightarrow> int \<Rightarrow> bool) \<Rightarrow> zone \<Rightarrow> tick \<Rightarrow> (int \<times> signal) list \<Rightarrow> (int \<Rightarrow> bool) \<Rightarrow>
   session_world \<Rightarrow> handled"
where
  "manager_tick moved z now batches finished w =
     Option.bind
       (drive_all (\<lambda>sid. drive moved z sid (observe now (signal_of now batches w sid)))
          (map fst (sw_live w)) w)
       (\<lambda>(err, w). case err of
          Some e \<Rightarrow> Some (Some e, w)
        | None \<Rightarrow> drive_all (finish_waiter moved z now finished) (map fst (sw_live w)) w)"

section \<open>Recovery\<close>

record orphan_report =
  or_sessions_closed :: nat
  or_segments_closed :: nat
  or_credited_seconds :: int

fun close_orphan_segments :: "zone \<Rightarrow> int list \<Rightarrow> nat \<times> session_db \<Rightarrow> (nat \<times> session_db) option" where
  "close_orphan_segments z [] (n, db) = Some (n, db)"
| "close_orphan_segments z (g # gs) (n, db) =
     (let rows = length (filter (\<lambda>h. sg_id h = g \<and> sg_closed_by h = None) (db_segments db))
      in Option.bind (credit_segment_close z g (crash_segment db g))
           (\<lambda>db. close_orphan_segments z gs (n + rows, db)))"

definition latest_end :: "session_db \<Rightarrow> int \<Rightarrow> int option" where
  "latest_end db session =
     (case List.map_filter sg_ended (filter (\<lambda>g. sg_session g = session) (db_segments db)) of
        [] \<Rightarrow> None | e # es \<Rightarrow> Some (fold max es e))"

definition close_orphan ::
  "zone \<Rightarrow> session_row \<Rightarrow> orphan_report \<times> session_db \<Rightarrow> (orphan_report \<times> session_db) option"
where
  "close_orphan z s = (\<lambda>(report, db).
     map_option (\<lambda>(n, db).
         let credited = sum_segments db (se_id s);
             ended_at = max (case latest_end db (se_id s) of Some e \<Rightarrow> e | None \<Rightarrow> se_started s)
                            (se_started s)
         in (report\<lparr>or_sessions_closed := or_sessions_closed report + 1, or_segments_closed := n,
                    or_credited_seconds := sat_i64 (or_credited_seconds report + credited)\<rparr>,
             update_session (se_id s)
              (\<lambda>s. s\<lparr>se_ended := Some ended_at, se_reason := Some CrOrphaned,
                    se_credited := credited\<rparr>) db))
       (close_orphan_segments z
          (map sg_id (filter (\<lambda>g. sg_session g = se_id s \<and> sg_closed_by g = None) (db_segments db)))
          (or_segments_closed report, db)))"

fun close_orphans_loop ::
  "zone \<Rightarrow> session_row list \<Rightarrow> orphan_report \<times> session_db \<Rightarrow> (orphan_report \<times> session_db) option"
where
  "close_orphans_loop z [] rdb = Some rdb"
| "close_orphans_loop z (s # ss) rdb = Option.bind (close_orphan z s rdb) (close_orphans_loop z ss)"

definition close_orphans :: "zone \<Rightarrow> session_db \<Rightarrow> (orphan_report \<times> session_db) option" where
  "close_orphans z db =
     close_orphans_loop z (filter (\<lambda>s. se_ended s = None) (db_sessions db))
       (\<lparr>or_sessions_closed = 0, or_segments_closed = 0, or_credited_seconds = 0\<rparr>, db)"

end
