(* ===== verification/Session_Lifecycle.thy ===== *)
theory Session_Lifecycle
  imports Session_Manager
begin

text \<open>
  The live sessions and the tables in step. The tables are seen through a map from each session
  that has not ended to its open segment, if it has one; one lemma per writer says what it does to
  that view, and the handlers are followed through it.
\<close>

section \<open>The tables seen from the live sessions\<close>

type_synonym open_view = "int \<Rightarrow> (int \<times> int) option option"

definition session_facts :: "session_db \<Rightarrow> int \<Rightarrow> (int \<times> int option \<times> int option) option" where
  "session_facts db k = map_option (\<lambda>s. (se_project s, se_location s, se_target s)) (find_session db k)"

definition in_step :: "open_view \<Rightarrow> session_db \<Rightarrow> bool" where
  "in_step A db \<longleftrightarrow> tables_ok db
     \<and> (\<forall>s \<in> set (db_sessions db). se_ended s = None \<longleftrightarrow> A (se_id s) \<noteq> None)
     \<and> (\<forall>k. A k \<noteq> None \<longrightarrow> find_session db k \<noteq> None)
     \<and> (\<forall>s \<in> set (db_sessions db). se_ended s \<noteq> None \<longrightarrow> se_credited s = sum_segments db (se_id s))
     \<and> (\<forall>g \<in> set (db_segments db). sg_closed_by g = None \<longrightarrow>
          A (sg_session g) = Some (Some (sg_id g, sg_started g)))
     \<and> (\<forall>k i t. A k = Some (Some (i, t)) \<longrightarrow>
          (\<exists>g \<in> set (db_segments db). sg_id g = i \<and> sg_session g = k \<and> sg_started g = t
             \<and> sg_closed_by g = None))"

lemma in_stepD:
  assumes "in_step A db"
  shows "tables_ok db"
    and "s \<in> set (db_sessions db) \<Longrightarrow> se_ended s = None \<longleftrightarrow> A (se_id s) \<noteq> None"
    and "A k \<noteq> None \<Longrightarrow> find_session db k \<noteq> None"
    and "s \<in> set (db_sessions db) \<Longrightarrow> se_ended s \<noteq> None \<Longrightarrow> se_credited s = sum_segments db (se_id s)"
    and "g \<in> set (db_segments db) \<Longrightarrow> sg_closed_by g = None \<Longrightarrow>
      A (sg_session g) = Some (Some (sg_id g, sg_started g))"
    and "A k = Some (Some (i, t)) \<Longrightarrow> \<exists>g \<in> set (db_segments db). sg_id g = i \<and> sg_session g = k
      \<and> sg_started g = t \<and> sg_closed_by g = None"
  using assms unfolding in_step_def by blast+

lemma find_session_mem:
  "distinct (map se_id (db_sessions db)) \<Longrightarrow> s \<in> set (db_sessions db) \<Longrightarrow> find_session db (se_id s) = Some s"
proof -
  have "distinct (map se_id xs) \<Longrightarrow> s \<in> set xs \<Longrightarrow> find (\<lambda>x. se_id x = se_id s) xs = Some s" for xs
    by (induction xs) auto
  then show "distinct (map se_id (db_sessions db)) \<Longrightarrow> s \<in> set (db_sessions db) \<Longrightarrow>
      find_session db (se_id s) = Some s"
    by (simp add: find_session_def)
qed

lemma find_session_id: "find_session db k = Some s \<Longrightarrow> s \<in> set (db_sessions db) \<and> se_id s = k"
  by (auto simp: find_session_def find_Some_iff)

lemma open_session_in_step:
  assumes inv: "in_step A db" and pay: "payable db" and op: "open_session db p l t at = Inr (n, db')"
  shows "in_step (A(n \<mapsto> None)) db' \<and> A n = None
    \<and> session_facts db' n = Some (p, l, t)
    \<and> (\<forall>k. session_facts db k \<noteq> None \<longrightarrow> session_facts db' k = session_facts db k)"
proof -
  note I = in_stepD [OF inv]
  define row where "row = \<lparr>se_id = n, se_project = p, se_location = l, se_target = t,
    se_started = at, se_ended = None, se_credited = 0, se_reason = None\<rparr>"
  have n: "n = next_id (map se_id (db_sessions db))" and db': "db' = db\<lparr>db_sessions := db_sessions db @ [row]\<rparr>"
    using op by (auto simp: open_session_def row_def Let_def split: if_splits)
  have ok': "tables_ok db'" using open_session_kept [OF I(1) pay op] by (auto simp: kept_def)
  have fresh: "n \<noteq> se_id s" if "s \<in> set (db_sessions db)" for s
    using next_id_fresh [of "se_id s" "map se_id (db_sessions db)"] n that by fastforce
  then have none: "find_session db n = None" using find_session_id [of db n] by (cases "find_session db n") auto
  then have An: "A n = None" using I(3) by blast
  have old: "find_session db' k = find_session db k" if "find_session db k \<noteq> None" for k
    unfolding db' using that by (rule find_session_append)
  have new: "find_session db' n = Some row"
    using find_session_mem [of db' row] ok' by (simp add: tables_ok_def db' row_def)
  have sums: "sum_segments db' k = sum_segments db k" for k by (simp add: sum_segments_def db')
  have rows: "set (db_sessions db') = insert row (set (db_sessions db))" "db_segments db' = db_segments db"
    by (auto simp: db')
  have noseg: "sg_session g \<noteq> n" if "g \<in> set (db_segments db)" for g
    using I(1) that none by (auto simp: tables_ok_def row_ok_def)
  have "in_step (A(n \<mapsto> None)) db'"
    unfolding in_step_def rows sums
  proof (intro conjI ballI allI impI)
    show "tables_ok db'" by (rule ok')
    show "(se_ended s = None) = ((A(n \<mapsto> None)) (se_id s) \<noteq> None)" if "s \<in> insert row (set (db_sessions db))" for s
      using that I(2) [of s] fresh [of s] by (auto simp: row_def)
    show "find_session db' k \<noteq> None" if "(A(n \<mapsto> None)) k \<noteq> None" for k
      using that I(3) [of k] old [of k] new by (auto split: if_splits)
    show "se_credited s = sum_segments db (se_id s)" if "s \<in> insert row (set (db_sessions db))" "se_ended s \<noteq> None" for s
      using that I(4) by (auto simp: row_def)
    show "(A(n \<mapsto> None)) (sg_session g) = Some (Some (sg_id g, sg_started g))"
      if "g \<in> set (db_segments db)" "sg_closed_by g = None" for g
      using that I(5) [of g] noseg by simp
    show "\<exists>g \<in> set (db_segments db). sg_id g = i \<and> sg_session g = k \<and> sg_started g = t \<and> sg_closed_by g = None"
      if "(A(n \<mapsto> None)) k = Some (Some (i, t))" for k i t
      using that I(6) [of k i t] by (auto split: if_splits)
  qed
  moreover have "session_facts db' n = Some (p, l, t)" by (simp add: session_facts_def new row_def)
  moreover have "\<forall>k. session_facts db k \<noteq> None \<longrightarrow> session_facts db' k = session_facts db k"
    using old by (simp add: session_facts_def)
  ultimately show ?thesis using An by blast
qed

lemma open_segment_in_step:
  assumes inv: "in_step A db" and pay: "payable db" and k: "A k = Some None" and "near at"
    and op: "open_segment db k at sig = (n, db')"
  shows "in_step (A(k \<mapsto> Some (n, at))) db' \<and> session_facts db' = session_facts db"
proof -
  note I = in_stepD [OF inv]
  define row where "row = \<lparr>sg_id = n, sg_session = k, sg_started = at, sg_ended = None,
    sg_credited = 0, sg_closed_by = None, sg_signalled = Some sig\<rparr>"
  have n: "n = next_id (map sg_id (db_segments db))" and db': "db' = db\<lparr>db_segments := db_segments db @ [row]\<rparr>"
    using op by (auto simp: open_segment_def row_def Let_def)
  have found: "find_session db k \<noteq> None" using I(3) k by simp
  have ok': "tables_ok db'" using open_segment_kept [OF I(1) pay found assms(4) op] by (simp add: kept_def)
  have fresh: "n \<noteq> sg_id g" if "g \<in> set (db_segments db)" for g
    using next_id_fresh [of "sg_id g" "map sg_id (db_segments db)"] n that by fastforce
  have fs: "find_session db' = find_session db" by (simp add: db' find_session_def fun_eq_iff)
  have sums: "sum_segments db' j = sum_segments db j" for j
    by (simp add: sum_segments_def db' row_def)
  have rows: "set (db_segments db') = insert row (set (db_segments db))" "db_sessions db' = db_sessions db"
    by (auto simp: db')
  have "in_step (A(k \<mapsto> Some (n, at))) db'"
    unfolding in_step_def rows sums fs
  proof (intro conjI ballI allI impI)
    show "tables_ok db'" by (rule ok')
    show "(se_ended s = None) = ((A(k \<mapsto> Some (n, at))) (se_id s) \<noteq> None)" if "s \<in> set (db_sessions db)" for s
      using that I(2) [of s] k by auto
    show "find_session db j \<noteq> None" if "(A(k \<mapsto> Some (n, at))) j \<noteq> None" for j
      using that I(3) [of j] found by (auto split: if_splits)
    show "se_credited s = sum_segments db (se_id s)" if "s \<in> set (db_sessions db)" "se_ended s \<noteq> None" for s
      using that I(4) by blast
    show "(A(k \<mapsto> Some (n, at))) (sg_session g) = Some (Some (sg_id g, sg_started g))"
      if "g \<in> insert row (set (db_segments db))" "sg_closed_by g = None" for g
      using that I(5) [of g] k by (auto simp: row_def)
    show "\<exists>g \<in> insert row (set (db_segments db)). sg_id g = i \<and> sg_session g = j \<and> sg_started g = t
        \<and> sg_closed_by g = None"
      if "(A(k \<mapsto> Some (n, at))) j = Some (Some (i, t))" for j i t
      using that I(6) [of j i t] by (auto simp: row_def split: if_splits)
  qed
  then show ?thesis using fs by (simp add: session_facts_def fun_eq_iff)
qed

text \<open>The update of the open row of a live session, the rest of the tables untouched but for the
  focus rows.\<close>

lemma update_in_step:
  assumes inv: "in_step A db" and k: "A k = Some (Some (i, t))"
    and f: "\<And>g. sg_id (f g) = sg_id g" "\<And>g. sg_session (f g) = sg_session g"
      "\<And>g. sg_started (f g) = sg_started g"
    and ok': "tables_ok db'" and db': "db_segments db' = db_segments (update_open i f db)"
      "db_sessions db' = db_sessions db"
    and A': "(\<forall>g. sg_closed_by (f g) = sg_closed_by g) \<and> A' = A \<or> (\<forall>g. sg_closed_by (f g) \<noteq> None) \<and> A' = A(k \<mapsto> None)"
  shows "in_step A' db' \<and> session_facts db' = session_facts db"
proof -
  note I = in_stepD [OF inv]
  have fs: "find_session db' = find_session db" by (simp add: find_session_def db'(2) fun_eq_iff)
  obtain g0 where g0: "g0 \<in> set (db_segments db)" "sg_id g0 = i" "sg_session g0 = k" "sg_started g0 = t"
      "sg_closed_by g0 = None"
    using I(6) [OF k] by blast
  have rows: "set (db_segments db') = insert (f g0) (set (db_segments db) - {g0})"
    unfolding db'(1) g0(2) [symmetric]
    by (rule update_open_rows) (use I(1) g0 in \<open>simp_all add: tables_ok_def\<close>)
  have own: "g = g0" if "g \<in> set (db_segments db)" "sg_closed_by g = None" "sg_session g = k" for g
  proof -
    have "sg_id g = i" using I(5) [OF that(1,2)] that(3) k by simp
    then show ?thesis using I(1) g0(1,2) that(1) by (metis distinct_map inj_onD tables_ok_def)
  qed
  have sums: "sum_segments db' j = sum_segments db j" if "j \<noteq> k" for j
  proof -
    have other: "sg_session g \<noteq> j" if "g \<in> set (db_segments db)" "sg_id g = i" for g
      using that g0 I(1) \<open>j \<noteq> k\<close> by (metis distinct_map inj_onD tables_ok_def)
    have "map sg_credited (filter (\<lambda>g. sg_session g = j)
          (map (\<lambda>g. if sg_id g = i \<and> sg_closed_by g = None then f g else g) gs))
        = map sg_credited (filter (\<lambda>g. sg_session g = j) gs)" if "set gs \<subseteq> set (db_segments db)" for gs
      using that by (induction gs) (auto simp: f other)
    then show ?thesis by (simp add: sum_segments_def db'(1) update_open_def)
  qed
  have sess: "A' j = None \<longleftrightarrow> A j = None" for j using A' k by (cases "j = k") auto
  have "in_step A' db'"
    unfolding in_step_def rows db'(2) fs
  proof (intro conjI ballI allI impI)
    show "tables_ok db'" by (rule ok')
    show "(se_ended s = None) = (A' (se_id s) \<noteq> None)" if "s \<in> set (db_sessions db)" for s
      using I(2) [OF that] sess by simp
    show "find_session db j \<noteq> None" if "A' j \<noteq> None" for j using I(3) [of j] sess [of j] that by simp
    show "se_credited s = sum_segments db' (se_id s)" if "s \<in> set (db_sessions db)" "se_ended s \<noteq> None" for s
    proof -
      have "se_id s \<noteq> k" using I(2) [OF that(1)] that(2) k by auto
      then show ?thesis using I(4) [OF that] sums by simp
    qed
    show "A' (sg_session g) = Some (Some (sg_id g, sg_started g))"
      if "g \<in> insert (f g0) (set (db_segments db) - {g0})" "sg_closed_by g = None" for g
    proof (cases "g = f g0")
      case True
      then have "A' = A" using A' that(2) by metis
      then show ?thesis using True I(5) [OF g0(1,5)] by (simp add: f)
    next
      case False
      then have g: "g \<in> set (db_segments db)" "g \<noteq> g0" using that(1) by auto
      then have "sg_session g \<noteq> k" using own that(2) by blast
      then show ?thesis using I(5) [OF g(1) that(2)] A' by auto
    qed
    show "\<exists>g \<in> insert (f g0) (set (db_segments db) - {g0}). sg_id g = i' \<and> sg_session g = j
        \<and> sg_started g = t' \<and> sg_closed_by g = None" if "A' j = Some (Some (i', t'))" for j i' t'
    proof (cases "j = k")
      case True
      then have "A' = A" "sg_closed_by (f g0) = None" using A' that g0(5) by auto
      then show ?thesis using that True k g0 by (simp add: f)
    next
      case False
      then have "A j = Some (Some (i', t'))" using A' that by auto
      then obtain g where "g \<in> set (db_segments db)" "sg_id g = i'" "sg_session g = j"
          "sg_started g = t'" "sg_closed_by g = None" using I(6) by blast
      moreover have "g \<noteq> g0" using False g0(3) calculation(3) by auto
      ultimately show ?thesis by blast
    qed
  qed
  then show ?thesis using fs by (simp add: session_facts_def fun_eq_iff)
qed

lemma mark_in_step:
  assumes "in_step A db" and "payable db" and "A k = Some (Some (i, t))" and "near at"
  shows "in_step A (mark_activity db i at) \<and> session_facts (mark_activity db i at) = session_facts db"
proof -
  have ok: "tables_ok (mark_activity db i at)"
    using mark_activity_kept [of db at z i for z] assms by (auto simp: kept_def dest: in_stepD(1))
  show ?thesis
    by (rule update_in_step [where f = "\<lambda>g. g\<lparr>sg_credited := max (max (at - sg_started g) 0) (sg_credited g),
          sg_signalled := Some True\<rparr>", OF assms(1,3) _ _ _ ok])
      (simp_all add: mark_activity_def)
qed

lemma close_in_step:
  assumes inv: "in_step A db" and pay: "payable db" and z: "plain_zone z"
    and k: "A k = Some (Some (i, t))"
    and c: "0 \<le> cs_credited_seconds c" "near (t + cs_credited_seconds c)"
  shows "\<exists>db'. credit_segment_close z i (close_segment db i c) = Some db'
    \<and> in_step (A(k \<mapsto> None)) db' \<and> session_facts db' = session_facts db \<and> payable db'
    \<and> tables_step z db db'"
proof -
  obtain g where g: "g \<in> set (db_segments db)" "sg_id g = i" "sg_started g = t" "sg_closed_by g = None"
    using in_stepD(6) [OF inv k] by blast
  have near: "near (sg_started g + cs_credited_seconds c)" using c(2) g(3) by simp
  obtain db' where db': "credit_segment_close z (sg_id g) (close_segment db (sg_id g) c) = Some db'"
      "kept z db db'"
    using close_returns [OF in_stepD(1) [OF inv] z pay g(1,4) c(1) near] by blast
  have step: "tables_step z db db'" by (rule segment_closed [OF g(1,4) c(1) near db'(1)])
  have ok': "tables_ok db'" and pay': "payable db'" using db'(2) by (simp_all add: kept_def)
  have "in_step (A(k \<mapsto> None)) db' \<and> session_facts db' = session_facts db"
    by (rule update_in_step [where f = "\<lambda>g. g\<lparr>sg_ended := Some (cs_ended_at c),
          sg_credited := cs_credited_seconds c, sg_closed_by := Some (cs_closed_by c)\<rparr>", OF inv k _ _ _ ok'])
      (simp_all add: credit_keeps [OF db'(1)] close_segment_def g(2))
  then show ?thesis using db'(1) pay' step g(2) by auto
qed

lemma recover_in_step:
  assumes inv: "in_step A db" and pay: "payable db" and z: "plain_zone z"
    and k: "A k = Some (Some (i, t))"
  shows "\<exists>db'. credit_segment_close z i (crash_segment db i) = Some db'
    \<and> in_step (A(k \<mapsto> None)) db' \<and> session_facts db' = session_facts db \<and> payable db'
    \<and> tables_step z db db'"
proof -
  obtain g where g: "g \<in> set (db_segments db)" "sg_id g = i" "sg_started g = t" "sg_closed_by g = None"
    using in_stepD(6) [OF inv k] by blast
  obtain db' where db': "credit_segment_close z (sg_id g) (crash_segment db (sg_id g)) = Some db'"
      "kept z db db'"
    using recovery_returns [OF in_stepD(1) [OF inv] z pay g(1,4)] by blast
  have step: "tables_step z db db'" by (rule segment_recovered [OF g(1,4) db'(1)])
  have ok': "tables_ok db'" and pay': "payable db'" using db'(2) by (simp_all add: kept_def)
  have "in_step (A(k \<mapsto> None)) db' \<and> session_facts db' = session_facts db"
    by (rule update_in_step [where f = "\<lambda>g. g\<lparr>sg_ended := Some (sg_started g + sg_credited g),
          sg_closed_by := Some CbCrash\<rparr>", OF inv k _ _ _ ok'])
      (simp_all add: credit_keeps [OF db'(1)] crash_segment_def g(2))
  then show ?thesis using db'(1) pay' step g(2) by auto
qed

lemma end_row_in_step:
  assumes inv: "in_step A db" and pay: "payable db" and k: "A k = Some None"
    and s: "find_session db k = Some s"
    and db': "db' = update_session k (\<lambda>s. s\<lparr>se_ended := Some e, se_reason := Some r,
      se_credited := sum_segments db k\<rparr>) db"
  shows "in_step (A(k := None)) db' \<and> session_facts db' = session_facts db \<and> payable db'
    \<and> find_session db' k = Some (s\<lparr>se_ended := Some e, se_reason := Some r, se_credited := sum_segments db k\<rparr>)"
proof -
  note I = in_stepD [OF inv]
  define h where "h x = (if se_id x = k \<and> se_ended x = None then x\<lparr>se_ended := Some e, se_reason := Some r,
      se_credited := sum_segments db k\<rparr> else x)" for x :: session_row
  have h: "se_id (h x) = se_id x" "se_project (h x) = se_project x" "se_location (h x) = se_location x"
    "se_target (h x) = se_target x" for x by (simp_all add: h_def)
  have rows: "db_sessions db' = map h (db_sessions db)" "db_segments db' = db_segments db"
    by (simp_all add: db' update_session_def h_def [abs_def])
  have "find (\<lambda>x. se_id x = j) (map h xs) = map_option h (find (\<lambda>x. se_id x = j) xs)" for j xs
    by (induction xs) (simp_all add: h)
  then have fs: "find_session db' j = map_option h (find_session db j)" for j
    by (simp add: find_session_def rows)
  have sums: "sum_segments db' j = sum_segments db j" for j by (simp add: sum_segments_def rows)
  have sk: "s \<in> set (db_sessions db)" "se_id s = k" "se_ended s = None"
    using find_session_id [OF s] I(2) [of s] k by auto
  have ok': "tables_ok db'"
  proof -
    have "\<forall>g \<in> set (db_segments db'). row_ok db' g"
      using I(1) by (auto simp: tables_ok_def row_ok_def fs rows)
    moreover have "map se_id (db_sessions db') = map se_id (db_sessions db)" by (simp add: rows h)
    ultimately show ?thesis
      using I(1) by (simp add: tables_ok_def focus_rows_ok_def rows(2)) (simp add: db' update_session_def)
  qed
  have "in_step (A(k := None)) db'"
    unfolding in_step_def sums rows(2)
  proof (intro conjI ballI allI impI)
    show "tables_ok db'" by (rule ok')
    show "(se_ended x = None) = ((A(k := None)) (se_id x) \<noteq> None)" if "x \<in> set (db_sessions db')" for x
      using that I(2) k by (auto simp: rows h_def)
    show "find_session db' j \<noteq> None" if "(A(k := None)) j \<noteq> None" for j
      using that I(3) [of j] by (auto simp: fs split: if_splits)
    show "se_credited x = sum_segments db (se_id x)" if "x \<in> set (db_sessions db')" "se_ended x \<noteq> None" for x
      using that I(4) by (auto simp: rows h_def split: if_splits)
    show "(A(k := None)) (sg_session g) = Some (Some (sg_id g, sg_started g))"
      if "g \<in> set (db_segments db)" "sg_closed_by g = None" for g
      using that I(5) [of g] k by auto
    show "\<exists>g \<in> set (db_segments db). sg_id g = i \<and> sg_session g = j \<and> sg_started g = t \<and> sg_closed_by g = None"
      if "(A(k := None)) j = Some (Some (i, t))" for j i t
      using that I(6) [of j i t] by (auto split: if_splits)
  qed
  moreover have "session_facts db' = session_facts db"
    by (rule ext) (simp add: session_facts_def fs h map_option.compositionality comp_def)
  moreover have "payable db'" using pay by (simp add: payable_def db' update_session_def)
  moreover have "find_session db' k = Some (s\<lparr>se_ended := Some e, se_reason := Some r, se_credited := sum_segments db k\<rparr>)"
    by (simp add: fs s h_def sk)
  ultimately show ?thesis by blast
qed

lemma close_session_in_step:
  assumes inv: "in_step A db" and pay: "payable db" and k: "A k = Some None"
    and facts: "session_facts db k = Some (p, Some l, Some t)"
  shows "\<exists>cl db' rf. close_session moved db k e r = Inr (cl, db') \<and> session_ref db' k = Inr rf
    \<and> in_step (A(k := None)) db' \<and> session_facts db' = session_facts db \<and> payable db'
    \<and> tables_step z db db'"
proof -
  obtain s where s: "find_session db k = Some s" "se_location s = Some l" "se_target s = Some t"
    using facts by (auto simp: session_facts_def)
  define db' where "db' = update_session k (\<lambda>x. x\<lparr>se_ended := Some (max e (se_started s)),
      se_reason := Some r, se_credited := sum_segments db k\<rparr>) db"
  obtain cl where cl: "close_session moved db k e r = Inr (cl, db')"
    by (simp add: close_session_def s Let_def db'_def)
  have D: "in_step (A(k := None)) db' \<and> session_facts db' = session_facts db \<and> payable db'
    \<and> find_session db' k = Some (s\<lparr>se_ended := Some (max e (se_started s)), se_reason := Some r,
        se_credited := sum_segments db k\<rparr>)"
    by (rule end_row_in_step [OF inv pay k s(1)]) (simp add: db'_def)
  obtain rf where "session_ref db' k = Inr rf"
    using D s by (simp add: session_ref_def)
  then show ?thesis using cl D session_closed [OF cl] by blast
qed

section \<open>The manager's invariant\<close>

fun live_view :: "live \<Rightarrow> (int \<times> int) option" where
  "live_view lv = (case sm_phase (lv_machine lv) of
     InSegment t _ _ \<Rightarrow> map_option (\<lambda>i. (i, t)) (lv_segment lv) | _ \<Rightarrow> None)"

fun live_ok :: "live \<Rightarrow> bool" where
  "live_ok lv = (case sm_phase (lv_machine lv) of
     InSegment t l _ \<Rightarrow> lv_segment lv \<noteq> None \<and> near t \<and> near l \<and> t \<le> l
   | Between since _ \<Rightarrow> lv_segment lv = None \<and> near since
   | EndedPhase \<Rightarrow> False)"

definition open_view_of :: "(int, live) btree \<Rightarrow> open_view" where
  "open_view_of live k = map_option live_view (map_of live k)"

definition known :: "session_db \<Rightarrow> int \<Rightarrow> live \<Rightarrow> bool" where
  "known db k lv \<longleftrightarrow> lv_location lv \<noteq> None
     \<and> (\<exists>t. session_facts db k = Some (lv_project lv, lv_location lv, Some t))"

definition world_ok :: "session_world \<Rightarrow> bool" where
  "world_ok w \<longleftrightarrow> bt_ok (sw_live w) \<and> in_step (open_view_of (sw_live w)) (sw_db w) \<and> payable (sw_db w)
     \<and> (\<forall>k lv. map_of (sw_live w) k = Some lv \<longrightarrow> live_ok lv \<and> known (sw_db w) k lv)"

lemma open_view_of_upd:
  "map_of live' = (map_of live)(k \<mapsto> lv) \<Longrightarrow> open_view_of live' = (open_view_of live)(k \<mapsto> live_view lv)"
  "map_of live' = (map_of live)(k := None) \<Longrightarrow> open_view_of live' = (open_view_of live)(k := None)"
  by (simp_all add: open_view_of_def fun_eq_iff)

lemma world_ok_put:
  assumes "world_ok w" and "bt_ok (sw_live w')" and "map_of (sw_live w') = (map_of (sw_live w))(k \<mapsto> lv')"
    and "in_step ((open_view_of (sw_live w))(k \<mapsto> live_view lv')) (sw_db w')" and "payable (sw_db w')"
    and "session_facts (sw_db w') = session_facts (sw_db w)" and "live_ok lv'" and "known (sw_db w) k lv'"
  shows "world_ok w'"
  using assms unfolding world_ok_def known_def open_view_of_upd(1) [OF assms(3)]
  by (auto split: if_splits simp del: live_ok.simps live_view.simps)

lemma world_ok_drop:
  assumes "world_ok w" and "bt_ok (sw_live w')" and "map_of (sw_live w') = (map_of (sw_live w))(k := None)"
    and "in_step ((open_view_of (sw_live w))(k := None)) (sw_db w')" and "payable (sw_db w')"
    and "session_facts (sw_db w') = session_facts (sw_db w)"
  shows "world_ok w'"
  using assms unfolding world_ok_def known_def open_view_of_upd(2) [OF assms(3)]
  by (auto split: if_splits simp del: live_ok.simps live_view.simps)

text \<open>What a handler's call promises: it returns, without an error, in a world that is again in
  step, over tables that got there by their own steps.\<close>

definition moves :: "zone \<Rightarrow> session_world \<Rightarrow> session_world \<Rightarrow> bool" where
  "moves z w w' \<longleftrightarrow> world_ok w' \<and> (tables_step z)\<^sup>*\<^sup>* (sw_db w) (sw_db w') \<and> sw_focus w' = sw_focus w"

text \<open>The outcomes a machine in step can produce, and the machine after each.\<close>

inductive outcome_for :: "tick \<Rightarrow> live \<Rightarrow> segment_machine \<Rightarrow> segment_outcome \<Rightarrow> bool" for now lv where
  idle_none: "outcome_for now lv (lv_machine lv) no_outcome"
| extended: "sm_phase (lv_machine lv) = InSegment t l ms \<Longrightarrow> sm_phase m = InSegment t l' ms' \<Longrightarrow>
    near l' \<Longrightarrow> t \<le> l' \<Longrightarrow> outcome_for now lv m (no_outcome\<lparr>activity_at := Some l'\<rparr>)"
| idle_closed: "sm_phase (lv_machine lv) = InSegment t l ms \<Longrightarrow> sm_phase m = Between e ms' \<Longrightarrow>
    near e \<Longrightarrow> 0 \<le> cs_credited_seconds c \<Longrightarrow> near (t + cs_credited_seconds c) \<Longrightarrow>
    outcome_for now lv m (no_outcome\<lparr>closed_segment := Some c\<rparr>)"
| reopened: "sm_phase (lv_machine lv) = Between since ms \<Longrightarrow> sm_phase m = InSegment t t ms' \<Longrightarrow>
    near t \<Longrightarrow> outcome_for now lv m (no_outcome\<lparr>opened_segment_at := Some t\<rparr>)"
| ended_inside: "sm_phase (lv_machine lv) = InSegment t l ms \<Longrightarrow> sm_phase m = EndedPhase \<Longrightarrow>
    0 \<le> cs_credited_seconds c \<Longrightarrow> near (t + cs_credited_seconds c) \<Longrightarrow>
    outcome_for now lv m (no_outcome\<lparr>closed_segment := Some c, ended_session := Some e\<rparr>)"
| ended_between: "sm_phase (lv_machine lv) = Between since ms \<Longrightarrow> sm_phase m = EndedPhase \<Longrightarrow>
    outcome_for now lv m (no_outcome\<lparr>ended_session := Some e\<rparr>)"

lemma credit_near:
  assumes "near t" and "near e" and "t \<le> e"
  shows "0 \<le> credit t e" and "t + credit t e = e"
  using assms by (auto simp: credit_def near_def sat_i64_def)

lemma observe_outcome:
  assumes "live_ok lv" and "near (unix now)" and "observe now sig (lv_machine lv) = (m, out)"
  shows "outcome_for now lv m out"
proof (cases "sm_phase (lv_machine lv)")
  case (InSegment t l ms)
  then have tl: "near t" "near l" "t \<le> l" using assms(1) by simp_all
  define e where "e = max (min (sat_i64 (l + SEGMENT_IDLE_SECS)) (unix now)) t"
  have e: "near e" "t \<le> e"
    using tl assms(2) by (auto simp: e_def near_def sat_i64_def SEGMENT_IDLE_SECS_def)
  have l': "near (max (unix now) l)" "t \<le> max (unix now) l" using tl assms(2) by (auto simp: near_def)
  consider "sig \<noteq> NoSignal" | "sig = NoSignal" "mono_ms now - ms < SEGMENT_IDLE_MS"
    | "sig = NoSignal" "\<not> mono_ms now - ms < SEGMENT_IDLE_MS" by blast
  then show ?thesis
  proof cases
    case 1
    then have mo: "m = (lv_machine lv)\<lparr>sm_phase := InSegment t (max (unix now) l) (max (mono_ms now) ms)\<rparr>"
        "out = no_outcome\<lparr>activity_at := Some (max (unix now) l)\<rparr>"
      using assms(3) InSegment by (simp_all add: observe_def Let_def)
    show ?thesis unfolding mo(2) by (rule extended [OF InSegment _ l']) (simp add: mo(1))
  next
    case 2
    then have mo: "m = lv_machine lv" "out = no_outcome"
      using assms(3) InSegment by (simp_all add: observe_def)
    show ?thesis unfolding mo by (rule idle_none)
  next
    case 3
    define c where "c = \<lparr>cs_started_at = t, cs_ended_at = e, cs_credited_seconds = credit t e, cs_closed_by = CbIdle\<rparr>"
    have mo: "m = (lv_machine lv)\<lparr>sm_phase := Between e (sat_u64 (ms + SEGMENT_IDLE_MS))\<rparr>"
        "out = no_outcome\<lparr>closed_segment := Some c\<rparr>"
      using 3 assms(3) InSegment by (simp_all add: observe_def Let_def e_def c_def)
    show ?thesis unfolding mo(2)
      by (rule idle_closed [OF InSegment _ e(1)])
        (use credit_near [OF tl(1) e] e in \<open>simp_all add: mo(1) c_def\<close>)
  qed
next
  case (Between since ms)
  consider "sig \<noteq> NoSignal" | "sig = NoSignal" "m = lv_machine lv" "out = no_outcome"
    | "sig = NoSignal" "sm_phase m = EndedPhase" "out = no_outcome\<lparr>ended_session := Some (since, CrIdle)\<rparr>"
    using assms(3) Between by (auto simp: observe_def split: if_splits)
  then show ?thesis
  proof cases
    case 1
    then have mo: "m = (lv_machine lv)\<lparr>sm_phase := InSegment (unix now) (unix now) (mono_ms now)\<rparr>"
        "out = no_outcome\<lparr>opened_segment_at := Some (unix now)\<rparr>"
      using assms(3) Between by (simp_all add: observe_def)
    show ?thesis unfolding mo(2) by (rule reopened [OF Between _ assms(2)]) (simp add: mo(1))
  next
    case 2
    show ?thesis unfolding 2(2,3) by (rule idle_none)
  next
    case 3
    then show ?thesis using ended_between [OF Between] by simp
  qed
next
  case EndedPhase
  then show ?thesis using assms(1) by simp
qed

lemma sm_end_outcome:
  assumes "live_ok lv" and "near (unix now)" and "sm_end now r (lv_machine lv) = (m, out)"
  shows "outcome_for now lv m out" and "ended_session out \<noteq> None"
proof -
  have all: "outcome_for now lv m out \<and> ended_session out \<noteq> None"
  proof (cases "sm_phase (lv_machine lv)")
    case (InSegment t l ms)
    then have t: "near t" using assms(1) by simp
    define e where "e = max (unix now) t"
    have e: "near e" "t \<le> e" using t assms(2) by (auto simp: e_def near_def)
    define c where "c = \<lparr>cs_started_at = t, cs_ended_at = e, cs_credited_seconds = credit t e,
      cs_closed_by = (if r = CrAppExit then CbAppExit else CbSessionEnd)\<rparr>"
    have mo: "m = (lv_machine lv)\<lparr>sm_phase := EndedPhase\<rparr>"
        "out = no_outcome\<lparr>closed_segment := Some c, ended_session := Some (unix now, r)\<rparr>"
      using assms(3) InSegment by (simp_all add: sm_end_def Let_def e_def c_def)
    have "outcome_for now lv m out" unfolding mo(2)
      by (rule ended_inside [OF InSegment])
        (use credit_near [OF t e] e in \<open>simp_all add: mo(1) c_def\<close>)
    then show ?thesis by (simp add: mo(2))
  next
    case (Between since ms)
    then have mo: "m = (lv_machine lv)\<lparr>sm_phase := EndedPhase\<rparr>"
        "out = no_outcome\<lparr>ended_session := Some (unix now, r)\<rparr>"
      using assms(3) by (simp_all add: sm_end_def Let_def)
    have "outcome_for now lv m out" unfolding mo(2) by (rule ended_between [OF Between]) (simp add: mo(1))
    then show ?thesis by (simp add: mo(2))
  next
    case EndedPhase
    then show ?thesis using assms(1) by simp
  qed
  show "outcome_for now lv m out" and "ended_session out \<noteq> None" using all by blast+
qed

section \<open>Every handler keeps the invariant\<close>

lemma apply_moves:
  assumes w: "world_ok w" and z: "plain_zone z" and k: "map_of (sw_live w) k = Some lv"
    and out: "outcome_for now lv m out"
  defines "w1 \<equiv> w\<lparr>sw_live := bt_insert k (lv\<lparr>lv_machine := m\<rparr>) (sw_live w)\<rparr>"
  shows "\<exists>w'. apply_session moved z k out w1 = Some (None, w') \<and> moves z w w'
    \<and> (\<forall>j. j \<noteq> k \<longrightarrow> map_of (sw_live w') j = map_of (sw_live w) j)
    \<and> (map_of (sw_live w') k = None \<longleftrightarrow> ended_session out \<noteq> None)"
proof -
  define A where "A = open_view_of (sw_live w)"
  have inv: "in_step A (sw_db w)" and pay: "payable (sw_db w)" and bt: "bt_ok (sw_live w)"
    and lv: "live_ok lv" and kn: "known (sw_db w) k lv"
    using w k by (auto simp: world_ok_def A_def simp del: live_ok.simps live_view.simps)
  have Ak: "A k = Some (live_view lv)" by (simp add: A_def open_view_of_def k)
  define lv1 where "lv1 = lv\<lparr>lv_machine := m\<rparr>"
  have live1: "map_of (sw_live w1) k = Some lv1" "bt_ok (sw_live w1)"
    "map_of (sw_live w1) = (map_of (sw_live w))(k \<mapsto> lv1)" "sw_db w1 = sw_db w"
    "sw_focus w1 = sw_focus w"
    using bt by (simp_all add: w1_def lv1_def)
  have kn1: "known (sw_db w) k (lv1\<lparr>lv_segment := g\<rparr>)" "known (sw_db w) k lv1" for g
    using kn by (simp_all add: known_def lv1_def)
  have put: "world_ok w'" if "sw_live w' = bt_insert k lv' (sw_live w1)" "in_step (A(k \<mapsto> live_view lv')) (sw_db w')"
      "payable (sw_db w')" "session_facts (sw_db w') = session_facts (sw_db w)" "live_ok lv'"
      "known (sw_db w) k lv'" for w' lv'
    using that live1 unfolding A_def by (intro world_ok_put [OF w, of w' k lv']) simp_all
  have same: "world_ok w'" if "sw_live w' = sw_live w1" "in_step (A(k \<mapsto> live_view lv1)) (sw_db w')"
      "payable (sw_db w')" "session_facts (sw_db w') = session_facts (sw_db w)" "live_ok lv1" for w'
    using that live1 kn1 unfolding A_def by (intro world_ok_put [OF w, of w' k lv1]) simp_all
  have drop: "world_ok w'" if "sw_live w' = bt_remove k L" "bt_ok L" "map_of L = (map_of (sw_live w))(k \<mapsto> x)"
      "in_step (A(k := None)) (sw_db w')" "payable (sw_db w')"
      "session_facts (sw_db w') = session_facts (sw_db w)" for w' L x
    using that unfolding A_def by (intro world_ok_drop [OF w, of w' k]) simp_all
  note defs = apply_session_def live1(1) lv1_def [symmetric] moves_def
  from out show ?thesis
  proof cases
    case idle_none
    then have "lv1 = lv" "A(k \<mapsto> live_view lv1) = A" using Ak by (auto simp: lv1_def)
    then have "world_ok w1" using same [of w1] inv pay lv live1(4) by simp
    then show ?thesis using idle_none live1 by (auto simp: apply_session_def moves_def k)
  next
    case (extended t l ms l' ms')
    obtain i where i: "lv_segment lv = Some i" using lv extended(2) by auto
    have Ai: "A k = Some (Some (i, t))" using Ak extended(2) i by simp
    have lv1: "live_view lv1 = Some (i, t)" "live_ok lv1" "lv_segment lv1 = Some i"
      using extended i lv by (simp_all add: lv1_def)
    have A1: "A(k \<mapsto> live_view lv1) = A" using Ai lv1(1) by auto
    define db' where "db' = mark_activity (sw_db w) i l'"
    have D: "in_step A db'" "session_facts db' = session_facts (sw_db w)"
      using mark_in_step [OF inv pay Ai extended(4)] by (simp_all add: db'_def)
    have pay': "payable db'" using pay by (simp add: db'_def mark_activity_def payable_def)
    have step: "tables_step z (sw_db w) db'" unfolding db'_def by (rule segment_touched [OF extended(4)])
    define w' where "w' = w1\<lparr>sw_db := db'\<rparr>"
    have "world_ok w'" by (rule same) (simp_all add: w'_def A1 D pay' lv1(2) del: live_ok.simps live_view.simps)
    moreover have "apply_session moved z k out w1 = Some (None, w')"
      using extended(1) lv1(3) by (simp add: apply_session_def live1 no_outcome_def write_ended_def w'_def db'_def)
    ultimately show ?thesis
      using step live1 extended(1) by (auto simp: moves_def w'_def)
  next
    case (idle_closed t l ms e ms' c)
    obtain i where i: "lv_segment lv = Some i" using lv idle_closed(2) by auto
    have Ai: "A k = Some (Some (i, t))" using Ak idle_closed(2) i by simp
    obtain db' where D: "credit_segment_close z i (close_segment (sw_db w) i c) = Some db'"
        "in_step (A(k \<mapsto> None)) db'" "session_facts db' = session_facts (sw_db w)" "payable db'"
        "tables_step z (sw_db w) db'"
      using close_in_step [OF inv pay z Ai idle_closed(5,6)] by blast
    define lv' where "lv' = lv1\<lparr>lv_segment := None\<rparr>"
    have lv': "live_view lv' = None" "live_ok lv'" "known (sw_db w) k lv'"
      using idle_closed kn1 by (simp_all add: lv'_def lv1_def)
    define w' where "w' = w1\<lparr>sw_db := db', sw_live := bt_insert k lv' (sw_live w1),
      sw_events := sw_events w1 @ [EvSegmentClosed k (lv_project lv1) c (sum_segments db' k)]\<rparr>"
    have "world_ok w'" by (rule put [of w' lv']) (simp_all add: w'_def lv' D del: live_ok.simps live_view.simps)
    moreover have "apply_session moved z k out w1 = Some (None, w')"
      using idle_closed(1) i D(1)
      by (simp add: apply_session_def live1 no_outcome_def write_ended_def write_closed_def w'_def lv'_def)
        (simp add: lv1_def)
    ultimately show ?thesis
      using D(5) live1 idle_closed(1) by (auto simp: moves_def w'_def)
  next
    case (reopened since ms t ms')
    have Ai: "A k = Some None" using Ak reopened(2) by simp
    obtain g db' where op: "open_segment (sw_db w) k t True = (g, db')" by fastforce
    have D: "in_step (A(k \<mapsto> Some (g, t))) db'" "session_facts db' = session_facts (sw_db w)"
      using open_segment_in_step [OF inv pay Ai reopened(4) op] by simp_all
    have pay': "payable db'" using pay op by (auto simp: open_segment_def payable_def Let_def)
    have step: "tables_step z (sw_db w) db'"
      by (rule segment_opened [OF _ reopened(4) op]) (use in_stepD(3) [OF inv] Ai in simp)
    define lv' where "lv' = lv1\<lparr>lv_segment := Some g\<rparr>"
    have lv': "live_view lv' = Some (g, t)" "live_ok lv'" "known (sw_db w) k lv'"
      using reopened kn1 by (simp_all add: lv'_def lv1_def)
    define w' where "w' = w1\<lparr>sw_db := db', sw_live := bt_insert k lv' (sw_live w1)\<rparr>"
    have "world_ok w'" by (rule put [of w' lv']) (simp_all add: w'_def lv' D pay' del: live_ok.simps live_view.simps)
    moreover have "apply_session moved z k out w1 = Some (None, w')"
      using reopened(1) op
      by (simp add: apply_session_def live1 no_outcome_def write_ended_def w'_def lv'_def)
    ultimately show ?thesis
      using step live1 reopened(1) by (auto simp: moves_def w'_def)
  next
    case (ended_inside t l ms c e)
    obtain i where i: "lv_segment lv = Some i" using lv ended_inside(2) by auto
    have Ai: "A k = Some (Some (i, t))" using Ak ended_inside(2) i by simp
    obtain db1 where D: "credit_segment_close z i (close_segment (sw_db w) i c) = Some db1"
        "in_step (A(k \<mapsto> None)) db1" "session_facts db1 = session_facts (sw_db w)" "payable db1"
        "tables_step z (sw_db w) db1"
      using close_in_step [OF inv pay z Ai ended_inside(4,5)] by blast
    obtain at r where e: "e = (at, r)" by fastforce
    obtain p l' t' where facts: "session_facts db1 k = Some (p, Some l', Some t')"
      using kn D(3) by (auto simp: known_def)
    obtain cl db2 rf where E: "close_session moved db1 k at r = Inr (cl, db2)" "session_ref db2 k = Inr rf"
        "in_step ((A(k \<mapsto> None))(k := None)) db2" "session_facts db2 = session_facts db1" "payable db2"
        "tables_step z db1 db2"
      using close_session_in_step [OF D(2,4) _ facts] by fastforce
    define lv' where "lv' = lv1\<lparr>lv_segment := None\<rparr>"
    define w' where "w' = w1\<lparr>sw_db := db2, sw_live := bt_remove k (bt_insert k lv' (sw_live w1)),
      sw_condition_changes := sw_condition_changes w1 @ (if sc_condition_changed cl then [lv_project lv1] else []),
      sw_events := sw_events w1 @ [EvSegmentClosed k (lv_project lv1) c (sum_segments db1 k)] @ [EvEnded rf]\<rparr>"
    have "world_ok w'"
      by (rule drop [of w' "bt_insert k lv' (sw_live w1)" lv']) (use E D live1 in \<open>simp_all add: w'_def\<close>)
    moreover have "apply_session moved z k out w1 = Some (None, w')"
      using ended_inside(1) i D(1) E(1,2) e
      by (simp add: apply_session_def live1 no_outcome_def write_ended_def write_closed_def w'_def lv'_def)
        (simp add: lv1_def)
    moreover have "(tables_step z)\<^sup>*\<^sup>* (sw_db w) db2" using D(5) E(6) by (meson rtranclp.simps)
    ultimately show ?thesis
      using live1 ended_inside(1) by (auto simp: moves_def w'_def)
  next
    case (ended_between since ms e)
    have Ai: "A k = Some None" and seg: "lv_segment lv = None" using Ak ended_between(2) lv by simp_all
    obtain at r where e: "e = (at, r)" by fastforce
    obtain p l' t' where facts: "session_facts (sw_db w) k = Some (p, Some l', Some t')"
      using kn by (auto simp: known_def)
    obtain cl db2 rf where E: "close_session moved (sw_db w) k at r = Inr (cl, db2)" "session_ref db2 k = Inr rf"
        "in_step (A(k := None)) db2" "session_facts db2 = session_facts (sw_db w)" "payable db2"
        "tables_step z (sw_db w) db2"
      using close_session_in_step [OF inv pay Ai facts] by blast
    define w' where "w' = w1\<lparr>sw_db := db2, sw_live := bt_remove k (sw_live w1),
      sw_condition_changes := sw_condition_changes w1 @ (if sc_condition_changed cl then [lv_project lv1] else []),
      sw_events := sw_events w1 @ [EvEnded rf]\<rparr>"
    have "world_ok w'"
      by (rule drop [of w' "sw_live w1" lv1]) (use E live1 in \<open>simp_all add: w'_def\<close>)
    moreover have "apply_session moved z k out w1 = Some (None, w')"
      using ended_between(1) E(1,2) e
      by (simp add: apply_session_def live1 no_outcome_def write_ended_def w'_def)
    ultimately show ?thesis
      using E(6) live1 ended_between(1) by (auto simp: moves_def w'_def)
  qed
qed

end
