(* ===== verification/Session_World.thy ===== *)
theory Session_World
  imports Session_Lifecycle
begin

text \<open>
  The whole of the session subsystem as steps: launches, focus reports, stops, a location going
  offline, shutdown, ticks, and a crash followed by the recovery of the next start. Every handler
  returns without an error and leaves the live sessions and the tables in step.
\<close>

section \<open>Handlers\<close>

lemma moves_refl: "world_ok w \<Longrightarrow> moves z w w"
  by (simp add: moves_def)

lemma moves_trans: "moves z w w1 \<Longrightarrow> moves z w1 w2 \<Longrightarrow> moves z w w2"
  by (auto simp: moves_def)

lemma drive_moves:
  assumes w: "world_ok w" and z: "plain_zone z" and now: "near (unix now)"
    and step: "step = observe now sig \<or> step = sm_end now r"
  shows "\<exists>w'. drive moved z k step w = Some (None, w') \<and> moves z w w'
    \<and> (\<forall>j. j \<noteq> k \<longrightarrow> map_of (sw_live w') j = map_of (sw_live w) j)
    \<and> (step = sm_end now r \<longrightarrow> map_of (sw_live w') k = None)"
proof (cases "map_of (sw_live w) k")
  case None
  then show ?thesis using moves_refl [OF w] by (simp add: drive_def)
next
  case (Some lv)
  obtain m out where mo: "step (lv_machine lv) = (m, out)" by fastforce
  have lv: "live_ok lv" using w Some by (simp add: world_ok_def del: live_ok.simps)
  have out: "outcome_for now lv m out"
    using step mo observe_outcome [OF lv now] sm_end_outcome(1) [OF lv now] by auto
  have "ended_session out \<noteq> None" if "step = sm_end now r"
    using that mo sm_end_outcome(2) [OF lv now] by simp
  then show ?thesis
    using apply_moves [OF w z Some out, of moved] by (auto simp: drive_def Some mo)
qed

lemma drive_all_moves:
  assumes "world_ok w"
    and "\<And>k w. k \<in> set ks \<Longrightarrow> world_ok w \<Longrightarrow> \<exists>w'. f k w = Some (None, w') \<and> moves z w w'"
  shows "\<exists>w'. drive_all f ks w = Some (None, w') \<and> moves z w w'"
  using assms
proof (induction ks arbitrary: w)
  case Nil
  then show ?case by (simp add: moves_refl)
next
  case (Cons k ks)
  obtain w1 where 1: "f k w = Some (None, w1)" "moves z w w1" using Cons.prems by fastforce
  have "world_ok w1" using 1(2) by (simp add: moves_def)
  then obtain w2 where "drive_all f ks w1 = Some (None, w2)" "moves z w1 w2"
    using Cons.IH [of w1] Cons.prems(2) by fastforce
  then show ?case using 1 moves_trans by auto
qed

lemma end_all:
  assumes "world_ok w" and "plain_zone z" and "\<forall>k. near (unix (clock k))"
  shows "\<exists>w'. drive_all (\<lambda>k. end_one moved z (clock k) r k) ks w = Some (None, w') \<and> moves z w w'
    \<and> (\<forall>j. map_of (sw_live w') j = (if j \<in> set ks then None else map_of (sw_live w) j))"
  using assms(1)
proof (induction ks arbitrary: w)
  case Nil
  then show ?case by (simp add: moves_refl)
next
  case (Cons k ks)
  obtain w1 where 1: "end_one moved z (clock k) r k w = Some (None, w1)" "moves z w w1"
      "\<forall>j. j \<noteq> k \<longrightarrow> map_of (sw_live w1) j = map_of (sw_live w) j" "map_of (sw_live w1) k = None"
    using drive_moves [OF Cons.prems assms(2), of "clock k" "sm_end (clock k) r"] assms(3)
    unfolding end_one_def by blast
  have "world_ok w1" using 1(2) by (simp add: moves_def)
  from Cons.IH [OF this] obtain w2 where 2:
      "drive_all (\<lambda>k. end_one moved z (clock k) r k) ks w1 = Some (None, w2)" "moves z w1 w2"
      "\<forall>j. map_of (sw_live w2) j = (if j \<in> set ks then None else map_of (sw_live w1) j)" by blast
  have "map_of (sw_live w2) j = (if j \<in> set (k # ks) then None else map_of (sw_live w) j)" for j
    using 1(3,4) 2(3) by (cases "j = k") auto
  then show ?case using 1(1) 2(1) moves_trans [OF 1(2) 2(2)] by simp
qed

lemma finish_waiter_moves:
  assumes w: "world_ok w" and z: "plain_zone z" and now: "near (unix now)"
  shows "\<exists>w'. finish_waiter moved z now finished k w = Some (None, w') \<and> moves z w w'"
proof (cases "map_of (sw_live w) k")
  case None
  then show ?thesis using moves_refl [OF w] by (simp add: finish_waiter_def)
next
  case (Some lv)
  define w1 where "w1 = w\<lparr>sw_live := bt_insert k (lv\<lparr>lv_waiter := False\<rparr>) (sw_live w)\<rparr>"
  have "live_ok lv" "known (sw_db w) k lv" using w Some by (simp_all add: world_ok_def del: live_ok.simps)
  then have lv1: "live_ok (lv\<lparr>lv_waiter := False\<rparr>)" "known (sw_db w) k (lv\<lparr>lv_waiter := False\<rparr>)"
    by (simp_all add: known_def split: phase.splits)
  have "(open_view_of (sw_live w))(k \<mapsto> live_view (lv\<lparr>lv_waiter := False\<rparr>)) = open_view_of (sw_live w)"
  proof -
    have "live_view (lv\<lparr>lv_waiter := False\<rparr>) = live_view lv" by (simp split: phase.split)
    moreover have "open_view_of (sw_live w) k = Some (live_view lv)" using Some by (simp add: open_view_of_def)
    ultimately show ?thesis by (metis fun_upd_triv)
  qed
  then have "world_ok w1"
    using w lv1 by (intro world_ok_put [OF w, of w1 k "lv\<lparr>lv_waiter := False\<rparr>"])
      (simp_all add: w1_def world_ok_def del: live_ok.simps live_view.simps)
  then obtain w' where "drive moved z k (sm_end now CrProcessExit) w1 = Some (None, w')" "moves z w1 w'"
    using drive_moves [OF _ z now] by blast
  moreover have "moves z w w' \<longleftrightarrow> moves z w1 w'" by (simp add: moves_def w1_def)
  ultimately show ?thesis
    using moves_refl [OF w] by (simp add: finish_waiter_def Some w1_def)
qed

lemma tick_moves:
  assumes "world_ok w" and "plain_zone z" and "near (unix now)"
  shows "\<exists>w'. manager_tick moved z now batches finished w = Some (None, w') \<and> moves z w w'"
proof -
  have 1: "\<exists>w''. drive moved z k (observe now (signal_of now batches w k)) w' = Some (None, w'') \<and> moves z w' w''"
    if "world_ok w'" for k w'
    using drive_moves [OF that assms(2,3)] by blast
  obtain w1 where w1: "drive_all (\<lambda>k. drive moved z k (observe now (signal_of now batches w k)))
      (map fst (sw_live w)) w = Some (None, w1)" "moves z w w1"
    using drive_all_moves [OF assms(1), of "map fst (sw_live w)"
        "\<lambda>k. drive moved z k (observe now (signal_of now batches w k))" z] 1 by blast
  have "world_ok w1" using w1(2) by (simp add: moves_def)
  then obtain w2 where "drive_all (finish_waiter moved z now finished) (map fst (sw_live w1)) w1 = Some (None, w2)"
      "moves z w1 w2"
    using drive_all_moves [of w1 "map fst (sw_live w1)" "finish_waiter moved z now finished" z]
      finish_waiter_moves assms(2,3) by blast
  then show ?thesis using w1 moves_trans by (auto simp: manager_tick_def)
qed

lemma session_ref_facts:
  "session_ref db k = Inr rf \<Longrightarrow> \<exists>p l t. session_facts db k = Some (p, Some l, Some t)"
  by (auto simp: session_ref_def session_facts_def split: option.splits)

lemma launch_moves:
  assumes w: "world_ok w" and now: "near (unix now)" and l: "launch now l w = (r, w')"
  shows "world_ok w' \<and> (tables_step z)\<^sup>*\<^sup>* (sw_db w) (sw_db w') \<and> (\<forall>e. r = Inl e \<longrightarrow> w' = w)"
proof -
  have inv: "in_step (open_view_of (sw_live w)) (sw_db w)" and pay: "payable (sw_db w)"
    and bt: "bt_ok (sw_live w)"
    and each: "\<And>k lv. map_of (sw_live w) k = Some lv \<Longrightarrow> live_ok lv \<and> known (sw_db w) k lv"
    using w by (simp_all add: world_ok_def del: live_ok.simps)
  show ?thesis
  proof (cases "\<exists>e. r = Inl e")
    case True
    then have "w' = w"
      using l by (auto simp: launch_def sm_open_def split: sum.splits prod.splits)
    then show ?thesis using w by simp
  next
    case False
    then obtain k db1 g db2 where op: "open_session (sw_db w) (ls_project_id l) (ls_location_id l)
          (ls_target_id l) (unix now) = Inr (k, db1)"
        "open_segment db1 k (unix now) False = (g, db2)" "\<exists>rf. session_ref db2 k = Inr rf"
      using l by (auto simp: launch_def sm_open_def no_outcome_def split: sum.splits prod.splits)
    define lv where "lv = \<lparr>lv_project = ls_project_id l, lv_location = ls_location_id l,
      lv_machine = fst (sm_open now (ls_waiter l)), lv_segment = Some g,
      lv_launched_mono_ms = mono_ms now, lv_waiter = ls_waiter l\<rparr>"
    have w': "sw_db w' = db2" "sw_live w' = bt_insert k lv (sw_live w)"
      using l op False by (auto simp: launch_def sm_open_def no_outcome_def lv_def split: sum.splits)
    note S = open_session_in_step [OF inv pay op(1)]
    have pay1: "payable db1" using open_session_kept [OF in_stepD(1) [OF inv] pay op(1)] by (auto simp: kept_def)
    have T: "in_step (((open_view_of (sw_live w))(k \<mapsto> None))(k \<mapsto> Some (g, unix now))) db2"
      "session_facts db2 = session_facts db1"
      using open_segment_in_step [OF conjunct1 [OF S] pay1 _ now op(2)] by simp_all
    have pay2: "payable db2" using pay1 op(2) by (auto simp: open_segment_def payable_def Let_def)
    have "live_view lv = Some (g, unix now)" "live_ok lv"
      using now by (simp_all add: lv_def sm_open_def)
    moreover have "known db2 k lv"
    proof -
      have "session_facts db2 k = Some (ls_project_id l, ls_location_id l, ls_target_id l)"
        using S T(2) by simp
      then show ?thesis using op(3) session_ref_facts [of db2 k] by (auto simp: known_def lv_def)
    qed
    moreover have "known db2 j lv'" if "map_of (sw_live w) j = Some lv'" for j lv'
      using each [OF that] S T(2) by (auto simp: known_def)
    ultimately have "world_ok w'"
      using T(1) pay2 each bt
      by (auto simp: world_ok_def w' open_view_of_upd(1) [of _ "sw_live w" k lv]
          simp del: live_ok.simps live_view.simps)
    moreover have "tables_step z (sw_db w) db1" using op(1) by (rule session_opened)
    moreover have "tables_step z db1 db2"
      by (rule segment_opened [OF _ now op(2)]) (use in_stepD(3) [OF conjunct1 [OF S]] in simp)
    ultimately show ?thesis using w'(1) False by (auto intro: rtranclp.rtrancl_into_rtrancl)
  qed
qed

section \<open>Recovery\<close>

lemma close_orphan_in_step:
  assumes inv: "in_step A db" and pay: "payable db" and z: "plain_zone z"
    and k: "A (se_id s) \<noteq> None" and s: "map_option se_started (find_session db (se_id s)) = Some (se_started s)"
  shows "\<exists>rep' db'. close_orphan z s (rep, db) = Some (rep', db')
    \<and> or_sessions_closed rep' = Suc (or_sessions_closed rep) \<and> in_step (A(se_id s := None)) db' \<and> payable db'
    \<and> (tables_step z)\<^sup>*\<^sup>* db db'
    \<and> (\<forall>j. map_option se_started (find_session db' j) = map_option se_started (find_session db j))"
proof -
  define sgs where "sgs = map sg_id (filter (\<lambda>g. sg_session g = se_id s \<and> sg_closed_by g = None) (db_segments db))"
  have dist: "distinct sgs"
    using in_stepD(1) [OF inv] by (simp add: sgs_def tables_ok_def distinct_map_filter)
  have "\<exists>n db1. close_orphan_segments z sgs (or_segments_closed rep, db) = Some (n, db1) \<and> in_step (A(se_id s \<mapsto> None)) db1 \<and> payable db1
      \<and> (tables_step z)\<^sup>*\<^sup>* db db1 \<and> db_sessions db1 = db_sessions db"
  proof (cases "the (A (se_id s))")
    case None
    then have A: "A (se_id s) = Some None" using k by auto
    then have "sgs = []" using in_stepD(5) [OF inv] by (fastforce simp: sgs_def filter_empty_conv)
    moreover have "A(se_id s \<mapsto> None) = A" using A by auto
    ultimately show ?thesis using inv pay by simp
  next
    case (Some it)
    obtain i t where A: "A (se_id s) = Some (Some (i, t))" using k Some by (cases it) auto
    have "j = i" if "j \<in> set sgs" for j using that in_stepD(5) [OF inv] A by (fastforce simp: sgs_def)
    moreover have "i \<in> set sgs" using in_stepD(6) [OF inv A] by (force simp: sgs_def)
    ultimately have "set sgs = {i}" by blast
    moreover from this have "length sgs = 1" using distinct_card [OF dist] by simp
    ultimately have one: "sgs = [i]" by (cases sgs) auto
    obtain db1 where db1: "credit_segment_close z i (crash_segment db i) = Some db1"
        "in_step (A(se_id s \<mapsto> None)) db1" "payable db1" "tables_step z db db1"
      using recover_in_step [OF inv pay z A] by blast
    have "\<exists>n. close_orphan_segments z sgs (or_segments_closed rep, db) = Some (n, db1)"
      using db1(1) by (simp add: one Let_def)
    moreover have "db_sessions db1 = db_sessions db"
      using credit_keeps(2) [OF db1(1)] by (simp add: crash_segment_def)
    ultimately show ?thesis using db1 by blast
  qed
  then obtain n db1 where 1: "close_orphan_segments z sgs (or_segments_closed rep, db) = Some (n, db1)" "in_step (A(se_id s \<mapsto> None)) db1"
      "payable db1" "(tables_step z)\<^sup>*\<^sup>* db db1" "db_sessions db1 = db_sessions db" by blast
  define e where "e = (case latest_end db1 (se_id s) of Some e \<Rightarrow> e | None \<Rightarrow> se_started s)"
  define db' where "db' = update_session (se_id s) (\<lambda>x. x\<lparr>se_ended := Some (max e (se_started s)),
    se_reason := Some CrOrphaned, se_credited := sum_segments db1 (se_id s)\<rparr>) db1"
  have res: "\<exists>rep'. close_orphan z s (rep, db) = Some (rep', db') \<and> or_sessions_closed rep' = Suc (or_sessions_closed rep)"
    using 1(1) by (simp add: close_orphan_def sgs_def [symmetric] db'_def e_def Let_def)
  have fs: "find_session db1 = find_session db" by (simp add: find_session_def 1(5) fun_eq_iff)
  obtain s' where s': "find_session db1 (se_id s) = Some s'" "se_started s' = se_started s"
    using s by (auto simp: fs)
  have D: "in_step ((A(se_id s \<mapsto> None))(se_id s := None)) db' \<and> session_facts db' = session_facts db1
      \<and> payable db' \<and> find_session db' (se_id s) = Some (s'\<lparr>se_ended := Some (max e (se_started s)),
          se_reason := Some CrOrphaned, se_credited := sum_segments db1 (se_id s)\<rparr>)"
    by (rule end_row_in_step [OF 1(2,3) _ s'(1)]) (simp_all add: db'_def)
  have "close_session (\<lambda>_ _. False) db1 (se_id s) e CrOrphaned = Inr (\<lparr>sc_credited_seconds =
      sum_segments db1 (se_id s), sc_ended_at = max e (se_started s), sc_condition_changed = False\<rparr>, db')"
    by (simp add: close_session_def s' Let_def db'_def)
  then have "tables_step z db1 db'" by (rule session_closed)
  moreover have "map_option se_started (find_session db' j) = map_option se_started (find_session db j)" for j
  proof -
    have "map_option se_started (find P (map (\<lambda>x. if se_id x = se_id s \<and> se_ended x = None
        then x\<lparr>se_ended := Some (max e (se_started s)), se_reason := Some CrOrphaned,
            se_credited := sum_segments db1 (se_id s)\<rparr> else x) xs))
        = map_option se_started (find P xs)" if "\<And>x a b c. P (x\<lparr>se_ended := a, se_reason := b,
            se_credited := c\<rparr>) = P x" for P and xs :: "session_row list"
      by (induction xs) (auto simp: that)
    then show ?thesis by (simp add: find_session_def db'_def update_session_def 1(5))
  qed
  ultimately show ?thesis using res D 1(4) by (auto intro: rtranclp.rtrancl_into_rtrancl)
qed

lemma close_orphans_loop_in_step:
  assumes "plain_zone z" and "in_step A db" and "payable db" and "distinct (map se_id ss)"
    and "\<forall>s \<in> set ss. A (se_id s) \<noteq> None"
    and "\<forall>s \<in> set ss. map_option se_started (find_session db (se_id s)) = Some (se_started s)"
  shows "\<exists>rep' db'. close_orphans_loop z ss (rep, db) = Some (rep', db')
    \<and> or_sessions_closed rep' = or_sessions_closed rep + length ss \<and> payable db' \<and> (tables_step z)\<^sup>*\<^sup>* db db'
    \<and> in_step (\<lambda>k. if k \<in> se_id ` set ss then None else A k) db'"
  using assms(2-)
proof (induction ss arbitrary: A db rep)
  case Nil
  then show ?case by simp
next
  case (Cons s ss)
  obtain rep1 db1 where 1: "close_orphan z s (rep, db) = Some (rep1, db1)" "in_step (A(se_id s := None)) db1" "payable db1"
      "(tables_step z)\<^sup>*\<^sup>* db db1"
      "\<forall>j. map_option se_started (find_session db1 j) = map_option se_started (find_session db j)"
      "or_sessions_closed rep1 = Suc (or_sessions_closed rep)"
    using close_orphan_in_step [OF Cons.prems(1,2) assms(1), of s rep] Cons.prems(4,5) by auto
  obtain rep2 db2 where 2: "close_orphans_loop z ss (rep1, db1) = Some (rep2, db2)" "payable db2" "(tables_step z)\<^sup>*\<^sup>* db1 db2"
      "in_step (\<lambda>k. if k \<in> se_id ` set ss then None else (A(se_id s := None)) k) db2"
      "or_sessions_closed rep2 = or_sessions_closed rep1 + length ss"
  proof -
    have "se_id s \<notin> se_id ` set ss" using Cons.prems(3) by simp
    then have "se_id x \<noteq> se_id s" if "x \<in> set ss" for x using that by (metis imageI)
    then have "\<forall>x \<in> set ss. (A(se_id s := None)) (se_id x) \<noteq> None" using Cons.prems(4) by simp
    moreover have "\<forall>x \<in> set ss. map_option se_started (find_session db1 (se_id x)) = Some (se_started x)"
      using Cons.prems(5) 1(5) by simp
    moreover have "distinct (map se_id ss)" using Cons.prems(3) by simp
    ultimately show ?thesis using Cons.IH [OF 1(2,3)] that by blast
  qed
  have "(\<lambda>k. if k \<in> se_id ` set ss then None else (A(se_id s := None)) k)
      = (\<lambda>k. if k \<in> se_id ` set (s # ss) then None else A k)"
    by (auto simp: fun_eq_iff)
  moreover have "(tables_step z)\<^sup>*\<^sup>* db db2" using 1(4) 2(3) by (rule rtranclp_trans)
  ultimately show ?case using 1 2 by simp
qed

lemma close_orphans_in_step:
  assumes "plain_zone z" and inv: "in_step A db" and "payable db"
  shows "\<exists>rep db'. close_orphans z db = Some (rep, db')
    \<and> or_sessions_closed rep = length (filter (\<lambda>s. se_ended s = None) (db_sessions db)) \<and> payable db' \<and> (tables_step z)\<^sup>*\<^sup>* db db'
    \<and> in_step (\<lambda>_. None) db'"
proof -
  define ss where "ss = filter (\<lambda>s. se_ended s = None) (db_sessions db)"
  note I = in_stepD [OF inv]
  have dist: "distinct (map se_id (db_sessions db))" using I(1) by (simp add: tables_ok_def)
  have "\<forall>s \<in> set ss. A (se_id s) \<noteq> None" using I(2) unfolding ss_def by fastforce
  moreover have "\<forall>s \<in> set ss. map_option se_started (find_session db (se_id s)) = Some (se_started s)"
    using find_session_mem [OF dist] by (simp add: ss_def)
  moreover have "distinct (map se_id ss)" using dist by (simp add: ss_def distinct_map_filter)
  ultimately obtain rep db' where db': "close_orphans_loop z ss
      (\<lparr>or_sessions_closed = 0, or_segments_closed = 0, or_credited_seconds = 0\<rparr>, db) = Some (rep, db')"
      "or_sessions_closed rep = length ss" "payable db'"
      "(tables_step z)\<^sup>*\<^sup>* db db'" "in_step (\<lambda>k. if k \<in> se_id ` set ss then None else A k) db'"
    using close_orphans_loop_in_step [OF assms, of ss
        "\<lparr>or_sessions_closed = 0, or_segments_closed = 0, or_credited_seconds = 0\<rparr>"] by auto
  have "k \<in> se_id ` set ss" if Ak: "A k \<noteq> None" for k
  proof -
    obtain s where "find_session db k = Some s" using I(3) [OF Ak] by auto
    then have s: "s \<in> set (db_sessions db)" "se_id s = k" using find_session_id by blast+
    then have "se_ended s = None" using I(2) [OF s(1)] Ak by simp
    then show ?thesis using s by (force simp: ss_def)
  qed
  then have "(\<lambda>k. if k \<in> se_id ` set ss then None else A k) = (\<lambda>_. None)" by fastforce
  then show ?thesis using db' by (auto simp: close_orphans_def ss_def)
qed

section \<open>The subsystem's steps\<close>

definition fresh_world :: "session_db \<Rightarrow> session_world" where
  "fresh_world db = \<lparr>sw_live = [], sw_focus = None, sw_condition_changes = [], sw_db = db, sw_events = []\<rparr>"

inductive world_step :: "zone \<Rightarrow> session_world \<Rightarrow> session_world \<Rightarrow> bool" for z where
  step_launch: "near (unix now) \<Longrightarrow> launch now l w = (r, w') \<Longrightarrow> world_step z w w'"
| step_focus: "world_step z w (set_focus at project w)"
| step_stop: "near (unix now) \<Longrightarrow> stop moved z now k w = Some (r, w') \<Longrightarrow> world_step z w w'"
| step_offline: "\<forall>k. near (unix (clock k)) \<Longrightarrow> location_offline moved z clock loc w = Some (r, w') \<Longrightarrow>
    world_step z w w'"
| step_shutdown: "\<forall>k. near (unix (clock k)) \<Longrightarrow> shutdown moved z clock w = Some (r, w') \<Longrightarrow>
    world_step z w w'"
| step_tick: "near (unix now) \<Longrightarrow> manager_tick moved z now batches finished w = Some (r, w') \<Longrightarrow>
    world_step z w w'"
| step_restart: "close_orphans z (sw_db w) = Some (rep, db') \<Longrightarrow> world_step z w (fresh_world db')"

inductive_cases world_stepE: "world_step z w w'"

lemma fresh_world_ok: "in_step (\<lambda>_. None) db \<Longrightarrow> payable db \<Longrightarrow> world_ok (fresh_world db)"
proof -
  have "open_view_of [] = (\<lambda>_. None)" by (simp add: open_view_of_def fun_eq_iff)
  then show "in_step (\<lambda>_. None) db \<Longrightarrow> payable db \<Longrightarrow> world_ok (fresh_world db)"
    by (simp add: world_ok_def fresh_world_def)
qed

lemma restart_ok: "empty_tables db \<Longrightarrow> payable db \<Longrightarrow> world_ok (fresh_world db)"
  by (rule fresh_world_ok)
    (auto simp: in_step_def empty_tables_def tables_ok_def focus_rows_ok_def)

lemma end_one_moves:
  assumes "world_ok w" and "plain_zone z" and "near (unix now)"
  shows "\<exists>w'. end_one moved z now r k w = Some (None, w') \<and> moves z w w'"
  unfolding end_one_def using drive_moves [OF assms] by blast

lemma world_step_ok:
  assumes "world_step z w w'" and "plain_zone z" and "world_ok w"
  shows "world_ok w' \<and> (tables_step z)\<^sup>*\<^sup>* (sw_db w) (sw_db w')"
  using assms(1)
proof (cases rule: world_step.cases)
  case (step_launch now l r)
  then show ?thesis using launch_moves [OF assms(3)] by blast
next
  case step_focus
  then show ?thesis using assms(3) by (simp add: world_ok_def set_focus_def)
next
  case (step_stop now moved k r)
  then show ?thesis
    using end_one_moves [OF assms(3,2), of now moved CrStop k] by (auto simp: stop_def moves_def)
next
  case (step_offline clock moved loc r)
  have "\<exists>w2. location_offline moved z clock loc w = Some (None, w2) \<and> moves z w w2"
    unfolding location_offline_def using end_all [OF assms(3,2) step_offline(1)] by blast
  then show ?thesis using step_offline(2) by (auto simp: moves_def)
next
  case (step_shutdown clock moved r)
  have "\<exists>w2. shutdown moved z clock w = Some (None, w2) \<and> moves z w w2"
    unfolding shutdown_def using end_all [OF assms(3,2) step_shutdown(1)] by blast
  then show ?thesis using step_shutdown(2) by (auto simp: moves_def)
next
  case (step_tick now moved batches finished r)
  then show ?thesis
    using tick_moves [OF assms(3,2), of now moved batches finished] by (auto simp: moves_def)
next
  case (step_restart rep db')
  have "in_step (open_view_of (sw_live w)) (sw_db w)" "payable (sw_db w)"
    using assms(3) by (simp_all add: world_ok_def)
  then show ?thesis
    using close_orphans_in_step [OF assms(2)] step_restart fresh_world_ok by (fastforce simp: fresh_world_def)
qed

lemma reachable_ok:
  assumes "(world_step z)\<^sup>*\<^sup>* (fresh_world db0) w" and "plain_zone z" and "empty_tables db0" and "payable db0"
  shows "world_ok w \<and> (tables_step z)\<^sup>*\<^sup>* db0 (sw_db w)"
  using assms(1)
proof (induction rule: rtranclp_induct)
  case base
  then show ?case using restart_ok [OF assms(3,4)] by (simp add: fresh_world_def)
next
  case (step w1 w2)
  then show ?case using world_step_ok [OF step.hyps(2) assms(2)] by (auto intro: rtranclp_trans)
qed

lemma unended_are_live:
  assumes "world_ok w"
  shows "length (filter (\<lambda>s. se_ended s = None) (db_sessions (sw_db w))) = length (sw_live w)"
proof -
  define ss where "ss = filter (\<lambda>s. se_ended s = None) (db_sessions (sw_db w))"
  have inv: "in_step (open_view_of (sw_live w)) (sw_db w)" and bt: "bt_ok (sw_live w)"
    using assms unfolding world_ok_def by blast+
  note I = in_stepD [OF inv]
  have dist: "distinct (map se_id (db_sessions (sw_db w)))" using I(1) by (simp add: tables_ok_def)
  have "set (map se_id ss) = set (map fst (sw_live w))"
  proof (rule set_eqI)
    fix k
    have "k \<in> set (map fst (sw_live w)) \<longleftrightarrow> open_view_of (sw_live w) k \<noteq> None"
      by (simp add: open_view_of_def map_of_eq_None_iff)
    moreover have "open_view_of (sw_live w) k \<noteq> None \<longleftrightarrow> k \<in> set (map se_id ss)"
    proof
      assume k: "open_view_of (sw_live w) k \<noteq> None"
      obtain s where "find_session (sw_db w) k = Some s" using I(3) [OF k] by auto
      then have s: "s \<in> set (db_sessions (sw_db w))" "se_id s = k" using find_session_id by blast+
      then show "k \<in> set (map se_id ss)" using I(2) [OF s(1)] k by (force simp: ss_def)
    next
      assume "k \<in> set (map se_id ss)"
      then show "open_view_of (sw_live w) k \<noteq> None" using I(2) by (fastforce simp: ss_def)
    qed
    ultimately show "k \<in> set (map se_id ss) \<longleftrightarrow> k \<in> set (map fst (sw_live w))" by blast
  qed
  then show ?thesis
    using distinct_card [of "map se_id ss"] distinct_card [OF bt_ok_distinct [OF bt]] dist
    by (simp add: ss_def distinct_map_filter)
qed

section \<open>Properties\<close>

text \<open>
  C5: The live sessions and the tables agree, after any sequence of launches, focus reports,
  stops, ticks, locations going offline, shutdowns and crashes. A session is live exactly while its
  row has no end; an ended session has no open segment and its stored credit is the sum over its
  segments; a live session's machine has not ended, and the session has an open segment in the
  table exactly when its machine is in one, that one and no other.
\<close>

theorem sessions_and_tables_agree:
  assumes "(world_step z)\<^sup>*\<^sup>* (fresh_world db0) w" and "plain_zone z" and "empty_tables db0" and "payable db0"
  shows "(\<forall>s \<in> set (db_sessions (sw_db w)).
       (se_ended s = None \<longleftrightarrow> map_of (sw_live w) (se_id s) \<noteq> None)
       \<and> (se_ended s \<noteq> None \<longrightarrow> se_credited s = sum_segments (sw_db w) (se_id s)
            \<and> (\<forall>g \<in> set (db_segments (sw_db w)). sg_session g = se_id s \<longrightarrow> sg_closed_by g \<noteq> None)))
     \<and> (\<forall>k lv. map_of (sw_live w) k = Some lv \<longrightarrow>
          \<not> is_ended (lv_machine lv) \<and> (in_segment (lv_machine lv) \<longleftrightarrow> lv_segment lv \<noteq> None)
          \<and> {sg_id g |g. g \<in> set (db_segments (sw_db w)) \<and> sg_session g = k \<and> sg_closed_by g = None}
              = set_option (lv_segment lv))"
proof -
  have w: "world_ok w" using reachable_ok [OF assms] by blast
  define A where "A = open_view_of (sw_live w)"
  have inv: "in_step A (sw_db w)" using w by (simp add: world_ok_def A_def)
  note I = in_stepD [OF inv]
  have live: "A k = None \<longleftrightarrow> map_of (sw_live w) k = None" for k by (simp add: A_def open_view_of_def)
  have sessions: "(se_ended s = None \<longleftrightarrow> map_of (sw_live w) (se_id s) \<noteq> None)
       \<and> (se_ended s \<noteq> None \<longrightarrow> se_credited s = sum_segments (sw_db w) (se_id s)
            \<and> (\<forall>g \<in> set (db_segments (sw_db w)). sg_session g = se_id s \<longrightarrow> sg_closed_by g \<noteq> None))"
    if "s \<in> set (db_sessions (sw_db w))" for s
    using I(2) [OF that] I(4) [OF that] I(5) live by force
  have lives: "\<not> is_ended (lv_machine lv) \<and> (in_segment (lv_machine lv) \<longleftrightarrow> lv_segment lv \<noteq> None)
          \<and> {sg_id g |g. g \<in> set (db_segments (sw_db w)) \<and> sg_session g = k \<and> sg_closed_by g = None}
              = set_option (lv_segment lv)"
    if lv: "map_of (sw_live w) k = Some lv" for k lv
  proof -
    have ok: "live_ok lv" using w lv by (simp add: world_ok_def del: live_ok.simps)
    have Ak: "A k = Some (live_view lv)" using lv by (simp add: A_def open_view_of_def)
    show ?thesis
    proof (cases "sm_phase (lv_machine lv)")
      case (InSegment t l ms)
      then obtain i where i: "lv_segment lv = Some i" using ok by auto
      then have "A k = Some (Some (i, t))" using Ak InSegment by simp
      then show ?thesis using I(5) I(6) [of k i t] InSegment i by force
    next
      case (Between since ms)
      then have "lv_segment lv = None" "A k = Some None" using ok Ak by simp_all
      then show ?thesis using I(5) Between by force
    next
      case EndedPhase
      then show ?thesis using ok by simp
    qed
  qed
  show ?thesis using sessions lives by blast
qed

text \<open>A world to evaluate on: one session launched at the epoch for project 7.\<close>

definition demo_launch :: launched_session where
  "demo_launch = \<lparr>ls_project_id = 7, ls_location_id = Some 1, ls_target_id = Some 1, ls_waiter = False\<rparr>"

definition demo_world :: session_world where
  "demo_world = snd (launch \<lparr>mono_ms = 0, unix = 0\<rparr> demo_launch (fresh_world demo_tables))"

lemma demo_reachable: "(world_step (\<lambda>_. 0))\<^sup>*\<^sup>* (fresh_world demo_tables) demo_world"
  by (rule r_into_rtranclp, rule step_launch [of "\<lparr>mono_ms = 0, unix = 0\<rparr>" demo_launch _
        "fst (launch \<lparr>mono_ms = 0, unix = 0\<rparr> demo_launch (fresh_world demo_tables))"])
    (simp_all add: near_def demo_world_def)

lemma utc_plain: "plain_zone (\<lambda>_. 0)"
  by (auto simp: plain_zone_def zone_ok_def never_steps_back_def local_day_def zdiv_mono1)

lemma demo_start: "empty_tables demo_tables" "payable demo_tables"
  by (simp_all add: empty_tables_def payable_def demo_tables_def)

lemma demo_world_row:
  "db_sessions (sw_db demo_world) = [\<lparr>se_id = 1, se_project = 7, se_location = Some 1,
     se_target = Some 1, se_started = 0, se_ended = None, se_credited = 0, se_reason = None\<rparr>]"
  by (simp add: demo_world_def launch_def sm_open_def no_outcome_def demo_launch_def fresh_world_def
      demo_tables_def open_session_def open_segment_def Let_def next_id_def session_ref_def
      find_session_def)

theorem sessions_and_tables_agree_witness: "map_of (sw_live demo_world) 1 \<noteq> None"
  using sessions_and_tables_agree [OF demo_reachable utc_plain demo_start] by (simp add: demo_world_row)



text \<open>
  C4: The manager refines the tables. Whatever a handler or a crash and recovery does to the
  tables is a sequence of the tables' own steps (a row opened, touched, closed or recovered, a
  session opened or closed), so what every history of the tables keeps, the running subsystem
  keeps: in every reachable world the focus rows of a date add up to that day's measure over the
  closed counted segments.
\<close>

theorem manager_refines_tables:
  assumes "(world_step z)\<^sup>*\<^sup>* (fresh_world db0) w" and "plain_zone z" and "empty_tables db0" and "payable db0"
  shows "(world_step z w w' \<longrightarrow> (tables_step z)\<^sup>*\<^sup>* (sw_db w) (sw_db w'))
     \<and> (tables_step z)\<^sup>*\<^sup>* db0 (sw_db w)
     \<and> paid (sw_db w) d = int (card (on_day z d \<inter> closed_cover (sw_db w)))"
proof (intro conjI impI)
  have w: "world_ok w" and tabs: "(tables_step z)\<^sup>*\<^sup>* db0 (sw_db w)" using reachable_ok [OF assms] by blast+
  show "(tables_step z)\<^sup>*\<^sup>* (sw_db w) (sw_db w')" if "world_step z w w'"
    using world_step_ok [OF that assms(2) w] by blast
  show "(tables_step z)\<^sup>*\<^sup>* db0 (sw_db w)" by (rule tabs)
  show "paid (sw_db w) d = int (card (on_day z d \<inter> closed_cover (sw_db w)))"
    using history_kept [OF tabs assms(2-4)] by (simp add: owed_def)
qed

theorem manager_refines_tables_witness:
  "(tables_step (\<lambda>_. 0))\<^sup>*\<^sup>* demo_tables (sw_db demo_world) \<and> db_sessions (sw_db demo_world) \<noteq> []"
  using manager_refines_tables [OF demo_reachable utc_plain demo_start] by (simp add: demo_world_row)

end
