(* ===== verification/Proto_Frame.thy ===== *)
theory Proto_Frame
  imports Prelude "HOL-Library.Word"
begin

text \<open>
  The frame codec and the two threads on the pipes (\<open>proto/frame.rs\<close>, \<open>proto/transport.rs\<close>):
  a four-byte little-endian length, then that many bytes of UTF-8. A reader is the bytes still to
  come and how the stream ends after them; a writer is the bytes written and, for a pipe that
  breaks, how many more it takes. What memory can be reserved and what the JSON decoder makes of
  a payload are arguments.
\<close>

type_synonym byte = "8 word"

definition MAX_FRAME_BYTES :: nat where "MAX_FRAME_BYTES = 8 * 1024 * 1024"

section \<open>The pipes\<close>

datatype io_error_kind = UnexpectedEof | OtherIo

datatype stream_end = EndOfStream | Broken

record byte_reader =
  rd_bytes :: "byte list"
  rd_end :: stream_end

record byte_writer =
  wr_bytes :: "byte list"
  wr_room :: "nat option"   \<comment> \<open>how many more bytes before the pipe breaks; \<open>None\<close> for never\<close>
  wr_flushes :: bool

text \<open>\<open>Read::read_exact\<close> and \<open>Write::write_all\<close> of the standard library.\<close>

definition read_exact :: "nat \<Rightarrow> byte_reader \<Rightarrow> io_error_kind + byte list \<times> byte_reader" where
  "read_exact n r =
     (if n \<le> length (rd_bytes r)
      then Inr (take n (rd_bytes r), r\<lparr>rd_bytes := drop n (rd_bytes r)\<rparr>)
      else Inl (case rd_end r of EndOfStream \<Rightarrow> UnexpectedEof | Broken \<Rightarrow> OtherIo))"

definition write_all :: "byte list \<Rightarrow> byte_writer \<Rightarrow> bool \<times> byte_writer" where
  "write_all bs w =
     (case wr_room w of
        None \<Rightarrow> (True, w\<lparr>wr_bytes := wr_bytes w @ bs\<rparr>)
      | Some n \<Rightarrow> (length bs \<le> n,
                    w\<lparr>wr_bytes := wr_bytes w @ take n bs, wr_room := Some (n - length bs)\<rparr>))"

definition to_le_bytes :: "nat \<Rightarrow> byte list" where
  "to_le_bytes n =
     [word_of_nat n, word_of_nat (n div 256), word_of_nat (n div 65536), word_of_nat (n div 16777216)]"

definition from_le_bytes :: "byte list \<Rightarrow> nat" where
  "from_le_bytes bs = foldr (\<lambda>b n. unat b + 256 * n) bs 0"

text \<open>\<open>std::str::from_utf8\<close>: the well-formed byte sequences, no overlong form, no surrogate and
  nothing above U+10FFFF.\<close>

definition within :: "nat \<Rightarrow> nat \<Rightarrow> byte \<Rightarrow> bool" where
  "within lo hi b \<longleftrightarrow> lo \<le> unat b \<and> unat b \<le> hi"

abbreviation continuation :: "byte \<Rightarrow> bool" where
  "continuation \<equiv> within 128 191"

text \<open>The ranges the byte after a lead byte lies in, and how many plain continuations follow it.\<close>

definition after_lead :: "byte \<Rightarrow> (nat \<times> nat \<times> nat) option" where
  "after_lead b =
     (if within 194 223 b then Some (128, 191, 0)
      else if within 224 224 b then Some (160, 191, 1)
      else if within 225 236 b then Some (128, 191, 1)
      else if within 237 237 b then Some (128, 159, 1)
      else if within 238 239 b then Some (128, 191, 1)
      else if within 240 240 b then Some (144, 191, 2)
      else if within 241 243 b then Some (128, 191, 2)
      else if within 244 244 b then Some (128, 143, 2)
      else None)"

function is_utf8 :: "byte list \<Rightarrow> bool" where
  "is_utf8 [] = True"
| "is_utf8 (b # bs) =
     (if within 0 127 b then is_utf8 bs
      else case (after_lead b, bs) of
             (Some (lo, hi, n), c # cs) \<Rightarrow>
               within lo hi c \<and> n \<le> length cs \<and> list_all continuation (take n cs)
               \<and> is_utf8 (drop n cs)
           | _ \<Rightarrow> False)"
  by pat_completeness auto
termination
  by (relation "measure length") auto

section \<open>Frames\<close>

datatype frame_error =
    Eof
  | Oversize nat
  | NotUtf8
  | PayloadTooLarge nat
  | FrameIo io_error_kind

definition read_frame ::
  "(nat \<Rightarrow> bool) \<Rightarrow> byte_reader \<Rightarrow> frame_error + byte list \<times> byte_reader"
where
  "read_frame reserve r =
     (case read_exact 4 r of
        Inl UnexpectedEof \<Rightarrow> Inl Eof
      | Inl e \<Rightarrow> Inl (FrameIo e)
      | Inr (header, r) \<Rightarrow>
          let declared = from_le_bytes header
          in if declared > MAX_FRAME_BYTES then Inl (Oversize declared)
             else if \<not> reserve declared then Inl (Oversize declared)
             else case read_exact declared r of
                    Inl e \<Rightarrow> Inl (FrameIo e)
                  | Inr (buf, r) \<Rightarrow> (if is_utf8 buf then Inr (buf, r) else Inl NotUtf8))"

definition write_frame :: "byte list \<Rightarrow> byte_writer \<Rightarrow> frame_error option \<times> byte_writer" where
  "write_frame payload w =
     (if length payload > MAX_FRAME_BYTES then (Some (PayloadTooLarge (length payload)), w)
      else case write_all (to_le_bytes (length payload)) w of
             (False, w) \<Rightarrow> (Some (FrameIo OtherIo), w)
           | (True, w) \<Rightarrow>
               (case write_all payload w of
                  (False, w) \<Rightarrow> (Some (FrameIo OtherIo), w)
                | (True, w) \<Rightarrow> (if wr_flushes w then None else Some (FrameIo OtherIo), w)))"

text \<open>The reader thread: frames are decoded and handed on until one does not read or does not
  decode. An undecodable payload is reported as \<open>NotUtf8\<close>.\<close>

definition reader_turn ::
  "(nat \<Rightarrow> bool) \<Rightarrow> (byte list \<Rightarrow> 'm option) \<Rightarrow> byte_reader \<Rightarrow> frame_error + 'm \<times> byte_reader"
where
  "reader_turn reserve decode r =
     (case read_frame reserve r of
        Inl e \<Rightarrow> Inl e
      | Inr (buf, r) \<Rightarrow> (case decode buf of None \<Rightarrow> Inl NotUtf8 | Some msg \<Rightarrow> Inr (msg, r)))"

lemma reader_turn_consumes:
  assumes "reader_turn reserve decode r = Inr (msg, r')"
  shows "length (rd_bytes r') < length (rd_bytes r)"
proof -
  have "4 \<le> length (rd_bytes r) \<and> length (rd_bytes r') \<le> length (rd_bytes r) - 4"
    using assms
    by (auto simp: reader_turn_def read_frame_def read_exact_def Let_def diff_le_mono2
             split: sum.splits option.splits if_splits stream_end.splits)
  then show ?thesis by linarith
qed

function reader_loop ::
  "(nat \<Rightarrow> bool) \<Rightarrow> (byte list \<Rightarrow> 'm option) \<Rightarrow> byte_reader \<Rightarrow> 'm list \<times> frame_error"
where
  "reader_loop reserve decode r =
     (case reader_turn reserve decode r of
        Inl e \<Rightarrow> ([], e)
      | Inr (msg, r) \<Rightarrow> (case reader_loop reserve decode r of (msgs, e) \<Rightarrow> (msg # msgs, e)))"
  by pat_completeness auto
termination
  by (relation "measure (\<lambda>(_, _, r). length (rd_bytes r))") (auto dest: reader_turn_consumes)

declare reader_loop.simps [simp del]

text \<open>The writer thread: one frame for every payload it receives, until a write fails.\<close>

fun writer_loop :: "byte list list \<Rightarrow> byte_writer \<Rightarrow> frame_error option \<times> byte_writer" where
  "writer_loop [] w = (None, w)"
| "writer_loop (bytes # rest) w =
     (case write_frame bytes w of
        (None, w) \<Rightarrow> writer_loop rest w
      | (Some e, w) \<Rightarrow> (Some e, w))"

section \<open>The codec\<close>

definition frame_bytes :: "byte list \<Rightarrow> byte list" where
  "frame_bytes payload = to_le_bytes (length payload) @ payload"

definition sendable :: "byte list \<Rightarrow> bool" where
  "sendable payload \<longleftrightarrow> length payload \<le> MAX_FRAME_BYTES \<and> is_utf8 payload"

lemma length_to_le [simp]: "length (to_le_bytes n) = 4"
  by (simp add: to_le_bytes_def)

lemma four_bytes: "length bs = 4 \<Longrightarrow> \<exists>a b c d. bs = [a, b, c, d]"
  by (auto simp: numeral_eq_Suc length_Suc_conv)

lemma unat_byte: "unat (word_of_nat n :: byte) = n mod 256"
  by (simp add: unat_of_nat)

lemma le_digits:
  fixes n :: nat
  assumes "n < 4294967296"
  shows "n mod 256 + 256 * (n div 256 mod 256 + 256 * (n div 65536 mod 256
           + 256 * (n div 16777216 mod 256))) = n"
proof -
  have "n div 65536 = n div 256 div 256" "n div 16777216 = n div 256 div 256 div 256"
    by (simp_all add: div_mult2_eq [symmetric])
  moreover have "n div 16777216 < 256" using assms by (simp add: less_mult_imp_div_less)
  ultimately show ?thesis by (simp add: mod_mult_div_eq)
qed

lemma le_bytes: "n < 4294967296 \<Longrightarrow> from_le_bytes (to_le_bytes n) = n"
  using le_digits by (simp add: from_le_bytes_def to_le_bytes_def unat_byte)

lemma unat_byte_less: "unat (b :: byte) < 256"
  using unsigned_less [of b] by simp

lemma byte_eqI: "n mod 256 = unat b \<Longrightarrow> word_of_nat n = (b :: byte)"
  by (simp add: word_unat_eq_iff unat_byte)

lemma div_digit: "a < (256 :: nat) \<Longrightarrow> (a + 256 * n) div 256 = n \<and> (a + 256 * n) mod 256 = a"
  by simp

lemma le_bytes_inverse:
  assumes "length bs = 4" shows "to_le_bytes (from_le_bytes bs) = bs"
proof -
  obtain a b c d where bs: "bs = [a, b, c, d]" using four_bytes [OF assms] by blast
  define n2 where "n2 = unat c + 256 * unat d"
  define n1 where "n1 = unat b + 256 * n2"
  define n where "n = unat a + 256 * n1"
  note digit = div_digit [OF unat_byte_less]
  have digits: "n div 256 = n1" "n mod 256 = unat a" "n1 div 256 = n2" "n1 mod 256 = unat b"
    "n2 div 256 = unat d" "n2 mod 256 = unat c" "unat d mod 256 = unat d"
    unfolding n_def n1_def n2_def using digit [THEN conjunct1] digit [THEN conjunct2]
    by (blast | simp add: unat_byte_less)+
  have "n div 65536 = n2" "n div 16777216 = unat d"
    using div_mult2_eq [of n 256 256] div_mult2_eq [of n 256 65536] div_mult2_eq [of n1 256 256]
    by (simp_all add: digits)
  moreover have "from_le_bytes bs = n" by (simp add: bs from_le_bytes_def n_def n1_def n2_def)
  ultimately show ?thesis by (simp add: to_le_bytes_def bs byte_eqI digits)
qed

lemma read_exact_append [simp]:
  "n = length bs \<Longrightarrow> read_exact n (r\<lparr>rd_bytes := bs @ rest\<rparr>) = Inr (bs, r\<lparr>rd_bytes := rest\<rparr>)"
  by (simp add: read_exact_def)

lemma read_frame_bytes:
  assumes "sendable payload" and "reserve (length payload)"
  shows "read_frame reserve (r\<lparr>rd_bytes := frame_bytes payload @ rest\<rparr>)
       = Inr (payload, r\<lparr>rd_bytes := rest\<rparr>)"
proof -
  have "from_le_bytes (to_le_bytes (length payload)) = length payload"
    using assms(1) by (intro le_bytes) (simp add: sendable_def MAX_FRAME_BYTES_def)
  then show ?thesis
    using assms by (simp add: read_frame_def frame_bytes_def sendable_def)
qed

lemma frame_at:
  assumes "4 \<le> length bs" and "from_le_bytes (take 4 bs) \<le> length (drop 4 bs)"
  defines "n \<equiv> from_le_bytes (take 4 bs)"
  shows "bs = frame_bytes (take n (drop 4 bs)) @ drop n (drop 4 bs)" "length (take n (drop 4 bs)) = n"
proof -
  show len: "length (take n (drop 4 bs)) = n" using assms(2) by (simp add: n_def)
  have "to_le_bytes n = take 4 bs" unfolding n_def using assms(1) by (intro le_bytes_inverse) simp
  then show "bs = frame_bytes (take n (drop 4 bs)) @ drop n (drop 4 bs)"
    unfolding frame_bytes_def len by (metis append.assoc append_take_drop_id)
qed

lemma read_frame_OkD:
  assumes "read_frame reserve r = Inr (payload, r')"
  shows "sendable payload" "rd_bytes r = frame_bytes payload @ rd_bytes r'" "rd_end r' = rd_end r"
proof -
  define n where "n = from_le_bytes (take 4 (rd_bytes r))"
  have got: "4 \<le> length (rd_bytes r)" "n \<le> MAX_FRAME_BYTES" "n \<le> length (drop 4 (rd_bytes r))"
    "payload = take n (drop 4 (rd_bytes r))" "is_utf8 payload"
    "r' = r\<lparr>rd_bytes := drop n (drop 4 (rd_bytes r))\<rparr>"
    using assms unfolding n_def
    by (auto simp: read_frame_def read_exact_def Let_def not_less split: if_splits stream_end.splits)
  note at = frame_at [OF got(1) got(3) [unfolded n_def], folded n_def]
  show "sendable payload" using got at(2) by (simp add: sendable_def)
  show "rd_bytes r = frame_bytes payload @ rd_bytes r'" using at(1) got(4,6) by simp
  show "rd_end r' = rd_end r" using got(6) by simp
qed

lemma reader_loop_frames:
  assumes "\<forall>p \<in> set payloads. sendable p \<and> reserve (length p) \<and> decode p = Some (msg p)"
  shows "reader_loop reserve decode (r\<lparr>rd_bytes := concat (map frame_bytes payloads) @ rest\<rparr>)
       = (case reader_loop reserve decode (r\<lparr>rd_bytes := rest\<rparr>) of
            (msgs, e) \<Rightarrow> (map msg payloads @ msgs, e))"
  using assms
proof (induction payloads)
  case Nil
  then show ?case by simp
next
  case (Cons p ps)
  then show ?case
    using reader_loop.simps [of reserve decode
        "r\<lparr>rd_bytes := frame_bytes p @ concat (map frame_bytes ps) @ rest\<rparr>"]
    by (auto simp: reader_turn_def read_frame_bytes split: prod.splits)
qed

lemma write_frame_ok:
  assumes "length payload \<le> MAX_FRAME_BYTES" and "wr_room w = None" and "wr_flushes w"
  shows "write_frame payload w = (None, w\<lparr>wr_bytes := wr_bytes w @ frame_bytes payload\<rparr>)"
  using assms by (simp add: write_frame_def write_all_def frame_bytes_def)

lemma writer_loop_ok:
  assumes "\<forall>p \<in> set payloads. length p \<le> MAX_FRAME_BYTES" and "wr_room w = None" and "wr_flushes w"
  shows "writer_loop payloads w
       = (None, w\<lparr>wr_bytes := wr_bytes w @ concat (map frame_bytes payloads)\<rparr>)"
  using assms by (induction payloads arbitrary: w) (simp_all add: write_frame_ok)

section \<open>What crosses the pipe\<close>

text \<open>
  C16: Frames round-trip. What the writer thread puts on a pipe that does not break is read back
  by the reader thread as the same payloads in the same order, whatever follows them on the stream
  being read as if nothing had preceded it.
\<close>

theorem frames_round_trip:
  assumes "\<forall>p \<in> set payloads. sendable p \<and> reserve (length p) \<and> decode p = Some (msg p)"
    and "wr_room w = None" and "wr_flushes w"
  shows "\<exists>bytes. writer_loop payloads w = (None, w\<lparr>wr_bytes := wr_bytes w @ bytes\<rparr>)
     \<and> (\<forall>rest ending. reader_loop reserve decode \<lparr>rd_bytes = bytes @ rest, rd_end = ending\<rparr>
          = (case reader_loop reserve decode \<lparr>rd_bytes = rest, rd_end = ending\<rparr> of
               (msgs, e) \<Rightarrow> (map msg payloads @ msgs, e)))"
proof (intro exI [of _ "concat (map frame_bytes payloads)"] conjI allI)
  show "writer_loop payloads w
      = (None, w\<lparr>wr_bytes := wr_bytes w @ concat (map frame_bytes payloads)\<rparr>)"
    using assms by (intro writer_loop_ok) (auto simp: sendable_def)
  show "reader_loop reserve decode \<lparr>rd_bytes = concat (map frame_bytes payloads) @ rest, rd_end = ending\<rparr>
      = (case reader_loop reserve decode \<lparr>rd_bytes = rest, rd_end = ending\<rparr> of
           (msgs, e) \<Rightarrow> (map msg payloads @ msgs, e))" for rest ending
    using reader_loop_frames [OF assms(1), where r = "\<lparr>rd_bytes = [], rd_end = ending\<rparr>" and rest = rest]
    by simp
qed

text \<open>What stopped the reader, by what was left on the stream.\<close>

fun stopped_on :: "(nat \<Rightarrow> bool) \<Rightarrow> (byte list \<Rightarrow> 'm option) \<Rightarrow> byte_reader \<Rightarrow> frame_error \<Rightarrow> bool" where
  "stopped_on reserve decode r Eof \<longleftrightarrow> length (rd_bytes r) < 4 \<and> rd_end r = EndOfStream"
| "stopped_on reserve decode r (Oversize n) \<longleftrightarrow>
     4 \<le> length (rd_bytes r) \<and> n = from_le_bytes (take 4 (rd_bytes r))
     \<and> (n > MAX_FRAME_BYTES \<or> \<not> reserve n)"
| "stopped_on reserve decode r NotUtf8 \<longleftrightarrow>
     (\<exists>payload rest. rd_bytes r = frame_bytes payload @ rest \<and> length payload \<le> MAX_FRAME_BYTES
        \<and> (\<not> is_utf8 payload \<or> decode payload = None))"
| "stopped_on reserve decode r (PayloadTooLarge n) \<longleftrightarrow> False"
| "stopped_on reserve decode r (FrameIo e) \<longleftrightarrow>
     (rd_end r = Broken \<and> length (rd_bytes r) < 4 \<and> e = OtherIo
      \<or> 4 \<le> length (rd_bytes r)
        \<and> length (rd_bytes r) - 4 < from_le_bytes (take 4 (rd_bytes r))
        \<and> from_le_bytes (take 4 (rd_bytes r)) \<le> MAX_FRAME_BYTES
        \<and> e = (if rd_end r = Broken then OtherIo else UnexpectedEof))"

lemma stopped_on_error:
  assumes "reader_turn reserve decode r = Inl e"
  shows "stopped_on reserve decode r e"
proof (cases "read_frame reserve r")
  case (Inr ok)
  then obtain buf r' where ok: "read_frame reserve r = Inr (buf, r')" by (cases ok) simp
  then have e: "e = NotUtf8" "decode buf = None"
    using assms by (auto simp: reader_turn_def split: option.splits)
  then show ?thesis using read_frame_OkD [OF ok] by (auto simp: sendable_def)
next
  case (Inl e')
  then have e': "e' = e" using assms by (simp add: reader_turn_def)
  define n where "n = from_le_bytes (take 4 (rd_bytes r))"
  show ?thesis
  proof (cases "e = NotUtf8")
    case True
    then have got: "4 \<le> length (rd_bytes r)" "n \<le> MAX_FRAME_BYTES" "n \<le> length (drop 4 (rd_bytes r))"
      "\<not> is_utf8 (take n (drop 4 (rd_bytes r)))"
      using Inl unfolding e' n_def
      by (auto simp: read_frame_def read_exact_def Let_def not_less split: if_splits stream_end.splits)
    note at = frame_at [OF got(1) got(3) [unfolded n_def], folded n_def]
    show ?thesis unfolding True stopped_on.simps using at got(2,4) by metis
  next
    case False
    then show ?thesis
      using Inl unfolding e'
      by (auto simp: read_frame_def read_exact_def Let_def not_less split: if_splits stream_end.splits)
  qed
qed

lemma reader_turn_OkD:
  assumes "reader_turn reserve decode r = Inr (m, r')"
  obtains payload where "sendable payload" "decode payload = Some m"
    "rd_bytes r = frame_bytes payload @ rd_bytes r'" "rd_end r' = rd_end r"
proof -
  from assms obtain payload where "read_frame reserve r = Inr (payload, r')" "decode payload = Some m"
    by (auto simp: reader_turn_def split: sum.splits option.splits)
  then show ?thesis using that read_frame_OkD by blast
qed

text \<open>
  C15: A stream is read exactly. On any bytes at all the reader ends, having delivered the
  decodings of whole frames that are a prefix of the stream, and the error it ends with says what
  was left: fewer than four bytes of an ended stream, a length over the cap or beyond what could be
  reserved (its body unread), a body cut short or a broken pipe, or a payload that is not UTF-8 or
  does not decode.
\<close>

theorem stream_is_read_exactly:
  "\<exists>payloads left. map decode payloads = map Some (fst (reader_loop reserve decode r))
     \<and> stopped_on reserve decode left (snd (reader_loop reserve decode r))
     \<and> list_all sendable payloads \<and> rd_end left = rd_end r
     \<and> rd_bytes r = concat (map frame_bytes payloads) @ rd_bytes left"
proof (induction reserve decode r rule: reader_loop.induct)
  case (1 reserve decode r)
  show ?case
  proof (cases "reader_turn reserve decode r")
    case (Inl e)
    then show ?thesis
      using stopped_on_error [OF Inl] reader_loop.simps [of reserve decode r]
      by (intro exI [of _ "[]"] exI [of _ r]) simp
  next
    case (Inr ok)
    then obtain m r' where ok: "reader_turn reserve decode r = Inr (m, r')" by (cases ok) simp
    obtain p where p: "sendable p" "decode p = Some m" "rd_bytes r = frame_bytes p @ rd_bytes r'"
      "rd_end r' = rd_end r" using reader_turn_OkD [OF ok] .
    obtain ps left where "map decode ps = map Some (fst (reader_loop reserve decode r'))"
      "stopped_on reserve decode left (snd (reader_loop reserve decode r'))"
      "list_all sendable ps" "rd_end left = rd_end r'"
      "rd_bytes r' = concat (map frame_bytes ps) @ rd_bytes left"
      using "1.IH" [OF ok refl] by blast
    then show ?thesis
      using p reader_loop.simps [of reserve decode r] ok
      by (intro exI [of _ "p # ps"] exI [of _ left]) (auto split: prod.splits)
  qed
qed

theorem frames_round_trip_witness:
  "\<exists>bytes. writer_loop [[123, 125], [194, 163]] \<lparr>wr_bytes = [], wr_room = None, wr_flushes = True\<rparr>
       = (None, \<lparr>wr_bytes = bytes, wr_room = None, wr_flushes = True\<rparr>)
     \<and> reader_loop (\<lambda>_. True) Some \<lparr>rd_bytes = bytes @ [0, 0, 0, 1], rd_end = EndOfStream\<rparr>
       = ([[123, 125], [194, 163]], Oversize 16777216)"
proof -
  have "\<forall>p \<in> set [[123, 125], [194, 163]]. sendable p \<and> True \<and> Some p = Some p"
    by (simp add: sendable_def MAX_FRAME_BYTES_def within_def after_lead_def)
  from frames_round_trip [OF this, of "\<lparr>wr_bytes = [], wr_room = None, wr_flushes = True\<rparr>"]
  show ?thesis
    using reader_loop.simps [of "\<lambda>_. True" Some "\<lparr>rd_bytes = [0, 0, 0, 1], rd_end = EndOfStream\<rparr>"]
    by (force simp: reader_turn_def read_frame_def read_exact_def from_le_bytes_def MAX_FRAME_BYTES_def)
qed

end
