(* ===== verification/Proto_Publish.thy ===== *)
theory Proto_Publish
  imports Proto_Frame
begin

text \<open>
  Topics, their queues and the publisher (\<open>proto/wire.rs\<close>, \<open>proto/pubsub.rs\<close>), the bounded
  channel to the writer (\<open>proto/transport.rs\<close>, \<open>proto/txguard.rs\<close>) and the consumer that
  counts what arrives (\<open>app/src/main/core/streams.ts\<close>). A payload is a value of any type; how a
  frame is encoded is an argument, \<open>None\<close> where it does not serialise. The channel holds the
  frames whose encodings the writer will write.
\<close>

section \<open>The wire\<close>

type_synonym u64 = "64 word"   \<comment> \<open>an epoch or a request id: compared and echoed, never computed with\<close>

datatype topic = TInstall | TScan | TProjects | TSession | TCore | TAccounts | TSync

fun topic_name :: "topic \<Rightarrow> string" where
  "topic_name TInstall = ''install''"
| "topic_name TScan = ''scan''"
| "topic_name TProjects = ''projects''"
| "topic_name TSession = ''session''"
| "topic_name TCore = ''core''"
| "topic_name TAccounts = ''accounts''"
| "topic_name TSync = ''sync''"

definition all_topics :: "topic list" where
  "all_topics = [TInstall, TScan, TProjects, TSession, TCore, TAccounts, TSync]"

definition topic_of_name :: "string \<Rightarrow> topic option" where
  "topic_of_name s = find (\<lambda>t. topic_name t = s) all_topics"

datatype wire_outcome = OutcomeUnknown

datatype 'v outbound =
    Hello nat string u64 nat
  | Response u64 u64 'v
  | ErrorFrame u64 u64 string string "wire_outcome option"
  | Event u64 topic string nat 'v
  | SnapshotFrame u64 topic nat 'v

datatype 'v inbound =
    Request u64 string 'v
  | Subscribe topic
  | Unsubscribe topic
  | Resync topic

fun frame_topic :: "'v outbound \<Rightarrow> topic option" where
  "frame_topic (Event _ t _ _ _) = Some t"
| "frame_topic (SnapshotFrame _ t _ _) = Some t"
| "frame_topic _ = None"

section \<open>The channel to the writer\<close>

datatype send_error = InTransaction | QueueFull | WriterClosed | TooLarge nat | EncodeFailed

record 'v channel =
  ch_capacity :: nat
  ch_queue :: "'v outbound list"
  ch_open :: bool

definition encode_frame ::
  "('v outbound \<Rightarrow> byte list option) \<Rightarrow> 'v outbound \<Rightarrow> send_error + byte list"
where
  "encode_frame encode frame =
     (case encode frame of
        None \<Rightarrow> Inl EncodeFailed
      | Some bytes \<Rightarrow> (if length bytes > MAX_FRAME_BYTES then Inl (TooLarge (length bytes)) else Inr bytes))"

definition try_send ::
  "('v outbound \<Rightarrow> byte list option) \<Rightarrow> bool \<Rightarrow> 'v outbound \<Rightarrow> 'v channel \<Rightarrow> send_error + 'v channel"
where
  "try_send encode in_tx frame ch =
     (if in_tx then Inl InTransaction
      else case encode_frame encode frame of
        Inl e \<Rightarrow> Inl e
      | Inr _ \<Rightarrow>
          (if \<not> ch_open ch then Inl WriterClosed
           else if length (ch_queue ch) \<ge> ch_capacity ch then Inl QueueFull
           else Inr (ch\<lparr>ch_queue := ch_queue ch @ [frame]\<rparr>)))"

text \<open>The blocking send: \<open>None\<close> while it waits for room.\<close>

definition send ::
  "('v outbound \<Rightarrow> byte list option) \<Rightarrow> bool \<Rightarrow> 'v outbound \<Rightarrow> 'v channel
   \<Rightarrow> (send_error + 'v channel) option"
where
  "send encode in_tx frame ch =
     (case try_send encode in_tx frame ch of
        Inl QueueFull \<Rightarrow> None
      | res \<Rightarrow> Some res)"

section \<open>One topic's queue\<close>

datatype 'v queued = Delta nat string 'v | Snapshot nat 'v

record 'v topic_queue =
  tq_high_water :: nat
  tq_next_seq :: nat
  tq_pending :: "'v queued list"

definition TOPIC_HIGH_WATER :: nat where "TOPIC_HIGH_WATER = 256"
definition WRITER_CAPACITY :: nat where "WRITER_CAPACITY = 64"

definition tq_new :: "nat \<Rightarrow> 'v topic_queue" where
  "tq_new high_water = \<lparr>tq_high_water = high_water, tq_next_seq = 1, tq_pending = []\<rparr>"

definition tq_push :: "string \<Rightarrow> 'v \<Rightarrow> 'v topic_queue \<Rightarrow> nat \<times> 'v topic_queue" where
  "tq_push event data q =
     (let seq = tq_next_seq q
      in (seq, q\<lparr>tq_next_seq := sat_u64 (seq + 1), tq_pending := tq_pending q @ [Delta seq event data]\<rparr>))"

definition over_high_water :: "'v topic_queue \<Rightarrow> bool" where
  "over_high_water q \<longleftrightarrow> length (tq_pending q) > tq_high_water q"

definition through_seq :: "'v topic_queue \<Rightarrow> nat" where
  "through_seq q = tq_next_seq q - 1"

definition replace_with_snapshot :: "'v \<Rightarrow> 'v topic_queue \<Rightarrow> 'v topic_queue" where
  "replace_with_snapshot data q = q\<lparr>tq_pending := [Snapshot (through_seq q) data]\<rparr>"

section \<open>The publisher\<close>

datatype published = Sent nat | NeedsSnapshot nat | Unsubscribed

text \<open>The sink is \<open>pb_attached\<close>; the channel it leads to is shared with the loop and so passed
  to every operation that writes.\<close>

record 'v publisher =
  pb_attached :: bool
  pb_epoch :: u64
  pb_high_water :: nat
  pb_topics :: "(topic \<times> 'v topic_queue) list"

definition pb_new :: "u64 \<Rightarrow> nat \<Rightarrow> 'v publisher" where
  "pb_new epoch high_water =
     \<lparr>pb_attached = True, pb_epoch = epoch, pb_high_water = high_water, pb_topics = []\<rparr>"

definition subscribed :: "topic \<Rightarrow> 'v publisher \<Rightarrow> bool" where
  "subscribed t p \<longleftrightarrow> map_of (pb_topics p) t \<noteq> None"

definition subscribe :: "topic \<Rightarrow> 'v publisher \<Rightarrow> 'v publisher" where
  "subscribe t p =
     (if subscribed t p then p
      else p\<lparr>pb_topics := pb_topics p @ [(t, tq_new (pb_high_water p))]\<rparr>)"

definition unsubscribe :: "topic \<Rightarrow> 'v publisher \<Rightarrow> 'v publisher" where
  "unsubscribe t p = p\<lparr>pb_topics := filter (\<lambda>(s, _). s \<noteq> t) (pb_topics p)\<rparr>"

definition set_queue :: "topic \<Rightarrow> 'v topic_queue \<Rightarrow> 'v publisher \<Rightarrow> 'v publisher" where
  "set_queue t q p =
     p\<lparr>pb_topics := map (\<lambda>(s, old). (s, if s = t then q else old)) (pb_topics p)\<rparr>"

fun queued_frame :: "u64 \<Rightarrow> topic \<Rightarrow> 'v queued \<Rightarrow> 'v outbound" where
  "queued_frame epoch t (Delta seq event data) = Event epoch t event seq data"
| "queued_frame epoch t (Snapshot through data) = SnapshotFrame epoch t through data"

text \<open>\<open>flush_one\<close>'s loop: frames leave from the front until one is refused, for whatever reason.\<close>

fun flush_queue ::
  "('v outbound \<Rightarrow> byte list option) \<Rightarrow> bool \<Rightarrow> u64 \<Rightarrow> topic \<Rightarrow> 'v queued list \<Rightarrow> 'v channel
   \<Rightarrow> 'v queued list \<times> 'v channel"
where
  "flush_queue encode in_tx epoch t [] ch = ([], ch)"
| "flush_queue encode in_tx epoch t (head # rest) ch =
     (case try_send encode in_tx (queued_frame epoch t head) ch of
        Inl _ \<Rightarrow> (head # rest, ch)
      | Inr ch \<Rightarrow> flush_queue encode in_tx epoch t rest ch)"

definition flush_one ::
  "('v outbound \<Rightarrow> byte list option) \<Rightarrow> bool \<Rightarrow> topic \<Rightarrow> 'v publisher \<times> 'v channel
   \<Rightarrow> 'v publisher \<times> 'v channel"
where
  "flush_one encode in_tx t = (\<lambda>(p, ch).
     if \<not> pb_attached p then (p, ch)
     else case map_of (pb_topics p) t of
       None \<Rightarrow> (p, ch)
     | Some q \<Rightarrow>
         (case flush_queue encode in_tx (pb_epoch p) t (tq_pending q) ch of
            (pending, ch) \<Rightarrow> (set_queue t (q\<lparr>tq_pending := pending\<rparr>) p, ch)))"

definition publish ::
  "('v outbound \<Rightarrow> byte list option) \<Rightarrow> bool \<Rightarrow> topic \<Rightarrow> string \<Rightarrow> 'v
   \<Rightarrow> 'v publisher \<times> 'v channel \<Rightarrow> published \<times> 'v publisher \<times> 'v channel"
where
  "publish encode in_tx t event data = (\<lambda>(p, ch).
     case map_of (pb_topics p) t of
       None \<Rightarrow> (Unsubscribed, p, ch)
     | Some q \<Rightarrow>
         (case tq_push event data q of
            (seq, q) \<Rightarrow>
              (if over_high_water q then NeedsSnapshot seq else Sent seq,
               flush_one encode in_tx t (set_queue t q p, ch))))"

definition supply_snapshot ::
  "('v outbound \<Rightarrow> byte list option) \<Rightarrow> bool \<Rightarrow> topic \<Rightarrow> 'v
   \<Rightarrow> 'v publisher \<times> 'v channel \<Rightarrow> 'v publisher \<times> 'v channel"
where
  "supply_snapshot encode in_tx t data = (\<lambda>(p, ch).
     flush_one encode in_tx t
       (case map_of (pb_topics p) t of
          None \<Rightarrow> p
        | Some q \<Rightarrow> set_queue t (replace_with_snapshot data q) p, ch))"

definition resync :: "topic \<Rightarrow> 'v publisher \<Rightarrow> nat option" where
  "resync t p = map_option through_seq (map_of (pb_topics p) t)"

definition flush ::
  "('v outbound \<Rightarrow> byte list option) \<Rightarrow> bool \<Rightarrow> 'v publisher \<times> 'v channel
   \<Rightarrow> 'v publisher \<times> 'v channel"
where
  "flush encode in_tx = (\<lambda>(p, ch). fold (flush_one encode in_tx) (map fst (pb_topics p)) (p, ch))"

definition close_publisher :: "'v publisher \<Rightarrow> 'v publisher" where
  "close_publisher p = p\<lparr>pb_attached := False\<rparr>"

text \<open>\<open>PublisherSink\<close>: the publisher and the topics whose queues passed the mark. An event on
  a name that is no topic is dropped.\<close>

record 'v publisher_sink =
  ps_inner :: "'v publisher"
  ps_wants :: "topic list"

definition emit ::
  "('v outbound \<Rightarrow> byte list option) \<Rightarrow> bool \<Rightarrow> string \<Rightarrow> string \<Rightarrow> 'v
   \<Rightarrow> 'v publisher_sink \<times> 'v channel \<Rightarrow> 'v publisher_sink \<times> 'v channel"
where
  "emit encode in_tx name event payload = (\<lambda>(ps, ch).
     case topic_of_name name of
       None \<Rightarrow> (ps, ch)
     | Some t \<Rightarrow>
         (case publish encode in_tx t event payload (ps_inner ps, ch) of
            (outcome, p, ch) \<Rightarrow>
              (ps\<lparr>ps_inner := p,
                  ps_wants := ps_wants ps @ (case outcome of NeedsSnapshot _ \<Rightarrow> [t] | _ \<Rightarrow> [])\<rparr>, ch)))"

definition take_snapshot_requests :: "'v publisher_sink \<Rightarrow> topic list \<times> 'v publisher_sink" where
  "take_snapshot_requests ps = (ps_wants ps, ps\<lparr>ps_wants := []\<rparr>)"

section \<open>The consumer\<close>

record stream_state =
  st_epoch :: u64
  st_last :: "nat option"

datatype accept_result =
  Delivered nat | SnapshotTaken nat | Gap nat nat | StaleEpoch | Replayed

definition new_stream_state :: "u64 \<Rightarrow> stream_state" where
  "new_stream_state epoch = \<lparr>st_epoch = epoch, st_last = None\<rparr>"

fun accept_frame :: "'v outbound \<Rightarrow> stream_state \<Rightarrow> accept_result \<times> stream_state" where
  "accept_frame (SnapshotFrame epoch t through data) st =
     (if epoch \<noteq> st_epoch st then (StaleEpoch, st)
      else (SnapshotTaken through, st\<lparr>st_last := Some through\<rparr>))"
| "accept_frame (Event epoch t event seq data) st =
     (if epoch \<noteq> st_epoch st then (StaleEpoch, st)
      else case st_last st of
        None \<Rightarrow> (Delivered seq, st\<lparr>st_last := Some seq\<rparr>)
      | Some prev \<Rightarrow>
          (if seq \<le> prev then (Replayed, st)
           else if seq > prev + 1 then (Gap (prev + 1) seq, st)
           else (Delivered seq, st\<lparr>st_last := Some seq\<rparr>)))"
| "accept_frame _ st = (StaleEpoch, st)"

fun accept_all :: "'v outbound list \<Rightarrow> stream_state \<Rightarrow> accept_result list \<times> stream_state" where
  "accept_all [] st = ([], st)"
| "accept_all (f # fs) st =
     (case accept_frame f st of
        (r, st1) \<Rightarrow> (case accept_all fs st1 of (rs, st2) \<Rightarrow> (r # rs, st2)))"

section \<open>A stream without gaps\<close>

text \<open>What the consumer ought to meet: every delta the next one, and no snapshot older than what it
  already has.\<close>

fun expected :: "nat option \<Rightarrow> accept_result \<Rightarrow> bool" where
  "expected prev (Delivered seq) \<longleftrightarrow> (case prev of None \<Rightarrow> True | Some n \<Rightarrow> seq = n + 1)"
| "expected prev (SnapshotTaken through) \<longleftrightarrow> (case prev of None \<Rightarrow> True | Some n \<Rightarrow> n \<le> through)"
| "expected prev _ \<longleftrightarrow> False"

fun runs_on :: "'v outbound list \<Rightarrow> stream_state \<Rightarrow> stream_state option" where
  "runs_on [] st = Some st"
| "runs_on (f # fs) st =
     (case accept_frame f st of
        (r, st1) \<Rightarrow> (if expected (st_last st) r then runs_on fs st1 else None))"

lemma runs_on_append: "runs_on (fs @ gs) st = Option.bind (runs_on fs st) (runs_on gs)"
  by (induction fs arbitrary: st) (auto split: prod.splits)

lemma runs_on_prefix: "runs_on (fs @ gs) st \<noteq> None \<Longrightarrow> runs_on fs st \<noteq> None"
  by (cases "runs_on fs st") (simp_all add: runs_on_append)

lemma accept_expected:
  assumes "accept_frame f st = (r, st1)" and "expected (st_last st) r"
  shows "st_epoch st1 = st_epoch st \<and> (\<exists>m. st_last st1 = Some m \<and> (\<forall>n. st_last st = Some n \<longrightarrow> n \<le> m))"
  using assms by (cases f; cases "st_last st") (auto split: if_splits)

lemma runs_on_grows:
  "runs_on fs st = Some st' \<Longrightarrow>
     st_epoch st' = st_epoch st \<and> (\<forall>n. st_last st = Some n \<longrightarrow> (\<exists>m. st_last st' = Some m \<and> n \<le> m))"
proof (induction fs arbitrary: st)
  case (Cons f fs)
  obtain r st1 where step: "accept_frame f st = (r, st1)" by fastforce
  then show ?case
    using Cons.prems accept_expected [OF step] Cons.IH [of st1]
    by (auto split: if_splits intro: order_trans)
qed simp

lemma runs_on_results:
  "runs_on fs st = Some st' \<Longrightarrow>
     snd (accept_all fs st) = st'
     \<and> (\<forall>r \<in> set (fst (accept_all fs st)). (\<exists>n. r = Delivered n) \<or> (\<exists>n. r = SnapshotTaken n))"
proof (induction fs arbitrary: st)
  case (Cons f fs)
  obtain r st1 where step: "accept_frame f st = (r, st1)" by fastforce
  then have e: "expected (st_last st) r" and run: "runs_on fs st1 = Some st'"
    using Cons.prems by (simp_all split: if_splits)
  have "(\<exists>n. r = Delivered n) \<or> (\<exists>n. r = SnapshotTaken n)" using e by (cases r) auto
  then show ?case using Cons.IH [OF run] step by (auto split: prod.splits)
qed simp

text \<open>The frames still queued for a topic continue the stream of a consumer that has read \<open>wire\<close>
  and leave it at the last number handed out.\<close>

definition continues :: "u64 \<Rightarrow> topic \<Rightarrow> 'v topic_queue \<Rightarrow> 'v outbound list \<Rightarrow> bool" where
  "continues epoch t q wire \<longleftrightarrow>
     (\<exists>prev. runs_on (wire @ map (queued_frame epoch t) (tq_pending q)) (new_stream_state epoch)
             = Some \<lparr>st_epoch = epoch, st_last = prev\<rparr>
           \<and> 1 \<le> tq_next_seq q \<and> (prev = None \<or> prev = Some (tq_next_seq q - 1)))"

lemma continues_new: "continues epoch t (tq_new high_water) []"
  by (simp add: continues_def tq_new_def new_stream_state_def)

lemma continues_push:
  assumes "continues epoch t q wire" and "tq_next_seq q < u64_max"
  shows "continues epoch t (snd (tq_push event data q)) wire"
proof -
  obtain prev where prev: "runs_on (wire @ map (queued_frame epoch t) (tq_pending q)) (new_stream_state epoch)
        = Some \<lparr>st_epoch = epoch, st_last = prev\<rparr>"
      "1 \<le> tq_next_seq q" "prev = None \<or> prev = Some (tq_next_seq q - 1)"
    using assms(1) unfolding continues_def by blast
  have "runs_on [Event epoch t event (tq_next_seq q) data] \<lparr>st_epoch = epoch, st_last = prev\<rparr>
      = Some \<lparr>st_epoch = epoch, st_last = Some (tq_next_seq q)\<rparr>"
    using prev(2,3) by auto
  then have "runs_on ((wire @ map (queued_frame epoch t) (tq_pending q))
         @ [Event epoch t event (tq_next_seq q) data]) (new_stream_state epoch)
       = Some \<lparr>st_epoch = epoch, st_last = Some (tq_next_seq q)\<rparr>"
    unfolding runs_on_append [of "wire @ map (queued_frame epoch t) (tq_pending q)"] prev(1) by simp
  then show ?thesis
    using assms(2) by (simp add: continues_def tq_push_def Let_def sat_u64_def)
qed

lemma continues_snapshot:
  assumes "continues epoch t q wire"
  shows "continues epoch t (replace_with_snapshot data q) wire"
proof -
  obtain prev where prev: "runs_on (wire @ map (queued_frame epoch t) (tq_pending q)) (new_stream_state epoch)
        = Some \<lparr>st_epoch = epoch, st_last = prev\<rparr>"
      "1 \<le> tq_next_seq q" "prev = None \<or> prev = Some (tq_next_seq q - 1)"
    using assms(1) unfolding continues_def by blast
  obtain st where st: "runs_on wire (new_stream_state epoch) = Some st"
    "runs_on (map (queued_frame epoch t) (tq_pending q)) st = Some \<lparr>st_epoch = epoch, st_last = prev\<rparr>"
    using prev(1) by (auto simp: runs_on_append split: bind_splits)
  have epoch: "st_epoch st = epoch" using runs_on_grows [OF st(1)] by (simp add: new_stream_state_def)
  have "n \<le> through_seq q" if "st_last st = Some n" for n
    using runs_on_grows [OF st(2)] that prev(3) by (auto simp: through_seq_def)
  then have "runs_on [SnapshotFrame epoch t (through_seq q) data] st
      = Some \<lparr>st_epoch = epoch, st_last = Some (through_seq q)\<rparr>"
    using epoch by (auto split: option.split)
  then have "runs_on (wire @ [SnapshotFrame epoch t (through_seq q) data]) (new_stream_state epoch)
      = Some \<lparr>st_epoch = epoch, st_last = Some (through_seq q)\<rparr>"
    by (simp only: runs_on_append st(1) bind.bind_lunit)
  then show ?thesis
    using prev(2) by (simp add: continues_def replace_with_snapshot_def through_seq_def)
qed

section \<open>Operations that keep a stream\<close>

definition topic_frames :: "topic \<Rightarrow> 'v outbound list \<Rightarrow> 'v outbound list" where
  "topic_frames t fs = filter (\<lambda>f. frame_topic f = Some t) fs"

lemma topic_frames_simps [simp]:
  "topic_frames t [] = []"
  "topic_frames t (fs @ gs) = topic_frames t fs @ topic_frames t gs"
  by (simp_all add: topic_frames_def)

lemma frame_topic_queued [simp]: "frame_topic (queued_frame epoch t f) = Some t"
  by (cases f) simp_all

lemma topic_frames_queued [simp]:
  "topic_frames t (map (queued_frame epoch s) fs) = (if s = t then map (queued_frame epoch s) fs else [])"
  by (induction fs) (auto simp: topic_frames_def)

definition stream_ok :: "u64 \<Rightarrow> topic \<Rightarrow> 'v outbound list \<Rightarrow> 'v publisher \<Rightarrow> bool" where
  "stream_ok epoch t wire p \<longleftrightarrow>
     pb_epoch p = epoch
     \<and> (\<exists>q. map_of (pb_topics p) t = Some q \<and> continues epoch t q (topic_frames t wire))"

text \<open>A topic whose sequence numbers are not used up.\<close>

definition live :: "topic \<Rightarrow> 'v publisher \<Rightarrow> bool" where
  "live t p \<longleftrightarrow> (\<exists>q. map_of (pb_topics p) t = Some q \<and> tq_next_seq q < u64_max)"

text \<open>What the process relies on: an operation on the publisher only appends to the channel, and
  what it appends and what stays queued continue the stream of every live topic.\<close>

locale stream_op =
  fixes run :: "'v publisher \<times> 'v channel \<Rightarrow> 'v publisher \<times> 'v channel"
    and kept :: "topic \<Rightarrow> bool"
  assumes appends: "\<exists>new. ch_queue (snd (run (p, ch))) = ch_queue ch @ new
      \<and> (\<forall>f \<in> set new. frame_topic f \<noteq> None)
      \<and> (kept t \<longrightarrow> live t p \<longrightarrow> stream_ok epoch t wire p \<longrightarrow> stream_ok epoch t (wire @ new) (fst (run (p, ch))))"
    and only_appends: "ch_open (snd (run (p, ch))) = ch_open ch"
      "\<not> ch_open ch \<Longrightarrow> ch_queue (snd (run (p, ch))) = ch_queue ch"
begin

lemma stream_kept:
  assumes "stream_ok epoch t (wire @ ch_queue ch) p" and "live t p" and "kept t"
  shows "stream_ok epoch t (wire @ ch_queue (snd (run (p, ch)))) (fst (run (p, ch)))"
  using appends [of p ch t epoch "wire @ ch_queue ch"] assms by auto

text \<open>No answer leaves through it.\<close>

lemma answers_kept:
  assumes "\<And>f. frame_topic f \<noteq> None \<Longrightarrow> g f = []"
  shows "concat (map g (ch_queue (snd (run (p, ch))))) = concat (map g (ch_queue ch))"
proof -
  obtain new where new: "ch_queue (snd (run (p, ch))) = ch_queue ch @ new"
    "\<forall>f \<in> set new. frame_topic f \<noteq> None" using appends by blast
  have "concat (map g new) = []" using new(2) assms by (induction new) simp_all
  then show ?thesis by (simp add: new(1))
qed

end

lemma map_of_set_queue [simp]:
  "map_of (pb_topics (set_queue t q p)) s =
     (if s = t then map_option (\<lambda>_. q) (map_of (pb_topics p) t) else map_of (pb_topics p) s)"
proof -
  have "map_of (map (\<lambda>(s, old). (s, if s = t then q else old)) xs) s =
     (if s = t then map_option (\<lambda>_. q) (map_of xs t) else map_of xs s)" for xs
    by (induction xs) auto
  then show ?thesis by (simp add: set_queue_def)
qed

lemma set_queue_fields [simp]:
  "pb_epoch (set_queue t q p) = pb_epoch p" "pb_attached (set_queue t q p) = pb_attached p"
  by (simp_all add: set_queue_def)

lemma try_send_InrD:
  assumes "try_send encode in_tx f ch = Inr ch'"
  shows "ch' = ch\<lparr>ch_queue := ch_queue ch @ [f]\<rparr> \<and> ch_open ch"
  using assms by (auto simp: try_send_def split: sum.splits if_splits)

lemma flush_queue_sends:
  assumes "flush_queue encode in_tx epoch t pending ch = (rest, ch')"
  shows "\<exists>sent. pending = sent @ rest \<and> ch' = ch\<lparr>ch_queue := ch_queue ch @ map (queued_frame epoch t) sent\<rparr>
       \<and> (\<not> ch_open ch \<longrightarrow> sent = [])"
  using assms
proof (induction encode in_tx epoch t pending ch rule: flush_queue.induct)
  case (2 encode in_tx epoch t head pending ch)
  show ?case
  proof (cases "try_send encode in_tx (queued_frame epoch t head) ch")
    case (Inr ch1)
    then obtain sent where sent: "pending = sent @ rest"
      "ch' = ch1\<lparr>ch_queue := ch_queue ch1 @ map (queued_frame epoch t) sent\<rparr>"
      using "2.IH" [OF Inr] "2.prems" by auto
    show ?thesis
      using sent try_send_InrD [OF Inr] by (intro exI [of _ "head # sent"]) simp
  qed (use "2.prems" in simp)
qed simp

lemma continues_flush:
  assumes "continues epoch t q wire" and "tq_pending q = sent @ rest"
  shows "continues epoch t (q\<lparr>tq_pending := rest\<rparr>) (wire @ map (queued_frame epoch t) sent)"
  using assms unfolding continues_def by simp

lemma flush_one_sends:
  "\<exists>new. ch_queue (snd (flush_one encode in_tx s (p, ch))) = ch_queue ch @ new
      \<and> (\<forall>f \<in> set new. frame_topic f \<noteq> None)
      \<and> (\<forall>t epoch wire. stream_ok epoch t wire p
           \<longrightarrow> stream_ok epoch t (wire @ new) (fst (flush_one encode in_tx s (p, ch))))
      \<and> ch_open (snd (flush_one encode in_tx s (p, ch))) = ch_open ch
      \<and> (\<not> ch_open ch \<longrightarrow> new = [])"
proof (cases "pb_attached p \<and> map_of (pb_topics p) s \<noteq> None")
  case True
  then obtain q where q: "map_of (pb_topics p) s = Some q" by blast
  obtain rest ch' where fl: "flush_queue encode in_tx (pb_epoch p) s (tq_pending q) ch = (rest, ch')"
    by fastforce
  obtain sent where sent: "tq_pending q = sent @ rest" "\<not> ch_open ch \<longrightarrow> sent = []"
    "ch' = ch\<lparr>ch_queue := ch_queue ch @ map (queued_frame (pb_epoch p) s) sent\<rparr>"
    using flush_queue_sends [OF fl] by blast
  have out: "flush_one encode in_tx s (p, ch) = (set_queue s (q\<lparr>tq_pending := rest\<rparr>) p, ch')"
    using True q fl by (simp add: flush_one_def)
  show ?thesis
    using sent continues_flush [OF _ sent(1)] q
    by (intro exI [of _ "map (queued_frame (pb_epoch p) s) sent"])
       (auto simp: out stream_ok_def)
qed (auto simp: flush_one_def)

text \<open>An operation that changes the topic's queue and then flushes it.\<close>

lemma flush_after:
  assumes "\<And>t epoch wire. kept t \<Longrightarrow> live t p \<Longrightarrow> stream_ok epoch t wire p \<Longrightarrow> stream_ok epoch t wire p1"
    and "run = flush_one encode in_tx s (p1, ch)"
  shows "\<exists>new. ch_queue (snd run) = ch_queue ch @ new
      \<and> (\<forall>f \<in> set new. frame_topic f \<noteq> None)
      \<and> (kept t \<longrightarrow> live t p \<longrightarrow> stream_ok epoch t wire p \<longrightarrow> stream_ok epoch t (wire @ new) (fst run))"
    and "ch_open (snd run) = ch_open ch"
    and "\<not> ch_open ch \<Longrightarrow> ch_queue (snd run) = ch_queue ch"
  using flush_one_sends [of encode in_tx s p1 ch] assms by (metis, metis, metis append_Nil2)

lemma stream_ok_set_queue:
  assumes "stream_ok epoch t wire p" and "map_of (pb_topics p) s = Some q"
    and "\<And>w. s = t \<Longrightarrow> continues epoch t q w \<Longrightarrow> continues epoch t q1 w"
  shows "stream_ok epoch t wire (set_queue s q1 p)"
  using assms by (auto simp: stream_ok_def)

interpretation publishing: stream_op "\<lambda>pc. snd (publish encode in_tx s event data pc)" "\<lambda>_. True"
  for encode in_tx s event data
proof
  fix p :: "'a publisher" and ch t epoch wire
  define run where "run = snd (publish encode in_tx s event data (p, ch))"
  define p1 where "p1 = (case map_of (pb_topics p) s of None \<Rightarrow> p
      | Some q \<Rightarrow> set_queue s (snd (tq_push event data q)) p)"
  have kept: "stream_ok epoch t wire p1" if "live t p" "stream_ok epoch t wire p" for t epoch wire
    using that continues_push
    by (auto simp: p1_def live_def split: option.split intro!: stream_ok_set_queue)
  have "run = flush_one encode in_tx s (p1, ch)"
    unfolding run_def p1_def publish_def by (auto simp: flush_one_def split: option.splits prod.splits)
  note all = flush_after [OF kept this, where kept = "\<lambda>_. True"]
  show "\<exists>new. ch_queue (snd run) = ch_queue ch @ new \<and> (\<forall>f \<in> set new. frame_topic f \<noteq> None)
      \<and> (True \<longrightarrow> live t p \<longrightarrow> stream_ok epoch t wire p \<longrightarrow> stream_ok epoch t (wire @ new) (fst run))"
    and "ch_open (snd run) = ch_open ch"
    and "\<not> ch_open ch \<Longrightarrow> ch_queue (snd run) = ch_queue ch"
    using all by blast+
qed

interpretation supplying: stream_op "supply_snapshot encode in_tx s data" "\<lambda>_. True"
  for encode in_tx s data
proof
  fix p :: "'a publisher" and ch t epoch wire
  define p1 where "p1 = (case map_of (pb_topics p) s of None \<Rightarrow> p
      | Some q \<Rightarrow> set_queue s (replace_with_snapshot data q) p)"
  have kept: "stream_ok epoch t wire p1" if "live t p" "stream_ok epoch t wire p" for t epoch wire
    using that continues_snapshot
    by (auto simp: p1_def split: option.split intro!: stream_ok_set_queue)
  have "supply_snapshot encode in_tx s data (p, ch) = flush_one encode in_tx s (p1, ch)"
    by (simp add: supply_snapshot_def p1_def)
  note all = flush_after [OF kept this, where kept = "\<lambda>_. True"]
  show "\<exists>new. ch_queue (snd (supply_snapshot encode in_tx s data (p, ch))) = ch_queue ch @ new
      \<and> (\<forall>f \<in> set new. frame_topic f \<noteq> None)
      \<and> (True \<longrightarrow> live t p \<longrightarrow> stream_ok epoch t wire p
           \<longrightarrow> stream_ok epoch t (wire @ new) (fst (supply_snapshot encode in_tx s data (p, ch))))"
    and "ch_open (snd (supply_snapshot encode in_tx s data (p, ch))) = ch_open ch"
    and "\<not> ch_open ch \<Longrightarrow> ch_queue (snd (supply_snapshot encode in_tx s data (p, ch))) = ch_queue ch"
    using all by blast+
qed

lemma flush_all_sends:
  "\<exists>new. ch_queue (snd (fold (flush_one encode in_tx) ts (p, ch))) = ch_queue ch @ new
      \<and> (\<forall>f \<in> set new. frame_topic f \<noteq> None)
      \<and> (\<forall>t epoch wire. stream_ok epoch t wire p
           \<longrightarrow> stream_ok epoch t (wire @ new) (fst (fold (flush_one encode in_tx) ts (p, ch))))
      \<and> ch_open (snd (fold (flush_one encode in_tx) ts (p, ch))) = ch_open ch
      \<and> (\<not> ch_open ch \<longrightarrow> new = [])"
proof (induction ts arbitrary: p ch)
  case (Cons s ts)
  obtain p1 ch1 where one: "flush_one encode in_tx s (p, ch) = (p1, ch1)" by fastforce
  obtain new1 where new1: "ch_queue ch1 = ch_queue ch @ new1" "\<forall>f \<in> set new1. frame_topic f \<noteq> None"
    "\<And>t epoch wire. stream_ok epoch t wire p \<Longrightarrow> stream_ok epoch t (wire @ new1) p1"
    "ch_open ch1 = ch_open ch" "\<not> ch_open ch \<longrightarrow> new1 = []"
    using flush_one_sends [of encode in_tx s p ch] unfolding one by auto
  obtain new2 where new2: "ch_queue (snd (fold (flush_one encode in_tx) ts (p1, ch1))) = ch_queue ch1 @ new2"
    "\<forall>f \<in> set new2. frame_topic f \<noteq> None"
    "\<And>t epoch wire. stream_ok epoch t wire p1
       \<Longrightarrow> stream_ok epoch t (wire @ new2) (fst (fold (flush_one encode in_tx) ts (p1, ch1)))"
    "ch_open (snd (fold (flush_one encode in_tx) ts (p1, ch1))) = ch_open ch1"
    "\<not> ch_open ch1 \<longrightarrow> new2 = []"
    using Cons.IH [of p1 ch1] by blast
  show ?case
    using new1 new2(1,2,4,5) new2(3) [OF new1(3)]
    by (intro exI [of _ "new1 @ new2"]) (auto simp: one)
qed simp

lemma stream_opI:
  assumes sends: "\<And>p ch. \<exists>new. ch_queue (snd (run (p, ch))) = ch_queue ch @ new
      \<and> (\<forall>f \<in> set new. frame_topic f \<noteq> None)
      \<and> (\<forall>t epoch wire. stream_ok epoch t wire p \<longrightarrow> stream_ok epoch t (wire @ new) (fst (run (p, ch))))
      \<and> ch_open (snd (run (p, ch))) = ch_open ch \<and> (\<not> ch_open ch \<longrightarrow> new = [])"
  shows "stream_op run kept"
proof unfold_locales
  fix p ch t epoch wire
  obtain new where new: "ch_queue (snd (run (p, ch))) = ch_queue ch @ new" "\<forall>f \<in> set new. frame_topic f \<noteq> None"
    "\<And>t epoch wire. stream_ok epoch t wire p \<Longrightarrow> stream_ok epoch t (wire @ new) (fst (run (p, ch)))"
    "ch_open (snd (run (p, ch))) = ch_open ch" "\<not> ch_open ch \<longrightarrow> new = []"
    using sends [of p ch] by blast
  show "\<exists>new. ch_queue (snd (run (p, ch))) = ch_queue ch @ new \<and> (\<forall>f \<in> set new. frame_topic f \<noteq> None)
      \<and> (kept t \<longrightarrow> live t p \<longrightarrow> stream_ok epoch t wire p \<longrightarrow> stream_ok epoch t (wire @ new) (fst (run (p, ch))))"
    using new(1-3) by blast
  show "ch_open (snd (run (p, ch))) = ch_open ch" by (rule new(4))
  show "ch_queue (snd (run (p, ch))) = ch_queue ch" if "\<not> ch_open ch" using new(1,5) that by simp
qed

interpretation flushing: stream_op "flush encode in_tx" "\<lambda>_. True" for encode in_tx
  unfolding flush_def by (rule stream_opI) (unfold prod.case, rule flush_all_sends)

interpretation subscribing: stream_op "\<lambda>(p, ch). (subscribe s p, ch)" "\<lambda>_. True" for s
  by unfold_locales (auto simp: subscribe_def subscribed_def stream_ok_def)

lemma map_of_unsubscribed: "t \<noteq> s \<Longrightarrow> map_of (filter (\<lambda>(u, _). u \<noteq> s) xs) t = map_of xs t"
  by (induction xs) auto

interpretation unsubscribing: stream_op "\<lambda>(p, ch). (unsubscribe s p, ch)" "\<lambda>t. t \<noteq> s" for s
  by unfold_locales (auto simp: unsubscribe_def stream_ok_def map_of_unsubscribed)

end
