(* ===== verification/Proto_Loop.thy ===== *)
theory Proto_Loop
  imports Proto_Publish
begin

text \<open>
  The process around the pipes (\<open>proto/dispatch.rs\<close>, with the two threads of
  \<open>proto/transport.rs\<close>): the reader, the command loop, the workers that emit and the writer,
  interleaved at every queue they share. The loop's turn is a list of acts, one for each call
  between which another thread may run; a blocking send is an act that waits for room. The handler
  is a parameter, its state of any type: what a call returns and the events it emits meanwhile.
\<close>

section \<open>The handler\<close>

record command_failure =
  cf_code :: string
  cf_message :: string
  cf_outcome :: "wire_outcome option"

definition failure_protocol :: "string \<Rightarrow> command_failure" where
  "failure_protocol message = \<lparr>cf_code = ''PROTOCOL'', cf_message = message, cf_outcome = None\<rparr>"

definition failure_internal :: "string \<Rightarrow> command_failure" where
  "failure_internal message = \<lparr>cf_code = ''INTERNAL'', cf_message = message, cf_outcome = None\<rparr>"

record 'v emission =
  em_topic :: string
  em_event :: string
  em_payload :: 'v
  em_in_tx :: bool

record ('h, 'v) command_handler =
  ch_handle :: "'h \<Rightarrow> string \<Rightarrow> 'v \<Rightarrow> 'h \<times> 'v emission list \<times> (command_failure + 'v)"
  ch_snapshot :: "'h \<Rightarrow> topic \<Rightarrow> 'h \<times> 'v emission list \<times> 'v"
  ch_pump :: "'h \<Rightarrow> 'h \<times> 'v emission list"
  ch_shutdown :: "'h \<Rightarrow> 'h \<times> 'v emission list"

text \<open>What the JSON library and the allocator answer, and the empty object.\<close>

record 'v wire_library =
  wl_encode :: "'v outbound \<Rightarrow> byte list option"
  wl_decode :: "byte list \<Rightarrow> 'v inbound option"
  wl_reserve :: "nat \<Rightarrow> bool"
  wl_empty :: 'v
  wl_show_len :: "nat \<Rightarrow> string"

section \<open>The loop\<close>

datatype loop_exit = StdinEof | ShutdownAsked | ParentGone | WriterGone

datatype 'v act =
    ActSubscribe topic
  | ActUnsubscribe topic
  | ActResync topic
  | ActSnapshot topic
  | ActSupply topic 'v
  | ActHandle u64 string 'v
  | ActSend "'v outbound"
  | ActShorter u64 nat
  | ActEmit "'v emission"
  | ActTakeRequests
  | ActPump
  | ActFlush
  | ActBreak loop_exit
  | ActShutdown
  | ActClose

record ('h, 'v) process =
  pr_input :: byte_reader
  pr_received :: "'v inbound list"
  pr_ended :: "frame_error option"
  pr_taken :: nat
  pr_sink :: "'v publisher_sink"
  pr_channel :: "'v channel"
  pr_pipe :: byte_writer
  pr_written :: "'v outbound list"
  pr_handler :: 'h
  pr_epoch :: u64
  pr_acts :: "'v act list"
  pr_exit :: "loop_exit option"

text \<open>\<open>respond\<close>: the answer, sent; one too large for a frame is answered by an error of its
  own.\<close>

fun response_frame :: "u64 \<Rightarrow> u64 \<Rightarrow> command_failure + 'v \<Rightarrow> 'v outbound" where
  "response_frame epoch req (Inr ok) = Response epoch req ok"
| "response_frame epoch req (Inl f) = ErrorFrame epoch req (cf_code f) (cf_message f) (cf_outcome f)"

definition too_large_frame :: "(nat \<Rightarrow> string) \<Rightarrow> u64 \<Rightarrow> u64 \<Rightarrow> nat \<Rightarrow> 'v outbound" where
  "too_large_frame show_len epoch req len =
     ErrorFrame epoch req ''INTERNAL''
       (''response of '' @ show_len len @ '' bytes exceeds the frame cap'') None"

fun answer_id :: "'v outbound \<Rightarrow> u64 list" where
  "answer_id (Response _ req _) = [req]"
| "answer_id (ErrorFrame _ req _ _ _) = [req]"
| "answer_id _ = []"

text \<open>One message from the shell, as the acts of its turn.\<close>

definition after_request :: "'v act list" where
  "after_request = [ActTakeRequests, ActPump, ActFlush]"

fun turn_of :: "'v wire_library \<Rightarrow> u64 \<Rightarrow> 'v inbound \<Rightarrow> 'v act list" where
  "turn_of lib epoch (Subscribe t) = [ActSubscribe t, ActSnapshot t, ActPump]"
| "turn_of lib epoch (Unsubscribe t) = [ActUnsubscribe t, ActPump]"
| "turn_of lib epoch (Resync t) = [ActResync t, ActPump]"
| "turn_of lib epoch (Request req command args) =
     (if command = ''app.hello_ack''
      then ActSend (Response epoch req (wl_empty lib)) # after_request
      else if command = ''app.shutdown''
      then ActSend (Response epoch req (wl_empty lib)) # after_request @ [ActBreak ShutdownAsked]
      else ActHandle req command args # after_request)"

definition on_publisher ::
  "('v publisher \<times> 'v channel \<Rightarrow> 'v publisher \<times> 'v channel) \<Rightarrow> ('h, 'v) process \<Rightarrow> ('h, 'v) process"
where
  "on_publisher f s =
     (case f (ps_inner (pr_sink s), pr_channel s) of
        (p, ch) \<Rightarrow> s\<lparr>pr_sink := (pr_sink s)\<lparr>ps_inner := p\<rparr>, pr_channel := ch\<rparr>)"

definition emit_event ::
  "'v wire_library \<Rightarrow> 'v emission \<Rightarrow> ('h, 'v) process \<Rightarrow> ('h, 'v) process"
where
  "emit_event lib e s =
     (case emit (wl_encode lib) (em_in_tx e) (em_topic e) (em_event e) (em_payload e)
             (pr_sink s, pr_channel s) of
        (ps, ch) \<Rightarrow> s\<lparr>pr_sink := ps, pr_channel := ch\<rparr>)"

text \<open>One act of the loop, \<open>None\<close> while it waits.\<close>

fun perform ::
  "'v wire_library \<Rightarrow> ('h, 'v) command_handler \<Rightarrow> 'v act \<Rightarrow> ('h, 'v) process
   \<Rightarrow> ('v act list \<times> ('h, 'v) process) option"
where
  "perform lib hdl (ActSubscribe t) s = Some ([], on_publisher (\<lambda>(p, ch). (subscribe t p, ch)) s)"
| "perform lib hdl (ActUnsubscribe t) s = Some ([], on_publisher (\<lambda>(p, ch). (unsubscribe t p, ch)) s)"
| "perform lib hdl (ActResync t) s =
     Some (if resync t (ps_inner (pr_sink s)) = None then [] else [ActSnapshot t], s)"
| "perform lib hdl (ActSnapshot t) s =
     (case ch_snapshot hdl (pr_handler s) t of
        (h, ems, data) \<Rightarrow> Some (map ActEmit ems @ [ActSupply t data], s\<lparr>pr_handler := h\<rparr>))"
| "perform lib hdl (ActSupply t data) s =
     Some ([], on_publisher (supply_snapshot (wl_encode lib) False t data) s)"
| "perform lib hdl (ActHandle req command args) s =
     (case ch_handle hdl (pr_handler s) command args of
        (h, ems, res) \<Rightarrow>
          Some (map ActEmit ems @ [ActSend (response_frame (pr_epoch s) req res)], s\<lparr>pr_handler := h\<rparr>))"
| "perform lib hdl (ActSend frame) s =
     (case send (wl_encode lib) False frame (pr_channel s) of
        None \<Rightarrow> None
      | Some (Inr ch) \<Rightarrow> Some ([], s\<lparr>pr_channel := ch\<rparr>)
      | Some (Inl (TooLarge len)) \<Rightarrow> Some (map (\<lambda>req. ActShorter req len) (answer_id frame), s)
      | Some (Inl _) \<Rightarrow> Some ([], s))"
| "perform lib hdl (ActShorter req len) s =
     (case send (wl_encode lib) False (too_large_frame (wl_show_len lib) (pr_epoch s) req len) (pr_channel s) of
        None \<Rightarrow> None
      | Some (Inr ch) \<Rightarrow> Some ([], s\<lparr>pr_channel := ch\<rparr>)
      | Some (Inl _) \<Rightarrow> Some ([], s))"
| "perform lib hdl (ActEmit e) s = Some ([], emit_event lib e s)"
| "perform lib hdl ActTakeRequests s =
     (case take_snapshot_requests (pr_sink s) of
        (ts, ps) \<Rightarrow> Some (map ActSnapshot ts, s\<lparr>pr_sink := ps\<rparr>))"
| "perform lib hdl ActPump s =
     (case ch_pump hdl (pr_handler s) of (h, ems) \<Rightarrow> Some (map ActEmit ems, s\<lparr>pr_handler := h\<rparr>))"
| "perform lib hdl ActFlush s = Some ([], on_publisher (flush (wl_encode lib) False) s)"
| "perform lib hdl (ActBreak exit) s = Some ([ActShutdown, ActClose], s\<lparr>pr_exit := Some exit\<rparr>)"
| "perform lib hdl ActShutdown s =
     (case ch_shutdown hdl (pr_handler s) of (h, ems) \<Rightarrow> Some (map ActEmit ems, s\<lparr>pr_handler := h\<rparr>))"
| "perform lib hdl ActClose s = Some ([], on_publisher (\<lambda>(p, ch). (close_publisher p, ch)) s)"

text \<open>The loop between two turns: the next message, the end of the input, or, when nothing came
  within the poll, the check on the parent and the periodic work.\<close>

definition next_turn ::
  "'v wire_library \<Rightarrow> bool \<Rightarrow> ('h, 'v) process \<Rightarrow> ('h, 'v) process"
where
  "next_turn lib parent_gone s =
     (if pr_taken s < length (pr_received s)
      then s\<lparr>pr_taken := pr_taken s + 1, pr_acts := turn_of lib (pr_epoch s) (pr_received s ! pr_taken s)\<rparr>
      else if pr_ended s \<noteq> None then s\<lparr>pr_acts := [ActBreak StdinEof]\<rparr>
      else if parent_gone then s\<lparr>pr_acts := [ActBreak ParentGone]\<rparr>
      else s\<lparr>pr_acts := [ActPump, ActFlush]\<rparr>)"

text \<open>The writer takes the frame at the front and writes its encoding; when a write fails its
  thread ends, and with it the receiving end of the channel and what was queued there.\<close>

definition writer_turn :: "'v wire_library \<Rightarrow> ('h, 'v) process \<Rightarrow> ('h, 'v) process" where
  "writer_turn lib s =
     (case ch_queue (pr_channel s) of
        [] \<Rightarrow> s
      | frame # rest \<Rightarrow>
          (case write_frame (case wl_encode lib frame of Some bytes \<Rightarrow> bytes | None \<Rightarrow> []) (pr_pipe s) of
             (None, pipe) \<Rightarrow>
               s\<lparr>pr_channel := (pr_channel s)\<lparr>ch_queue := rest\<rparr>, pr_pipe := pipe,
                 pr_written := pr_written s @ [frame]\<rparr>
           | (Some _, pipe) \<Rightarrow>
               s\<lparr>pr_channel := (pr_channel s)\<lparr>ch_queue := [], ch_open := False\<rparr>, pr_pipe := pipe\<rparr>))"

definition reader_step :: "'v wire_library \<Rightarrow> ('h, 'v) process \<Rightarrow> ('h, 'v) process" where
  "reader_step lib s =
     (case reader_turn (wl_reserve lib) (wl_decode lib) (pr_input s) of
        Inl e \<Rightarrow> s\<lparr>pr_ended := Some e\<rparr>
      | Inr (msg, r) \<Rightarrow> s\<lparr>pr_input := r, pr_received := pr_received s @ [msg]\<rparr>)"

inductive process_step ::
  "'v wire_library \<Rightarrow> ('h, 'v) command_handler \<Rightarrow> ('h, 'v) process \<Rightarrow> ('h, 'v) process \<Rightarrow> bool"
  for lib hdl
where
  Act: "pr_acts s = a # acts \<Longrightarrow> perform lib hdl a s = Some (pushed, s')
        \<Longrightarrow> process_step lib hdl s (s'\<lparr>pr_acts := pushed @ acts\<rparr>)"
| Turn: "pr_acts s = [] \<Longrightarrow> pr_exit s = None \<Longrightarrow> process_step lib hdl s (next_turn lib parent_gone s)"
| Worker: "process_step lib hdl s (emit_event lib e s)"
| Reader: "pr_ended s = None \<Longrightarrow> process_step lib hdl s (reader_step lib s)"
| Writer: "ch_open (pr_channel s) \<Longrightarrow> process_step lib hdl s (writer_turn lib s)"

text \<open>The start: the hello is the first frame handed to the writer, or the process does not
  start.\<close>

definition send_hello ::
  "'v wire_library \<Rightarrow> nat \<Rightarrow> string \<Rightarrow> u64 \<Rightarrow> nat \<Rightarrow> 'v channel \<Rightarrow> (send_error + 'v channel) option"
where
  "send_hello lib version core_version epoch pid ch =
     send (wl_encode lib) False (Hello version core_version epoch pid) ch"

definition start_process ::
  "'v wire_library \<Rightarrow> nat \<Rightarrow> string \<Rightarrow> u64 \<Rightarrow> nat \<Rightarrow> byte_reader \<Rightarrow> byte_writer \<Rightarrow> 'h
   \<Rightarrow> ('h, 'v) process option"
where
  "start_process lib version core_version epoch pid input pipe h =
     (case send_hello lib version core_version epoch pid
             \<lparr>ch_capacity = WRITER_CAPACITY, ch_queue = [], ch_open = True\<rparr> of
        Some (Inr ch) \<Rightarrow>
          Some \<lparr>pr_input = input, pr_received = [], pr_ended = None, pr_taken = 0,
                pr_sink = \<lparr>ps_inner = pb_new epoch TOPIC_HIGH_WATER, ps_wants = []\<rparr>,
                pr_channel = ch, pr_pipe = pipe, pr_written = [], pr_handler = h,
                pr_epoch = epoch, pr_acts = [], pr_exit = None\<rparr>
      | _ \<Rightarrow> None)"

section \<open>What was handed to the writer\<close>

abbreviation pub :: "('h, 'v) process \<Rightarrow> 'v publisher" where
  "pub s \<equiv> ps_inner (pr_sink s)"

definition handed :: "('h, 'v) process \<Rightarrow> 'v outbound list" where
  "handed s = pr_written s @ ch_queue (pr_channel s)"

definition kept_stream :: "u64 \<Rightarrow> nat \<Rightarrow> topic \<Rightarrow> ('h, 'v) process \<Rightarrow> bool" where
  "kept_stream epoch n t s \<longleftrightarrow>
     (if ch_open (pr_channel s)
      then n \<le> length (handed s) \<and> stream_ok epoch t (drop n (handed s)) (pub s)
      else ch_queue (pr_channel s) = []
           \<and> runs_on (topic_frames t (drop n (pr_written s))) (new_stream_state epoch) \<noteq> None)"

lemma on_publisher_fields [simp]:
  "pr_written (on_publisher f s) = pr_written s"
  "pr_epoch (on_publisher f s) = pr_epoch s"
  "pr_taken (on_publisher f s) = pr_taken s"
  "pr_received (on_publisher f s) = pr_received s"
  "pr_exit (on_publisher f s) = pr_exit s"
  "pr_channel (on_publisher f s) = snd (f (pub s, pr_channel s))"
  "pub (on_publisher f s) = fst (f (pub s, pr_channel s))"
  by (simp_all add: on_publisher_def split: prod.split)

lemma answer_id_event: "frame_topic f \<noteq> None \<Longrightarrow> answer_id f = []"
  by (cases f) simp_all

context stream_op
begin

lemma keeps:
  assumes "kept_stream epoch n t s" and "live t (pub s)" and "kept t"
  shows "kept_stream epoch n t (on_publisher run s)"
proof (cases "ch_open (pr_channel s)")
  case True
  obtain new where new: "ch_queue (snd (run (pub s, pr_channel s))) = ch_queue (pr_channel s) @ new"
    "stream_ok epoch t (drop n (handed s)) (pub s)
     \<longrightarrow> stream_ok epoch t (drop n (handed s) @ new) (fst (run (pub s, pr_channel s)))"
    using appends [of "pub s" "pr_channel s" t epoch "drop n (handed s)"] assms(2,3) by blast
  have "handed (on_publisher run s) = handed s @ new" by (simp add: handed_def new(1))
  then show ?thesis using True assms(1) new(2) by (simp add: kept_stream_def only_appends(1))
next
  case False
  then show ?thesis using assms(1) by (simp add: kept_stream_def only_appends)
qed

lemma hands_events:
  "\<exists>new. handed (on_publisher run s) = handed s @ new \<and> concat (map answer_id new) = []"
proof -
  obtain new where new: "ch_queue (snd (run (pub s, pr_channel s))) = ch_queue (pr_channel s) @ new"
    "\<forall>f \<in> set new. frame_topic f \<noteq> None" using appends by blast
  then show ?thesis using answer_id_event by (intro exI [of _ new]) (auto simp: handed_def)
qed

end

section \<open>No subscriber sees a gap\<close>

lemma live_subscribed: "live t p \<Longrightarrow> subscribed t p"
  by (auto simp: live_def subscribed_def)

lemma not_live_unsubscribe: "\<not> live t (unsubscribe t p)"
  by (auto simp: live_def unsubscribe_def dest: map_of_SomeD)

text \<open>An emission is a publish, or nothing where the topic is unknown.\<close>

abbreviation published_by :: "'v wire_library \<Rightarrow> 'v emission \<Rightarrow> topic \<Rightarrow> ('h, 'v) process \<Rightarrow> ('h, 'v) process" where
  "published_by lib e t \<equiv>
     on_publisher (\<lambda>pc. snd (publish (wl_encode lib) (em_in_tx e) t (em_event e) (em_payload e) pc))"

lemma emit_event_unknown: "topic_of_name (em_topic e) = None \<Longrightarrow> emit_event lib e s = s"
  by (simp add: emit_event_def emit_def)

lemma emit_event_known:
  assumes "topic_of_name (em_topic e) = Some t"
  shows "pr_channel (emit_event lib e s) = pr_channel (published_by lib e t s)"
    "pub (emit_event lib e s) = pub (published_by lib e t s)"
  using assms by (simp_all add: emit_event_def emit_def split: prod.splits)

lemma emit_event_fields [simp]:
  "pr_written (emit_event lib e s) = pr_written s"
  "pr_taken (emit_event lib e s) = pr_taken s"
  "pr_received (emit_event lib e s) = pr_received s"
  "pr_exit (emit_event lib e s) = pr_exit s"
  "pr_acts (emit_event lib e s) = pr_acts s"
  "pr_epoch (emit_event lib e s) = pr_epoch s"
  by (simp_all add: emit_event_def split: prod.splits)

lemma kept_stream_cong:
  assumes "pr_channel s' = pr_channel s" and "pr_written s' = pr_written s" and "pub s' = pub s"
  shows "kept_stream epoch n t s' = kept_stream epoch n t s"
  using assms by (simp add: kept_stream_def handed_def)

lemma emit_keeps:
  assumes "kept_stream epoch n t s" and "live t (pub s)"
  shows "kept_stream epoch n t (emit_event lib e s)"
proof (cases "topic_of_name (em_topic e)")
  case (Some u)
  show ?thesis
    using publishing.keeps [OF assms, of "wl_encode lib" "em_in_tx e" u "em_event e" "em_payload e"]
    by (subst kept_stream_cong [where s = "published_by lib e u s"]) (simp_all add: emit_event_known [OF Some])
qed (use assms in \<open>simp add: emit_event_unknown\<close>)

lemma send_keeps:
  assumes "kept_stream epoch n t s" and "send encode in_tx f (pr_channel s) = Some (Inr ch)"
    and "frame_topic f = None"
  shows "kept_stream epoch n t (s\<lparr>pr_channel := ch\<rparr>)"
proof -
  have "try_send encode in_tx f (pr_channel s) = Inr ch"
    using assms(2) by (auto simp: send_def split: sum.splits send_error.splits)
  then have ch: "ch = (pr_channel s)\<lparr>ch_queue := ch_queue (pr_channel s) @ [f]\<rparr>" "ch_open (pr_channel s)"
    using try_send_InrD by blast+
  have "topic_frames t [f] = []" using assms(3) by (simp add: topic_frames_def)
  then show ?thesis using assms(1) ch by (simp add: kept_stream_def handed_def stream_ok_def)
qed

lemma answer_no_topic [simp]:
  "frame_topic (response_frame epoch req res) = None"
  "frame_topic (too_large_frame show_len epoch req len) = None"
  by (cases res) (simp_all add: too_large_frame_def)

text \<open>What the JSON library is trusted with: every frame serialises, to no more than the machine
  can hold, and the error that stands in for a large answer fits a frame.\<close>

definition encodes :: "'v wire_library \<Rightarrow> bool" where
  "encodes lib \<longleftrightarrow> (\<forall>f. \<exists>bytes. wl_encode lib f = Some bytes \<and> length bytes \<le> u64_max)
     \<and> (\<forall>epoch req len. len \<le> u64_max \<longrightarrow>
          length (the (wl_encode lib (too_large_frame (wl_show_len lib) epoch req len))) \<le> MAX_FRAME_BYTES)"

text \<open>The loop only sends answers.\<close>

fun sends_answers :: "'v act \<Rightarrow> bool" where
  "sends_answers (ActSend f) \<longleftrightarrow> frame_topic f = None"
| "sends_answers (ActShorter req len) \<longleftrightarrow> len \<le> u64_max"
| "sends_answers _ \<longleftrightarrow> True"

lemma perform_keeps:
  assumes "perform lib hdl a s = Some (pushed, s')" and "sends_answers a"
    and "kept_stream epoch n t s" and "live t (pub s)" and "live t (pub s')"
  shows "kept_stream epoch n t s'"
proof (cases a)
  case (ActUnsubscribe u)
  then have s': "s' = on_publisher (\<lambda>(p, ch). (unsubscribe u p, ch)) s" using assms(1) by simp
  then have "t \<noteq> u" using assms(5) not_live_unsubscribe by auto
  then show ?thesis using unsubscribing.keeps [OF assms(3,4)] s' by simp
next
  case (ActSend f)
  then show ?thesis
    using assms(1-3) send_keeps by (auto split: option.splits sum.splits send_error.splits)
next
  case (ActShorter req len)
  then show ?thesis
    using assms(1,3) send_keeps by (fastforce split: option.splits sum.splits)
next
  case (ActSubscribe u)
  then show ?thesis using assms subscribing.keeps by auto
next
  case (ActSupply u data)
  then show ?thesis using assms supplying.keeps by auto
next
  case ActFlush
  then show ?thesis using assms flushing.keeps by auto
next
  case (ActEmit e)
  then show ?thesis using assms emit_keeps by auto
qed (use assms in \<open>auto simp: kept_stream_def handed_def stream_ok_def take_snapshot_requests_def
       close_publisher_def live_def split: prod.splits\<close>)

lemma send_too_large:
  assumes "encodes lib" and "send (wl_encode lib) in_tx f ch = Some (Inl (TooLarge len))"
  shows "len \<le> u64_max"
proof -
  obtain bytes where "wl_encode lib f = Some bytes" "length bytes \<le> u64_max"
    using assms(1) unfolding encodes_def by blast
  then show ?thesis
    using assms(2) by (auto simp: send_def try_send_def encode_frame_def split: sum.splits send_error.splits if_splits)
qed

lemma perform_pushes:
  assumes "encodes lib" and "perform lib hdl a s = Some (pushed, s')" and "sends_answers a"
  shows "list_all sends_answers pushed \<and> pr_written s' = pr_written s \<and> pr_taken s' = pr_taken s
       \<and> pr_received s' = pr_received s \<and> pr_epoch s' = pr_epoch s"
proof (cases a)
  case (ActSend f)
  then show ?thesis
    using assms(2) send_too_large [OF assms(1), of False f "pr_channel s"]
    by (auto simp: list_all_iff split: option.splits sum.splits send_error.splits)
qed (use assms(2,3) in \<open>auto simp: list_all_iff take_snapshot_requests_def
       split: prod.splits option.splits sum.splits if_splits\<close>)

lemma perform_written: "perform lib hdl a s = Some (pushed, s') \<Longrightarrow> pr_written s' = pr_written s"
  by (cases a) (auto simp: take_snapshot_requests_def
                  split: prod.splits option.splits sum.splits send_error.splits if_splits)

lemma turn_sends_answers: "list_all sends_answers (turn_of lib epoch msg)"
  by (cases msg) (simp_all add: after_request_def)

lemma pr_acts_irrelevant [simp]:
  "kept_stream epoch n t (s\<lparr>pr_acts := acts\<rparr>) = kept_stream epoch n t s"
  by (simp add: kept_stream_def handed_def)

lemma next_turn_fields [simp]:
  "pr_channel (next_turn lib gone s) = pr_channel s" "pr_sink (next_turn lib gone s) = pr_sink s"
  "pr_written (next_turn lib gone s) = pr_written s" "pr_epoch (next_turn lib gone s) = pr_epoch s"
  "pr_received (next_turn lib gone s) = pr_received s"
  by (simp_all add: next_turn_def)

lemma reader_step_fields [simp]:
  "pr_channel (reader_step lib s) = pr_channel s" "pr_sink (reader_step lib s) = pr_sink s"
  "pr_written (reader_step lib s) = pr_written s" "pr_acts (reader_step lib s) = pr_acts s"
  "pr_epoch (reader_step lib s) = pr_epoch s" "pr_taken (reader_step lib s) = pr_taken s"
  by (simp_all add: reader_step_def split: sum.splits prod.splits)

lemma writer_turn_fields [simp]:
  "pr_sink (writer_turn lib s) = pr_sink s" "pr_acts (writer_turn lib s) = pr_acts s"
  "pr_epoch (writer_turn lib s) = pr_epoch s" "pr_taken (writer_turn lib s) = pr_taken s"
  "pr_received (writer_turn lib s) = pr_received s"
  by (simp_all add: writer_turn_def split: list.splits prod.splits option.splits)

text \<open>The writer either moves a frame across, or dies and leaves what it had written.\<close>

lemma writer_turn_cases:
  assumes "ch_open (pr_channel s)"
  obtains "handed (writer_turn lib s) = handed s" "ch_open (pr_channel (writer_turn lib s))"
    | "pr_written (writer_turn lib s) = pr_written s" "\<not> ch_open (pr_channel (writer_turn lib s))"
      "ch_queue (pr_channel (writer_turn lib s)) = []"
proof (cases "ch_queue (pr_channel s)")
  case (Cons frame rest)
  obtain e pipe where w: "write_frame (case wl_encode lib frame of Some bytes \<Rightarrow> bytes | None \<Rightarrow> []) (pr_pipe s)
      = (e, pipe)" by fastforce
  show ?thesis
  proof (cases e)
    case None
    then show ?thesis
      using that(1) assms Cons w by (simp add: writer_turn_def handed_def)
  next
    case (Some x)
    then show ?thesis using that(2) Cons w by (simp add: writer_turn_def)
  qed
qed (use that(1) assms in \<open>simp add: writer_turn_def\<close>)

lemma writer_keeps:
  assumes "kept_stream epoch n t s" and "ch_open (pr_channel s)"
  shows "kept_stream epoch n t (writer_turn lib s)"
  using assms(2)
proof (cases rule: writer_turn_cases [where lib = lib])
  case 1
  then show ?thesis using assms by (simp add: kept_stream_def)
next
  case 2
  obtain q st where "runs_on (topic_frames t (drop n (handed s)) @ q) (new_stream_state epoch) = Some st"
    using assms unfolding kept_stream_def stream_ok_def continues_def by auto
  moreover have "topic_frames t (drop n (handed s))
      = topic_frames t (drop n (pr_written s)) @ topic_frames t (drop (n - length (pr_written s)) (ch_queue (pr_channel s)))"
    by (simp add: handed_def)
  ultimately have "runs_on (topic_frames t (drop n (pr_written s))) (new_stream_state epoch) \<noteq> None"
    by (metis append.assoc option.discI runs_on_prefix)
  then show ?thesis using 2 by (simp add: kept_stream_def)
qed

lemma process_step_keeps:
  assumes "process_step lib hdl s s'" and "list_all sends_answers (pr_acts s)"
    and "kept_stream epoch n t s" and "live t (pub s)" and "live t (pub s')"
  shows "kept_stream epoch n t s'"
  using assms(1)
proof cases
  case (Act a acts pushed s1)
  then have "kept_stream epoch n t s1" using perform_keeps assms by (metis list.pred_inject(2) process.select_convs(5) process.surjective process.update_convs(11))
  then show ?thesis using Act by simp
next
  case (Turn gone)
  then show ?thesis using assms(3) kept_stream_cong [of "next_turn lib gone s" s] by simp
next
  case (Worker e)
  then show ?thesis using emit_keeps assms by simp
next
  case Reader
  then show ?thesis using assms(3) kept_stream_cong [of "reader_step lib s" s] by simp
next
  case Writer
  then show ?thesis using writer_keeps assms(3) by simp
qed

section \<open>Requests and answers\<close>

fun request_id :: "'v inbound \<Rightarrow> u64 list" where
  "request_id (Request req _ _) = [req]"
| "request_id _ = []"

fun act_id :: "'v act \<Rightarrow> u64 list" where
  "act_id (ActHandle req _ _) = [req]"
| "act_id (ActSend f) = answer_id f"
| "act_id (ActShorter req _) = [req]"
| "act_id _ = []"

definition asked :: "('h, 'v) process \<Rightarrow> u64 list" where
  "asked s = concat (map request_id (take (pr_taken s) (pr_received s)))"

definition answered :: "('h, 'v) process \<Rightarrow> u64 list" where
  "answered s = concat (map answer_id (handed s))"

lemma turn_ids: "concat (map act_id (turn_of lib epoch msg)) = request_id msg"
  by (cases msg) (simp_all add: after_request_def)

lemma response_id [simp]: "answer_id (response_frame epoch req res) = [req]"
  by (cases res) simp_all

lemma too_large_id [simp]: "answer_id (too_large_frame show_len epoch req len) = [req]"
  by (simp add: too_large_frame_def)

lemma answer_ids_small: "length (answer_id f) \<le> 1"
  by (cases f) simp_all

lemma emit_hands: "\<exists>new. handed (emit_event lib e s) = handed s @ new \<and> concat (map answer_id new) = []
    \<and> ch_open (pr_channel (emit_event lib e s)) = ch_open (pr_channel s)
    \<and> (\<not> ch_open (pr_channel s) \<longrightarrow> new = [])"
proof (cases "topic_of_name (em_topic e)")
  case (Some u)
  obtain new where "handed (published_by lib e u s) = handed s @ new" "concat (map answer_id new) = []"
    using publishing.hands_events [of "wl_encode lib" "em_in_tx e" u "em_event e" "em_payload e" s] by blast
  then show ?thesis
    using publishing.only_appends(1) [of "wl_encode lib" "em_in_tx e" u "em_event e" "em_payload e" "pub s" "pr_channel s"]
      publishing.only_appends(2) [of "pr_channel s" "wl_encode lib" "em_in_tx e" u "em_event e" "em_payload e" "pub s"]
    by (intro exI [of _ new]) (auto simp: handed_def emit_event_known [OF Some])
qed (simp add: emit_event_unknown)

text \<open>An act on an open channel hands on what it was to answer, or passes it to what it pushes.\<close>

definition hands_on :: "('h, 'v) process \<Rightarrow> u64 list \<Rightarrow> u64 list \<Rightarrow> ('h, 'v) process \<Rightarrow> bool" where
  "hands_on s before after s' \<longleftrightarrow>
     (\<exists>new. handed s' = handed s @ new \<and> (\<not> ch_open (pr_channel s) \<longrightarrow> new = [])
        \<and> (ch_open (pr_channel s) \<longrightarrow> concat (map answer_id new) @ after = before))
     \<and> ch_open (pr_channel s') = ch_open (pr_channel s)"

context stream_op
begin

lemma hands_on_publisher: "hands_on s [] [] (on_publisher run s)"
  using hands_events [of s] only_appends(1) [of "pub s" "pr_channel s"]
    only_appends(2) [of "pr_channel s" "pub s"]
  by (auto simp: hands_on_def handed_def)

end

lemma hands_on_nothing:
  "pr_channel s' = pr_channel s \<Longrightarrow> pr_written s' = pr_written s \<Longrightarrow> hands_on s ids ids s'"
  by (simp add: hands_on_def handed_def)

lemma hands_on_emit: "hands_on s [] [] (emit_event lib e s)"
  using emit_hands [of lib e s] by (auto simp: hands_on_def)

lemma send_hands_on:
  assumes "encodes lib" and "send (wl_encode lib) False f (pr_channel s) = Some res"
  shows "case res of
       Inr ch \<Rightarrow> hands_on s (answer_id f) [] (s\<lparr>pr_channel := ch\<rparr>)
     | Inl (TooLarge len) \<Rightarrow> length (the (wl_encode lib f)) > MAX_FRAME_BYTES
     | Inl _ \<Rightarrow> \<not> ch_open (pr_channel s)"
proof -
  obtain bytes where "wl_encode lib f = Some bytes" using assms(1) unfolding encodes_def by blast
  then show ?thesis
    using assms(2)
    by (auto simp: send_def try_send_def encode_frame_def hands_on_def handed_def
             split: sum.splits send_error.splits if_splits)
qed

lemma perform_hands_on:
  assumes "encodes lib" and "perform lib hdl a s = Some (pushed, s')" and "sends_answers a"
  shows "hands_on s (act_id a) (concat (map act_id pushed)) s'"
proof (cases a)
  case (ActSend f)
  then obtain res where res: "send (wl_encode lib) False f (pr_channel s) = Some res"
    using assms(2) by (cases "send (wl_encode lib) False f (pr_channel s)") simp_all
  have "concat (map act_id (map (\<lambda>req. ActShorter req len) (answer_id f))) = answer_id f" for len
    by (cases f) simp_all
  then show ?thesis
    using send_hands_on [OF assms(1) res] assms(2) res ActSend
    by (auto simp: hands_on_def handed_def split: sum.splits send_error.splits)
next
  case (ActShorter req len)
  let ?f = "too_large_frame (wl_show_len lib) (pr_epoch s) req len :: 'a outbound"
  obtain res where res: "send (wl_encode lib) False ?f (pr_channel s) = Some res"
    using assms(2) ActShorter by (cases "send (wl_encode lib) False ?f (pr_channel s)") simp_all
  have "\<not> length (the (wl_encode lib ?f)) > MAX_FRAME_BYTES" using assms(1,3) ActShorter by (simp add: encodes_def not_less)
  then show ?thesis
    using send_hands_on [OF assms(1) res] assms(2) res ActShorter
    by (auto simp: hands_on_def handed_def split: sum.splits send_error.splits)
next
  case (ActSubscribe u)
  then show ?thesis using assms subscribing.hands_on_publisher by auto
next
  case (ActUnsubscribe u)
  then show ?thesis using assms unsubscribing.hands_on_publisher by auto
next
  case (ActSupply u data)
  then show ?thesis using assms supplying.hands_on_publisher by auto
next
  case ActFlush
  then show ?thesis using assms flushing.hands_on_publisher by auto
next
  case (ActEmit e)
  then show ?thesis using assms hands_on_emit by auto
qed (use assms in \<open>auto simp: hands_on_def handed_def take_snapshot_requests_def o_def
       split: prod.splits if_splits\<close>)

section \<open>Every run of the process\<close>

definition process_inv :: "('h, 'v) process \<Rightarrow> bool" where
  "process_inv s \<longleftrightarrow> list_all sends_answers (pr_acts s)
     \<and> pr_taken s \<le> length (pr_received s) \<and> pb_epoch (pub s) = pr_epoch s
     \<and> prefix (answered s) (asked s)
     \<and> (if ch_open (pr_channel s) then answered s @ concat (map act_id (pr_acts s)) = asked s
        else ch_queue (pr_channel s) = [])"

lemma hands_on_answers:
  assumes "hands_on s before after s'"
  shows "ch_open (pr_channel s') = ch_open (pr_channel s)"
    "ch_open (pr_channel s) \<Longrightarrow> answered s' @ after = answered s @ before"
    "\<not> ch_open (pr_channel s) \<Longrightarrow> handed s' = handed s"
  using assms by (auto simp: hands_on_def answered_def)

lemma asked_received: "pr_taken s \<le> length (pr_received s)
    \<Longrightarrow> asked (s\<lparr>pr_received := pr_received s @ msgs\<rparr>) = asked s"
  by (simp add: asked_def)

lemma next_turn_asks:
  assumes "pr_acts s = []" and "pr_taken s \<le> length (pr_received s)"
  shows "asked (next_turn lib gone s) = asked s @ concat (map act_id (pr_acts (next_turn lib gone s)))"
    "pr_taken (next_turn lib gone s) \<le> length (pr_received s)"
    "list_all sends_answers (pr_acts (next_turn lib gone s))"
  using assms
  by (auto simp: next_turn_def asked_def take_Suc_conv_app_nth turn_ids turn_sends_answers)

lemma publisher_epoch [simp]:
  "pb_epoch (fst (flush_one encode in_tx t (p, ch))) = pb_epoch p"
  "pb_epoch (subscribe t p) = pb_epoch p" "pb_epoch (unsubscribe t p) = pb_epoch p"
  "pb_epoch (close_publisher p) = pb_epoch p"
  by (auto simp: flush_one_def subscribe_def unsubscribe_def close_publisher_def
           split: option.splits prod.splits)

lemma publisher_epoch_flush [simp]:
  "pb_epoch (fst (fold (flush_one encode in_tx) ts (p, ch))) = pb_epoch p"
proof (induction ts arbitrary: p ch)
  case (Cons t ts)
  then show ?case by (cases "flush_one encode in_tx t (p, ch)") (metis fold_Cons comp_apply fst_conv publisher_epoch(1))
qed simp

lemma publisher_epoch_ops [simp]:
  "pb_epoch (fst (flush encode in_tx (p, ch))) = pb_epoch p"
  "pb_epoch (fst (supply_snapshot encode in_tx t data (p, ch))) = pb_epoch p"
  "pb_epoch (fst (snd (publish encode in_tx t event data (p, ch)))) = pb_epoch p"
  by (simp_all add: flush_def supply_snapshot_def publish_def split: option.split prod.split)

lemma emit_epoch [simp]: "pb_epoch (pub (emit_event lib e s)) = pb_epoch (pub s)"
  by (cases "topic_of_name (em_topic e)") (simp_all add: emit_event_unknown emit_event_known)

lemma perform_epoch:
  "perform lib hdl a s = Some (pushed, s') \<Longrightarrow> pb_epoch (pub s') = pb_epoch (pub s)"
  by (cases a) (auto simp: take_snapshot_requests_def
                  split: prod.splits option.splits sum.splits send_error.splits)

lemma process_step_inv:
  assumes "process_step lib hdl s s'" and "encodes lib" and inv: "process_inv s"
  shows "process_inv s' \<and> pr_epoch s' = pr_epoch s"
  using assms(1)
proof cases
  case (Act a acts pushed s1)
  have "sends_answers a" using inv Act(2) by (simp add: process_inv_def)
  note on = perform_hands_on [OF assms(2) Act(3) this]
  have same: "asked s1 = asked s" "pr_taken s1 = pr_taken s" "pr_received s1 = pr_received s"
    "list_all sends_answers pushed" "pr_epoch s1 = pr_epoch s"
    using perform_pushes [OF assms(2) Act(3)] inv Act(2) by (auto simp: asked_def process_inv_def)
  have s': "answered s' = answered s1" "asked s' = asked s1" "pr_channel s' = pr_channel s1"
    "pr_acts s' = pushed @ acts" "pub s' = pub s1"
    by (simp_all add: Act(1) answered_def asked_def handed_def)
  show ?thesis
  proof (cases "ch_open (pr_channel s)")
    case True
    then have all: "answered s1 @ concat (map act_id (pushed @ acts)) = asked s"
      using hands_on_answers [OF on] inv Act(2) by (simp add: process_inv_def flip: append_assoc)
    then have "prefix (answered s1) (asked s)" by (metis prefixI)
    then show ?thesis
      using all True hands_on_answers(1) [OF on] inv same s' Act(1,2) perform_epoch [OF Act(3)]
      by (simp add: process_inv_def)
  next
    case False
    then have "handed s1 = handed s" "ch_queue (pr_channel s1) = ch_queue (pr_channel s)"
      using hands_on_answers [OF on] perform_pushes [OF assms(2) Act(3)] inv Act(2)
      by (auto simp: process_inv_def handed_def)
    then show ?thesis
      using False hands_on_answers(1) [OF on] inv same s' Act(1,2) perform_epoch [OF Act(3)]
      by (auto simp: process_inv_def answered_def)
  qed
next
  case (Turn gone)
  note asks = next_turn_asks [OF Turn(2), of lib gone]
  have "answered s' = answered s" by (simp add: Turn(1) answered_def handed_def)
  then show ?thesis
    using inv asks Turn by (auto simp: process_inv_def prefix_def split: if_splits)
next
  case (Worker e)
  have "answered s' = answered s" "ch_open (pr_channel s') = ch_open (pr_channel s)"
    "\<not> ch_open (pr_channel s) \<longrightarrow> ch_queue (pr_channel s') = ch_queue (pr_channel s)" "asked s' = asked s"
    using emit_hands [of lib e s] by (auto simp: Worker answered_def handed_def asked_def)
  then show ?thesis using inv by (simp add: process_inv_def Worker)
next
  case Reader
  obtain msgs where "pr_received s' = pr_received s @ msgs"
    by (cases "reader_turn (wl_reserve lib) (wl_decode lib) (pr_input s)") (auto simp: Reader reader_step_def)
  then have "asked s' = asked s" "answered s' = answered s" "pr_taken s' \<le> length (pr_received s')"
    using inv by (auto simp: Reader asked_def answered_def handed_def process_inv_def)
  then show ?thesis using inv by (simp add: process_inv_def Reader)
next
  case Writer
  have asked: "asked s' = asked s" by (simp add: Writer asked_def)
  show ?thesis
    using Writer(2)
  proof (cases rule: writer_turn_cases [where lib = lib])
    case 1
    then show ?thesis using inv Writer asked by (simp add: process_inv_def answered_def)
  next
    case 2
    then have "prefix (answered s') (answered s)" by (auto simp: Writer answered_def handed_def prefix_def)
    then show ?thesis
      using inv 2 asked by (auto simp: process_inv_def Writer intro: prefix_order.trans)
  qed
qed

section \<open>What the pipe carries\<close>

definition frames_on :: "'v wire_library \<Rightarrow> 'v outbound list \<Rightarrow> byte list" where
  "frames_on lib fs = concat (map (\<lambda>f. frame_bytes (the (wl_encode lib f))) fs)"

definition pipe_ok :: "'v wire_library \<Rightarrow> byte list \<Rightarrow> 'v outbound \<Rightarrow> ('h, 'v) process \<Rightarrow> bool" where
  "pipe_ok lib before first s \<longleftrightarrow>
     (\<exists>cut. wr_bytes (pr_pipe s) = before @ frames_on lib (pr_written s) @ cut
        \<and> (ch_open (pr_channel s) \<longrightarrow> cut = []))
     \<and> (\<forall>f \<in> set (pr_written s). length (the (wl_encode lib f)) \<le> MAX_FRAME_BYTES)
     \<and> (if ch_open (pr_channel s) then prefix [first] (handed s)
        else prefix (take 1 (pr_written s)) [first])"

lemma write_frame_bytes:
  assumes "write_frame payload w = (e, w')"
  shows "\<exists>sent. wr_bytes w' = wr_bytes w @ sent
      \<and> (e = None \<longrightarrow> sent = frame_bytes payload \<and> length payload \<le> MAX_FRAME_BYTES)"
  using assms
  by (auto simp: write_frame_def write_all_def frame_bytes_def split: if_splits option.splits bool.splits)

lemma pipe_ok_hands_on:
  assumes "pipe_ok lib before first s" and "hands_on s ids ids' s'"
    and "pr_pipe s' = pr_pipe s" and "pr_written s' = pr_written s"
  shows "pipe_ok lib before first s'"
  using assms by (auto simp: pipe_ok_def hands_on_def intro: prefix_order.trans)

lemma perform_pipe: "perform lib hdl a s = Some (pushed, s') \<Longrightarrow> pr_pipe s' = pr_pipe s"
  by (cases a) (auto simp: on_publisher_def emit_event_def take_snapshot_requests_def
                  split: prod.splits option.splits sum.splits send_error.splits)

lemma writer_turn_pipe:
  assumes "encodes lib" and "pipe_ok lib before first s" and "ch_open (pr_channel s)"
  shows "pipe_ok lib before first (writer_turn lib s)"
proof (cases "ch_queue (pr_channel s)")
  case Nil
  then show ?thesis using assms(2) by (simp add: writer_turn_def)
next
  case (Cons frame rest)
  obtain bytes where bytes: "wl_encode lib frame = Some bytes" using assms(1) unfolding encodes_def by blast
  obtain e pipe where w: "write_frame bytes (pr_pipe s) = (e, pipe)" by fastforce
  obtain sent where sent: "wr_bytes pipe = wr_bytes (pr_pipe s) @ sent"
    "e = None \<longrightarrow> sent = frame_bytes bytes \<and> length bytes \<le> MAX_FRAME_BYTES"
    using write_frame_bytes [OF w] by blast
  have first: "prefix [first] (pr_written s @ frame # rest)"
    using assms(2,3) Cons by (simp add: pipe_ok_def handed_def)
  show ?thesis
  proof (cases e)
    case None
    then show ?thesis
      using assms(2,3) Cons bytes w sent
      by (auto simp: pipe_ok_def writer_turn_def handed_def frames_on_def)
  next
    case (Some x)
    have "prefix (take 1 (pr_written s)) [first]" using first by (cases "pr_written s") auto
    then show ?thesis
      using Some assms(2,3) Cons bytes w sent
      by (auto simp: pipe_ok_def writer_turn_def frames_on_def)
  qed
qed

lemma pipe_ok_cong:
  assumes "pr_pipe s' = pr_pipe s" and "pr_channel s' = pr_channel s" and "pr_written s' = pr_written s"
  shows "pipe_ok lib before first s' = pipe_ok lib before first s"
  using assms by (simp add: pipe_ok_def handed_def)

lemma process_step_pipe:
  assumes "process_step lib hdl s s'" and "encodes lib" and "pipe_ok lib before first s" and "process_inv s"
  shows "pipe_ok lib before first s'"
  using assms(1)
proof cases
  case (Act a acts pushed s1)
  have "pipe_ok lib before first s1"
    using pipe_ok_hands_on [OF assms(3) perform_hands_on [OF assms(2) Act(3)]] assms(4) Act(2)
      perform_written [OF Act(3)] perform_pipe [OF Act(3)] by (simp add: process_inv_def)
  then show ?thesis using pipe_ok_cong [of s' s1] Act(1) by simp
next
  case (Turn gone)
  have "pr_pipe (next_turn lib gone s) = pr_pipe s" by (simp add: next_turn_def)
  then show ?thesis using assms(3) pipe_ok_cong [of s' s] Turn(1) by simp
next
  case (Worker e)
  have "pr_pipe (emit_event lib e s) = pr_pipe s" by (simp add: emit_event_def split: prod.split)
  then show ?thesis using pipe_ok_hands_on [OF assms(3) hands_on_emit] Worker by simp
next
  case Reader
  have "pr_pipe (reader_step lib s) = pr_pipe s" by (simp add: reader_step_def split: sum.split prod.split)
  then show ?thesis using assms(3) pipe_ok_cong [of s' s] Reader(1) by simp
next
  case Writer
  then show ?thesis using writer_turn_pipe [OF assms(2,3)] by simp
qed

lemma start_inv:
  assumes "start_process lib version core_version epoch pid input pipe h = Some s"
  shows "process_inv s \<and> pipe_ok lib (wr_bytes pipe) (Hello version core_version epoch pid) s
       \<and> pr_epoch s = epoch \<and> pr_written s = []"
proof -
  have "handed s = [Hello version core_version epoch pid]" "ch_open (pr_channel s)" "pr_written s = []"
    "pr_pipe s = pipe" "pr_acts s = []" "pr_taken s = 0" "pr_received s = []" "pr_epoch s = epoch"
    "pub s = pb_new epoch TOPIC_HIGH_WATER"
    using assms
    by (auto simp: start_process_def send_hello_def send_def try_send_def handed_def
             split: option.splits sum.splits send_error.splits if_splits)
  then show ?thesis
    by (simp add: process_inv_def pipe_ok_def answered_def asked_def frames_on_def pb_new_def)
qed

lemma reachable_inv:
  assumes "start_process lib version core_version epoch pid input pipe h = Some s0"
    and "(process_step lib hdl)\<^sup>*\<^sup>* s0 s" and "encodes lib"
  shows "process_inv s \<and> pipe_ok lib (wr_bytes pipe) (Hello version core_version epoch pid) s \<and> pr_epoch s = epoch"
  using assms(2)
proof (induction rule: rtranclp_induct)
  case base
  then show ?case using start_inv [OF assms(1)] by simp
next
  case (step s1 s2)
  then show ?case using process_step_inv [OF step(2) assms(3)] process_step_pipe [OF step(2) assms(3)] by simp
qed

lemma reader_reads_frames:
  assumes "\<forall>f \<in> set fs. length (the (wl_encode lib f)) \<le> MAX_FRAME_BYTES"
    and "\<forall>f \<in> set fs. is_utf8 (the (wl_encode lib f)) \<and> decode (the (wl_encode lib f)) = Some f"
  shows "reader_loop (\<lambda>_. True) decode \<lparr>rd_bytes = frames_on lib fs @ rest, rd_end = ending\<rparr>
       = (case reader_loop (\<lambda>_. True) decode \<lparr>rd_bytes = rest, rd_end = ending\<rparr> of
            (msgs, e) \<Rightarrow> (fs @ msgs, e))"
  using assms
proof (induction fs)
  case (Cons f fs)
  have "sendable (the (wl_encode lib f))" "decode (the (wl_encode lib f)) = Some f"
    using Cons.prems by (simp_all add: sendable_def)
  then have "reader_turn (\<lambda>_. True) decode
      \<lparr>rd_bytes = frame_bytes (the (wl_encode lib f)) @ frames_on lib fs @ rest, rd_end = ending\<rparr>
      = Inr (f, \<lparr>rd_bytes = frames_on lib fs @ rest, rd_end = ending\<rparr>)"
    using read_frame_bytes [of _ "\<lambda>_. True", where r = "\<lparr>rd_bytes = [], rd_end = ending\<rparr>"]
    by (simp add: reader_turn_def)
  then show ?case
    using Cons reader_loop.simps [of "\<lambda>_. True" decode
        "\<lparr>rd_bytes = frames_on lib (f # fs) @ rest, rd_end = ending\<rparr>"]
    by (auto simp: frames_on_def split: prod.splits)
qed (simp add: frames_on_def)

text \<open>
  C9: Requests are answered once, in order, and nothing but frames reaches the pipe. In every
  run, whatever the workers emit and however the threads interleave, the answers handed to the
  writer are those of the first requests taken, one each; while the writer lives and the loop is
  between turns, of all of them. A reader of the pipe's bytes gets first the hello and then exactly
  the frames written, in order.
\<close>

theorem requests_are_answered_in_order:
  assumes "start_process lib version core_version epoch pid input pipe h = Some s0"
    and "(process_step lib hdl)\<^sup>*\<^sup>* s0 s" and "encodes lib" and "wr_bytes pipe = []"
    and "\<forall>f \<in> set (pr_written s). is_utf8 (the (wl_encode lib f)) \<and> decode (the (wl_encode lib f)) = Some f"
  shows "prefix (answered s) (asked s)
     \<and> (ch_open (pr_channel s) \<and> pr_acts s = [] \<longrightarrow> answered s = asked s)
     \<and> (pr_written s = [] \<or> hd (pr_written s) = Hello version core_version epoch pid)
     \<and> (\<exists>rest e. reader_loop (\<lambda>_. True) decode \<lparr>rd_bytes = wr_bytes (pr_pipe s), rd_end = EndOfStream\<rparr>
               = (pr_written s @ rest, e)
          \<and> (ch_open (pr_channel s) \<longrightarrow> rest = [] \<and> e = Eof))"
proof -
  have inv: "process_inv s" and pipe: "pipe_ok lib [] (Hello version core_version epoch pid) s"
    using reachable_inv [OF assms(1-3)] assms(4) by simp_all
  obtain cut where cut: "wr_bytes (pr_pipe s) = frames_on lib (pr_written s) @ cut"
    "ch_open (pr_channel s) \<longrightarrow> cut = []"
    "\<forall>f \<in> set (pr_written s). length (the (wl_encode lib f)) \<le> MAX_FRAME_BYTES"
    using pipe unfolding pipe_ok_def by auto
  have at_end: "reader_loop (\<lambda>_. True) decode \<lparr>rd_bytes = [], rd_end = EndOfStream\<rparr> = ([], Eof)"
    by (simp add: reader_loop.simps reader_turn_def read_frame_def read_exact_def)
  define tail where "tail = reader_loop (\<lambda>_. True) decode \<lparr>rd_bytes = cut, rd_end = EndOfStream\<rparr>"
  have "ch_open (pr_channel s) \<longrightarrow> tail = ([], Eof)" using at_end cut(2) by (auto simp: tail_def)
  then obtain rest e where rest: "tail = (rest, e)" "ch_open (pr_channel s) \<longrightarrow> rest = [] \<and> e = Eof"
    by (cases tail) simp
  have "reader_loop (\<lambda>_. True) decode \<lparr>rd_bytes = wr_bytes (pr_pipe s), rd_end = EndOfStream\<rparr>
      = (pr_written s @ rest, e)"
    using reader_reads_frames [OF cut(3) assms(5), of cut EndOfStream] rest(1) cut(1) by (simp add: tail_def)
  moreover have "pr_written s = [] \<or> hd (pr_written s) = Hello version core_version epoch pid"
    using pipe by (cases "pr_written s") (auto simp: pipe_ok_def handed_def split: if_splits)
  ultimately show ?thesis using inv rest(2) by (auto simp: process_inv_def)
qed

lemma kept_stream_subscribed:
  assumes "process_inv s1" and "\<not> subscribed t (pub s1)"
    and "s2 = on_publisher (\<lambda>(p, ch). (subscribe t p, ch)) (s1\<lparr>pr_acts := acts\<rparr>)"
    and "pr_acts s1 = ActSubscribe t # acts"
  shows "process_inv s2 \<and> kept_stream (pr_epoch s1) (length (handed s1)) t s2 \<and> live t (pub s2)"
proof -
  have at: "map_of (pb_topics (pub s2)) t = Some (tq_new (pb_high_water (pub s1)))"
    using assms(2) by (simp add: assms(3) subscribe_def subscribed_def map_add_def)
  have same: "handed s2 = handed s1" "pr_channel s2 = pr_channel s1" "pr_written s2 = pr_written s1"
    by (simp_all add: assms(3) handed_def)
  have "process_inv s2"
    using assms(1,4) same by (auto simp: process_inv_def answered_def asked_def assms(3) on_publisher_def)
  moreover have "kept_stream (pr_epoch s1) (length (handed s1)) t s2"
    using assms(1) at same continues_new
    by (auto simp: kept_stream_def stream_ok_def process_inv_def assms(3) handed_def)
  moreover have "live t (pub s2)" using at by (simp add: live_def tq_new_def)
  ultimately show ?thesis by blast
qed

lemma written_runs_on:
  assumes "kept_stream epoch n t s"
  shows "runs_on (topic_frames t (drop n (pr_written s))) (new_stream_state epoch) \<noteq> None"
proof (cases "ch_open (pr_channel s)")
  case True
  then obtain q st where "runs_on (topic_frames t (drop n (handed s)) @ q) (new_stream_state epoch) = Some st"
    using assms unfolding kept_stream_def stream_ok_def continues_def by auto
  moreover have "topic_frames t (drop n (handed s)) = topic_frames t (drop n (pr_written s))
      @ topic_frames t (drop (n - length (pr_written s)) (ch_queue (pr_channel s)))"
    by (simp add: handed_def)
  ultimately show ?thesis by (metis append.assoc option.discI runs_on_prefix)
qed (use assms in \<open>simp add: kept_stream_def\<close>)

lemma runs_on_reached: "runs_on fs st = Some st' \<Longrightarrow> fs \<noteq> [] \<Longrightarrow> st_last st' \<noteq> None"
proof (cases fs)
  case (Cons f gs)
  assume run: "runs_on fs st = Some st'"
  obtain r st1 where step: "accept_frame f st = (r, st1)" by fastforce
  then show ?thesis
    using run Cons accept_expected [OF step] runs_on_grows [of gs st1 st'] by (auto split: if_splits)
qed simp

text \<open>
  C8: No subscriber sees a gap. From the moment a topic is subscribed until it is unsubscribed,
  in every interleaving of the command loop, the workers that emit and the writer, with every
  overflow and resync in between, the frames of the topic that are written make a consumer that
  starts with the subscription deliver every delta and take every snapshot: none is a gap, none a
  replay, none of another epoch. Once nothing of the topic waits, the consumer is at the last
  sequence number handed out.
\<close>

theorem no_subscriber_sees_a_gap:
  assumes "start_process lib version core_version epoch pid input pipe h = Some s0"
    and "(process_step lib hdl)\<^sup>*\<^sup>* s0 s1" and "encodes lib"
    and "\<not> subscribed t (pub s1)"
    and "s2 = on_publisher (\<lambda>(p, ch). (subscribe t p, ch)) (s1\<lparr>pr_acts := acts\<rparr>)"
    and "pr_acts s1 = ActSubscribe t # acts"
    and "(\<lambda>a b. process_step lib hdl a b \<and> live t (pub b))\<^sup>*\<^sup>* s2 s"
    and "fs = topic_frames t (drop (length (handed s1)) (pr_written s))"
  shows "(\<forall>r \<in> set (fst (accept_all fs (new_stream_state epoch))).

            (\<exists>n. r = Delivered n) \<or> (\<exists>n. r = SnapshotTaken n))
     \<and> (ch_open (pr_channel s) \<and> ch_queue (pr_channel s) = [] \<and> fs \<noteq> []
          \<and> map_of (pb_topics (pub s)) t = Some q \<and> tq_pending q = []
        \<longrightarrow> st_last (snd (accept_all fs (new_stream_state epoch))) = Some (through_seq q))"
proof -
  define n where "n = length (handed s1)"
  have inv1: "process_inv s1" and ep: "pr_epoch s1 = epoch" using reachable_inv [OF assms(1-3)] by blast+
  have s2: "process_inv s2" "kept_stream epoch n t s2" "live t (pub s2)"
    using kept_stream_subscribed [OF inv1 assms(4-6)] by (simp_all add: n_def ep)
  have s: "process_inv s \<and> kept_stream epoch n t s \<and> live t (pub s)"
    using assms(7)
  proof (induction rule: rtranclp_induct)
    case (step a b)
    then show ?case
      using process_step_inv [OF _ assms(3)] process_step_keeps [of lib hdl a b epoch n t]
      by (auto simp: process_inv_def)
  qed (use s2 in simp)
  have on: "runs_on fs (new_stream_state epoch) \<noteq> None"
    using s written_runs_on unfolding assms(8) n_def by blast
  then obtain st where st: "runs_on fs (new_stream_state epoch) = Some st" by blast
  have "st_last st = Some (through_seq q)"
    if "ch_open (pr_channel s)" "ch_queue (pr_channel s) = []" "fs \<noteq> []"
      "map_of (pb_topics (pub s)) t = Some q" "tq_pending q = []"
  proof -
    have "continues epoch t q fs"
      using s that(1,2,4) by (simp add: kept_stream_def stream_ok_def handed_def assms(8) n_def)
    then have "st_last st = None \<or> st_last st = Some (through_seq q)"
      using st that(5) by (auto simp: continues_def through_seq_def)
    then show ?thesis using runs_on_reached [OF st that(3)] by auto
  qed
  then show ?thesis using runs_on_results [OF st] by blast
qed

section \<open>A run\<close>

text \<open>One step chosen by its thread, so that a run can be evaluated.\<close>

datatype 'v move = MoveAct | MoveTurn | MoveEmit "'v emission" | MoveRead | MoveWrite

fun make_move ::
  "'v wire_library \<Rightarrow> ('h, 'v) command_handler \<Rightarrow> 'v move \<Rightarrow> ('h, 'v) process \<Rightarrow> ('h, 'v) process option"
where
  "make_move lib hdl MoveAct s =
     (case pr_acts s of
        [] \<Rightarrow> None
      | a # acts \<Rightarrow> map_option (\<lambda>(pushed, s). s\<lparr>pr_acts := pushed @ acts\<rparr>) (perform lib hdl a s))"
| "make_move lib hdl MoveTurn s =
     (if pr_acts s = [] \<and> pr_exit s = None then Some (next_turn lib False s) else None)"
| "make_move lib hdl (MoveEmit e) s = Some (emit_event lib e s)"
| "make_move lib hdl MoveRead s = (if pr_ended s = None then Some (reader_step lib s) else None)"
| "make_move lib hdl MoveWrite s = (if ch_open (pr_channel s) then Some (writer_turn lib s) else None)"

fun make_moves ::
  "'v wire_library \<Rightarrow> ('h, 'v) command_handler \<Rightarrow> 'v move list \<Rightarrow> ('h, 'v) process \<Rightarrow> ('h, 'v) process option"
where
  "make_moves lib hdl [] s = Some s"
| "make_moves lib hdl (m # ms) s = Option.bind (make_move lib hdl m s) (make_moves lib hdl ms)"

lemma make_move_step: "make_move lib hdl m s = Some s' \<Longrightarrow> process_step lib hdl s s'"
  by (cases m) (auto simp: process_step.simps split: list.splits if_splits)

lemma make_moves_steps: "make_moves lib hdl ms s = Some s' \<Longrightarrow> (process_step lib hdl)\<^sup>*\<^sup>* s s'"
  by (induction ms arbitrary: s)
     (auto simp: bind_eq_Some_conv intro: converse_rtranclp_into_rtranclp dest: make_move_step)

definition demo_library :: "unit wire_library" where
  "demo_library =
     \<lparr>wl_encode = (\<lambda>f. Some (case f of Hello _ _ _ _ \<Rightarrow> [72] | Response _ _ _ \<Rightarrow> [82] | _ \<Rightarrow> [69])),
      wl_decode = (\<lambda>bs. if bs = [1] then Some (Request 7 ''app.hello_ack'' ())
                       else if bs = [2] then Some (Subscribe TScan) else None),
      wl_reserve = (\<lambda>_. True), wl_empty = (), wl_show_len = (\<lambda>_. [])\<rparr>"

definition demo_handler :: "(unit, unit) command_handler" where
  "demo_handler =
     \<lparr>ch_handle = (\<lambda>h _ _. (h, [], Inr ())), ch_snapshot = (\<lambda>h _. (h, [], ())),
      ch_pump = (\<lambda>h. (h, [])), ch_shutdown = (\<lambda>h. (h, []))\<rparr>"

definition demo_process :: "byte list \<Rightarrow> (unit, unit) process" where
  "demo_process bytes =
     the (start_process demo_library 1 ''0'' 3 100 \<lparr>rd_bytes = bytes, rd_end = EndOfStream\<rparr>
            \<lparr>wr_bytes = [], wr_room = None, wr_flushes = True\<rparr> ())"

lemma demo_encodes: "encodes demo_library"
  by (auto simp: encodes_def demo_library_def MAX_FRAME_BYTES_def split: outbound.split)

lemma demo_starts:
  "start_process demo_library 1 ''0'' 3 100 \<lparr>rd_bytes = bytes, rd_end = EndOfStream\<rparr>
     \<lparr>wr_bytes = [], wr_room = None, wr_flushes = True\<rparr> () = Some (demo_process bytes)"
  by (simp add: demo_process_def start_process_def send_hello_def send_def try_send_def encode_frame_def
           demo_library_def MAX_FRAME_BYTES_def WRITER_CAPACITY_def)

lemmas demo_eval = demo_process_def start_process_def send_hello_def send_def try_send_def
  encode_frame_def demo_library_def demo_handler_def MAX_FRAME_BYTES_def WRITER_CAPACITY_def
  TOPIC_HIGH_WATER_def reader_step_def reader_turn_def read_frame_def read_exact_def from_le_bytes_def
  within_def next_turn_def after_request_def writer_turn_def write_frame_def write_all_def to_le_bytes_def
  emit_event_def emit_def publish_def topic_of_name_def all_topics_def flush_one_def set_queue_def
  tq_push_def over_high_water_def on_publisher_def subscribe_def subscribed_def tq_new_def pb_new_def
  sat_u64_def take_snapshot_requests_def Let_def

theorem requests_are_answered_in_order_witness:
  "\<exists>s. make_moves demo_library demo_handler [MoveRead, MoveTurn, MoveAct, MoveWrite, MoveWrite]
         (demo_process [1, 0, 0, 0, 1]) = Some s
     \<and> prefix (answered s) (asked s) \<and> pr_written s = [Hello 1 ''0'' 3 100, Response 3 7 ()]
     \<and> asked s = [7]"
proof -
  obtain s where s: "make_moves demo_library demo_handler [MoveRead, MoveTurn, MoveAct, MoveWrite, MoveWrite]
         (demo_process [1, 0, 0, 0, 1]) = Some s"
    and w: "pr_written s = [Hello 1 ''0'' 3 100, Response 3 7 ()]" and a: "asked s = [7]"
    by (simp add: demo_eval asked_def)
  let ?decode = "\<lambda>bs. if bs = [72] then Some (Hello 1 ''0'' 3 100) else Some (Response 3 7 ())"
  have "\<forall>f \<in> set (pr_written s). is_utf8 (the (wl_encode demo_library f))
      \<and> ?decode (the (wl_encode demo_library f)) = Some f"
    by (simp add: w demo_library_def within_def)
  from requests_are_answered_in_order [OF demo_starts make_moves_steps [OF s] demo_encodes _ this]
  show ?thesis using s w a by simp
qed

lemma live_eval:
  "live t p \<longleftrightarrow> (case map_of (pb_topics p) t of None \<Rightarrow> False | Some q \<Rightarrow> tq_next_seq q < u64_max)"
  by (auto simp: live_def split: option.split)

theorem no_subscriber_sees_a_gap_witness:
  "\<exists>s1 s. make_moves demo_library demo_handler [MoveRead, MoveTurn] (demo_process [1, 0, 0, 0, 2]) = Some s1
     \<and> make_moves demo_library demo_handler
         [MoveAct, MoveEmit \<lparr>em_topic = ''scan'', em_event = ''progress'', em_payload = (), em_in_tx = False\<rparr>,
          MoveWrite, MoveWrite] s1 = Some s
     \<and> topic_frames TScan (drop (length (handed s1)) (pr_written s)) = [Event 3 TScan ''progress'' 1 ()]
     \<and> (\<forall>r \<in> set (fst (accept_all [Event 3 TScan ''progress'' 1 ()] (new_stream_state 3))).
          (\<exists>n. r = Delivered n) \<or> (\<exists>n. r = SnapshotTaken n))"
proof -
  let ?e = "\<lparr>em_topic = ''scan'', em_event = ''progress'', em_payload = (), em_in_tx = False\<rparr>"
  let ?sub = "on_publisher (\<lambda>(p, ch). (subscribe TScan p, ch))"
  let ?live = "\<lambda>a b. process_step demo_library demo_handler a b \<and> live TScan (pub b)"
  obtain s1 where s1: "make_moves demo_library demo_handler [MoveRead, MoveTurn] (demo_process [1, 0, 0, 0, 2]) = Some s1"
    "pr_acts s1 = ActSubscribe TScan # [ActSnapshot TScan, ActPump]" "\<not> subscribed TScan (pub s1)"
    "handed s1 = [Hello 1 ''0'' 3 100]"
    and s2: "\<exists>s2 s3 s4 s. make_move demo_library demo_handler MoveAct s1 = Some s2
         \<and> s2 = ?sub (s1\<lparr>pr_acts := [ActSnapshot TScan, ActPump]\<rparr>)
         \<and> make_move demo_library demo_handler (MoveEmit ?e) s2 = Some s3 \<and> live TScan (pub s3)
         \<and> make_move demo_library demo_handler MoveWrite s3 = Some s4 \<and> live TScan (pub s4)
         \<and> make_move demo_library demo_handler MoveWrite s4 = Some s \<and> live TScan (pub s)
         \<and> pr_written s = [Hello 1 ''0'' 3 100, Event 3 TScan ''progress'' 1 ()]"
    by (simp add: demo_eval live_eval handed_def)
  obtain s2 s3 s4 s where act: "make_move demo_library demo_handler MoveAct s1 = Some s2"
    and sub: "s2 = ?sub (s1\<lparr>pr_acts := [ActSnapshot TScan, ActPump]\<rparr>)"
    and moves: "make_move demo_library demo_handler (MoveEmit ?e) s2 = Some s3" "live TScan (pub s3)"
      "make_move demo_library demo_handler MoveWrite s3 = Some s4" "live TScan (pub s4)"
      "make_move demo_library demo_handler MoveWrite s4 = Some s" "live TScan (pub s)"
    and written: "pr_written s = [Hello 1 ''0'' 3 100, Event 3 TScan ''progress'' 1 ()]"
    using s2 by blast
  have live: "?live s2 s3" "?live s3 s4" "?live s4 s" using moves make_move_step by blast+
  have steps: "?live\<^sup>*\<^sup>* s2 s"
    by (rule rtranclp.rtrancl_into_rtrancl [where r = ?live, OF _ live(3)],
        rule rtranclp.rtrancl_into_rtrancl [where r = ?live, OF _ live(2)], rule r_into_rtranclp, rule live(1))
  have fs: "topic_frames TScan (drop (length (handed s1)) (pr_written s)) = [Event 3 TScan ''progress'' 1 ()]"
    by (simp add: s1(4) written topic_frames_def)
  from no_subscriber_sees_a_gap [OF demo_starts make_moves_steps [OF s1(1)] demo_encodes s1(3) sub s1(2) steps fs [symmetric]]
  show ?thesis using s1(1) act moves fs by auto
qed

section \<open>What the stream does not promise\<close>

lemma flush_stalled:
  "length (ch_queue ch) \<ge> ch_capacity ch \<Longrightarrow> flush_queue encode in_tx epoch t pending ch = (pending, ch)"
  by (cases pending) (auto simp: try_send_def split: sum.split)

text \<open>A snapshot is stamped when it is supplied and not when it was computed: an event emitted in
  between is dropped from the queue as covered, though the snapshot's data cannot hold it. Here the
  handler's snapshot of the state is taken, a worker emits delta 1, and the snapshot that replaces
  it says it stands for everything through 1.\<close>

lemma snapshot_covers_what_it_missed:
  assumes "length (ch_queue ch) \<ge> ch_capacity ch"
    and "p1 = fst (snd (publish encode False t ''event'' data (subscribe t (pb_new epoch 4), ch)))"
  shows "map_of (pb_topics (fst (supply_snapshot encode False t old (p1, ch)))) t
       = Some \<lparr>tq_high_water = 4, tq_next_seq = 2, tq_pending = [Snapshot 1 old]\<rparr>"
proof -
  have "p1 = \<lparr>pb_attached = True, pb_epoch = epoch, pb_high_water = 4,
      pb_topics = [(t, \<lparr>tq_high_water = 4, tq_next_seq = 2, tq_pending = [Delta 1 ''event'' data]\<rparr>)]\<rparr>"
    by (simp add: assms(2) publish_def subscribe_def subscribed_def pb_new_def tq_new_def tq_push_def
          Let_def flush_one_def set_queue_def sat_u64_def flush_stalled [OF assms(1)]
          del: flush_queue.simps)
  then show ?thesis
    by (simp add: supply_snapshot_def flush_one_def set_queue_def replace_with_snapshot_def
          through_seq_def flush_stalled [OF assms(1)] del: flush_queue.simps)
qed

text \<open>The mark does not bound a queue by itself: only the turn of a request answers the requests for
  a snapshot, so with the writer stalled and no request every event of a worker stays queued and
  every one past the mark asks again.\<close>

lemma backlog_grows_until_a_request:
  assumes "ps_inner ps = subscribe TScan (pb_new epoch high)" and "ps_wants ps = []"
    and "length (ch_queue ch) \<ge> ch_capacity ch" and "n < u64_max"
  shows "\<exists>ps'. ((\<lambda>(ps, ch). emit encode False ''scan'' ''progress'' data (ps, ch)) ^^ n) (ps, ch) = (ps', ch)
     \<and> (\<exists>q. pb_topics (ps_inner ps') = [(TScan, q)] \<and> length (tq_pending q) = n \<and> tq_next_seq q = n + 1
          \<and> tq_high_water q = high)
     \<and> ps_wants ps' = replicate (n - high) TScan"
  using assms(4)
proof (induction n)
  case 0
  then show ?case using assms(1,2) by (simp add: subscribe_def subscribed_def pb_new_def tq_new_def)
next
  case (Suc n)
  then obtain ps' q where IH: "((\<lambda>(ps, ch). emit encode False ''scan'' ''progress'' data (ps, ch)) ^^ n) (ps, ch) = (ps', ch)"
    "pb_topics (ps_inner ps') = [(TScan, q)]" "length (tq_pending q) = n" "tq_next_seq q = n + 1"
    "tq_high_water q = high" "ps_wants ps' = replicate (n - high) TScan"
    by auto
  have more: "replicate (n - high) TScan @ (if high \<le> n then [TScan] else []) = replicate (Suc n - high) TScan"
    by (simp add: replicate_append_same Suc_diff_le)
  show ?case
    using IH Suc.prems more
    by (auto simp: emit_def topic_of_name_def all_topics_def publish_def tq_push_def Let_def flush_one_def flush_stalled [OF assms(3)]
          set_queue_def over_high_water_def sat_u64_def replicate_append_same Suc_diff_le
          simp del: flush_queue.simps)
qed

end
