(* ===== verification/Calendar.thy ===== *)
theory Calendar
  imports Clock "HOL-Library.Signed_Division"
begin

text \<open>
  Days, civil dates and the times a forge sends. The code converts between a day number and a
  Gregorian date in four places: \<open>local_date\<close> of \<open>clock.rs\<close>, the two \<open>local_year\<close>
  functions of \<open>art/compose.rs\<close> and \<open>stats/reveal.rs\<close>, and \<open>days_from_civil\<close> of
  \<open>provider/github.rs\<close>. The reference is the calendar itself: leap years, the lengths of the
  months and the number of days before a date.
\<close>

section \<open>The conversions\<close>

definition year_of_era :: "int \<Rightarrow> int" where
  "year_of_era doe = (doe - doe div 1460 + doe div 36524 - doe div 146096) div 365"

definition civil_from_days :: "int \<Rightarrow> int \<times> int \<times> int" where
  "civil_from_days day =
     (let z = day + 719468;
          era = z div 146097;
          doe = z mod 146097;
          yoe = year_of_era doe;
          y = yoe + era * 400;
          doy = doe - (365 * yoe + yoe div 4 - yoe div 100);
          mp = (5 * doy + 2) div 153;
          d = doy - (153 * mp + 2) div 5 + 1;
          m = (if mp < 10 then mp + 3 else mp - 9);
          y = (if m \<le> 2 then y + 1 else y)
      in (y, m, d))"

text \<open>\<open>format!("{n:0w}")\<close>: padded with zeros to the width, after the sign.\<close>

definition pad_int :: "nat \<Rightarrow> int \<Rightarrow> string" where
  "pad_int w n =
     (let digits = show_nat (nat \<bar>n\<bar>); sign = (if n < 0 then ''-'' else [])
      in sign @ replicate (w - length sign - length digits) CHR ''0'' @ digits)"

definition local_date :: "int \<Rightarrow> string" where
  "local_date day =
     (case civil_from_days day of
        (y, m, d) \<Rightarrow> pad_int 4 y @ ''-'' @ pad_int 2 m @ ''-'' @ pad_int 2 d)"

text \<open>\<open>art/compose.rs\<close>, its era with a division that truncates.\<close>

definition i32_of :: "int \<Rightarrow> int \<Rightarrow> int" where
  "i32_of other n = (if - 2147483648 \<le> n \<and> n \<le> 2147483647 then n else other)"

definition local_year :: "int \<Rightarrow> int \<Rightarrow> int" where
  "local_year unix_secs tz_offset_min =
     (let shifted = sat_i64 (unix_secs + sat_i64 (tz_offset_min * 60));
          days = shifted div 86400;
          z = days + 719468;
          era = (if z \<ge> 0 then z else z - 146096) sdiv 146097;
          doe = z - era * 146097;
          yoe = year_of_era doe;
          year = yoe + era * 400;
          doy = doe - (365 * yoe + yoe div 4 - yoe div 100);
          month_prime = (5 * doy + 2) div 153;
          month = month_prime + (if month_prime < 10 then 3 else - 9);
          year = (if month \<le> 2 then year + 1 else year)
      in i32_of 2147483647 year)"

text \<open>\<open>stats/reveal.rs\<close>.\<close>

definition reveal_local_year :: "int \<Rightarrow> int \<Rightarrow> int" where
  "reveal_local_year at tz_offset_min =
     (let local = wrap_i64 (at + tz_offset_min * 60);
          days = local div 86400;
          z = days + 719468;
          era = z div 146097;
          doe = z mod 146097;
          yoe = year_of_era doe;
          y = yoe + era * 400;
          doy = doe - (365 * yoe + yoe div 4 - yoe div 100);
          mp = (5 * doy + 2) div 153;
          year = (if mp \<ge> 10 then y + 1 else y)
      in i32_of 0 year)"

definition days_from_civil :: "int \<Rightarrow> int \<Rightarrow> int \<Rightarrow> int" where
  "days_from_civil year month day =
     (let year = (if month \<le> 2 then year - 1 else year);
          era = (if year \<ge> 0 then year else year - 399) sdiv 400;
          yoe = year - era * 400;
          doy = (153 * (if month > 2 then month - 3 else month + 9) + 2) div 5 + day - 1;
          doe = yoe * 365 + yoe div 4 - yoe div 100 + doy
      in era * 146097 + doe - 719468)"

text \<open>An instant as a forge sends it. Text is ASCII, so every slice is on a character boundary.\<close>

definition digits_at :: "string \<Rightarrow> nat \<Rightarrow> nat \<Rightarrow> int option" where
  "digits_at s from till = parse_i64 (take (till - from) (drop from s))"

definition parse_rfc3339_secs :: "string \<Rightarrow> int option" where
  "parse_rfc3339_secs s =
     (if length s < 20 \<or> s ! 4 \<noteq> CHR ''-'' \<or> s ! 7 \<noteq> CHR ''-'' \<or> s ! 10 \<noteq> CHR ''T'' then None
      else case (digits_at s 0 4, digits_at s 5 7, digits_at s 8 10,
                 digits_at s 11 13, digits_at s 14 16, digits_at s 17 19) of
        (Some year, Some month, Some day, Some hour, Some minute, Some second) \<Rightarrow>
          (if \<not> (1 \<le> month \<and> month \<le> 12) \<or> \<not> (1 \<le> day \<and> day \<le> 31) then None
           else if hour > 23 \<or> minute > 59 \<or> second > 60 then None
           else Some (days_from_civil year month day * 86400 + hour * 3600 + minute * 60 + second))
      | _ \<Rightarrow> None)"

section \<open>The calendar\<close>

definition leap :: "int \<Rightarrow> bool" where
  "leap y \<longleftrightarrow> 4 dvd y \<and> (\<not> 100 dvd y \<or> 400 dvd y)"

definition lengths :: "bool \<Rightarrow> int list" where
  "lengths leap_year = [31, if leap_year then 29 else 28, 31, 30, 31, 30, 31, 31, 30, 31, 30, 31]"

definition month_lengths :: "int \<Rightarrow> int list" where
  "month_lengths y = lengths (leap y)"

definition valid_date :: "int \<times> int \<times> int \<Rightarrow> bool" where
  "valid_date = (\<lambda>(y, m, d). 1 \<le> m \<and> m \<le> 12 \<and> 1 \<le> d \<and> d \<le> month_lengths y ! nat (m - 1))"

text \<open>Days before the first of January of a year, counted from the year one.\<close>

definition years_days :: "int \<Rightarrow> int" where
  "years_days y = 365 * y + y div 4 - y div 100 + y div 400"

definition day_number :: "int \<times> int \<times> int \<Rightarrow> int" where
  "day_number = (\<lambda>(y, m, d).
     years_days (y - 1) + sum_list (take (nat (m - 1)) (month_lengths y)) + d - 1 - 719162)"

section \<open>Years\<close>

lemma div_step:
  fixes n y :: int
  assumes "n > 0"
  shows "y div n = (y - 1) div n + (if n dvd y then 1 else 0)"
proof (cases "n dvd y")
  case True
  then obtain q where y: "y = n * q" by (elim dvdE)
  have "(n * q - 1) div n = q - 1"
    using assms by (intro int_div_pos_eq [where r = "n - 1"]) (auto simp: algebra_simps)
  with y assms show ?thesis by simp
next
  case False
  then have "0 < y mod n" using assms by (simp add: dvd_eq_mod_eq_0 order_less_le)
  moreover have "y mod n < n" using assms by simp
  moreover have "y - 1 = n * (y div n) + (y mod n - 1)" by simp
  ultimately have "(y - 1) div n = y div n"
    by (intro int_div_pos_eq [where r = "y mod n - 1"]) auto
  with False show ?thesis by simp
qed

lemma years_days_step: "years_days y = years_days (y - 1) + (if leap y then 366 else 365)"
proof -
  have "4 dvd y" if "100 dvd y" using that by (rule dvd_trans [rotated]) simp
  moreover have "100 dvd y" if "400 dvd y" using that by (rule dvd_trans [rotated]) simp
  ultimately have "(if leap y then 1 else 0) = (if 4 dvd y then 1 else 0)
      - (if 100 dvd y then 1 else 0) + (if 400 dvd y then 1 else (0 :: int))"
    unfolding leap_def by (smt (verit))
  with div_step [of 4 y] div_step [of 100 y] div_step [of 400 y] show ?thesis
    unfolding years_days_def by (smt (verit))
qed

lemma years_days_mono: "a \<le> b \<Longrightarrow> years_days a \<le> years_days b"
proof (induction b rule: int_ge_induct)
  case (step b)
  with years_days_step [of "b + 1"] show ?case by (simp split: if_splits)
qed simp

lemma years_days_era: "years_days (y + era * 400) = years_days y + era * 146097"
proof -
  have "(y + era * 400) div 4 = y div 4 + era * 100" "(y + era * 400) div 100 = y div 100 + era * 4"
    using div_mult_self1 [of 4 y "era * 100"] div_mult_self1 [of 100 y "era * 4"]
    by (simp_all add: algebra_simps)
  then show ?thesis by (simp add: years_days_def)
qed

definition era_days :: "int \<Rightarrow> int" where
  "era_days doe = doe - doe div 1460 + doe div 36524 - doe div 146096"

lemma era_days_step: "era_days (doe - 1) \<le> era_days doe"
proof -
  have "36524 dvd doe" if "146096 dvd doe" using that by (rule dvd_trans [rotated]) simp
  with div_step [of 1460 doe] div_step [of 36524 doe] div_step [of 146096 doe] show ?thesis
    unfolding era_days_def by (smt (verit))
qed

lemma era_days_mono: "a \<le> b \<Longrightarrow> era_days a \<le> era_days b"
proof (induction b rule: int_ge_induct)
  case (step b)
  with era_days_step [of "b + 1"] show ?case by simp
qed simp

lemma year_of_era_mono: "a \<le> b \<Longrightarrow> year_of_era a \<le> year_of_era b"
  unfolding year_of_era_def era_days_def [symmetric] by (intro zdiv_mono1 era_days_mono) simp_all

text \<open>The first and the last day of each of the 400 years of an era.\<close>

lemma year_of_era_ends:
  "list_all (\<lambda>y. year_of_era (years_days y) = y \<and> year_of_era (years_days (y + 1) - 1) = y) [0..399]"
  by code_simp

lemma year_exists:
  assumes "years_days a \<le> n" "n < years_days b"
  shows "\<exists>y. a \<le> y \<and> y < b \<and> years_days y \<le> n \<and> n < years_days (y + 1)"
  using assms
proof (induction "nat (b - a)" arbitrary: b)
  case 0
  then show ?case using years_days_mono [of b a] by linarith
next
  case (Suc k)
  have "a < b" using Suc.hyps(2) by simp
  show ?case
  proof (cases "years_days (b - 1) \<le> n")
    case True
    with Suc.prems \<open>a < b\<close> show ?thesis by (intro exI [of _ "b - 1"]) simp
  next
    case False
    have "k = nat (b - 1 - a)" using Suc.hyps(2) by linarith
    then obtain y where "a \<le> y" "y < b - 1" "years_days y \<le> n" "n < years_days (y + 1)"
      using Suc.hyps(1) [of "b - 1"] Suc.prems False by auto
    then show ?thesis by (intro exI [of _ y]) simp
  qed
qed

lemma year_of_era_is_the_year:
  assumes "0 \<le> doe" "doe < 146097"
  shows "0 \<le> year_of_era doe" "year_of_era doe < 400"
    "years_days (year_of_era doe) \<le> doe" "doe < years_days (year_of_era doe + 1)"
proof -
  have "years_days 0 = 0" "years_days 400 = 146097" by (simp_all add: years_days_def)
  with assms obtain y where y: "0 \<le> y" "y < 400" "years_days y \<le> doe" "doe < years_days (y + 1)"
    using year_exists [of 0 doe 400] by auto
  have "y \<in> set [0..399]" using y by simp
  then have "year_of_era (years_days y) = y" "year_of_era (years_days (y + 1) - 1) = y"
    using year_of_era_ends unfolding list_all_iff by blast+
  then have "year_of_era doe = y"
    using year_of_era_mono [OF y(3)] year_of_era_mono [of doe "years_days (y + 1) - 1"] y(4) by simp
  with y show "0 \<le> year_of_era doe" "year_of_era doe < 400"
    "years_days (year_of_era doe) \<le> doe" "doe < years_days (year_of_era doe + 1)" by simp_all
qed

section \<open>Months, counted from March\<close>

definition march_month :: "int \<Rightarrow> int" where
  "march_month doy = (5 * doy + 2) div 153"

definition march_day :: "int \<Rightarrow> int" where
  "march_day doy = doy - (153 * march_month doy + 2) div 5 + 1"

text \<open>March to December of a year, then January and February of the next.\<close>

lemma march_table:
  "list_all (\<lambda>doy. march_month doy < 10 \<and> 0 \<le> march_month doy \<and> 1 \<le> march_day doy \<and>
      march_day doy \<le> lengths l ! nat (march_month doy + 2) \<and>
      sum_list (take (nat (march_month doy + 2)) (lengths l)) + march_day doy - 1
        = doy + (if l then 60 else 59)) [0..305]"
  "list_all (\<lambda>doy. 10 \<le> march_month doy \<and> march_month doy \<le> 11 \<and> 1 \<le> march_day doy \<and>
      march_day doy \<le> lengths True ! nat (march_month doy - 10) \<and>
      (doy < 365 \<longrightarrow> march_day doy \<le> lengths False ! nat (march_month doy - 10)) \<and>
      sum_list (take (nat (march_month doy - 10)) (lengths l)) + march_day doy - 1
        = doy - 306) [306..365]"
  by (cases l; simp only:; code_simp)+

lemma march_to_december:
  assumes "0 \<le> doy" "doy \<le> 305"
  shows "march_month doy < 10" "0 \<le> march_month doy" "1 \<le> march_day doy"
    "march_day doy \<le> lengths l ! nat (march_month doy + 2)"
    "sum_list (take (nat (march_month doy + 2)) (lengths l)) + march_day doy - 1
       = doy + (if l then 60 else 59)"
proof -
  have "doy \<in> set [0..305]" using assms by (simp only: set_upto atLeastAtMost_iff)
  with march_table(1) [of l] show "march_month doy < 10" "0 \<le> march_month doy" "1 \<le> march_day doy"
    "march_day doy \<le> lengths l ! nat (march_month doy + 2)"
    "sum_list (take (nat (march_month doy + 2)) (lengths l)) + march_day doy - 1
       = doy + (if l then 60 else 59)"
    unfolding list_all_iff by blast+
qed

lemma january_and_february:
  assumes "306 \<le> doy" "doy < (if l then 366 else 365)"
  shows "10 \<le> march_month doy" "march_month doy \<le> 11" "1 \<le> march_day doy"
    "march_day doy \<le> lengths l ! nat (march_month doy - 10)"
    "sum_list (take (nat (march_month doy - 10)) (lengths l)) + march_day doy - 1 = doy - 306"
proof -
  have "doy \<in> set [306..365]"
    using assms by (auto simp only: set_upto atLeastAtMost_iff split: if_splits)
  moreover have "l \<or> doy < 365" using assms by (auto split: if_splits)
  moreover note row = march_table(2) [of l, unfolded list_all_iff, THEN bspec, OF calculation(1)]
  ultimately show "10 \<le> march_month doy" "march_month doy \<le> 11" "1 \<le> march_day doy"
    "march_day doy \<le> lengths l ! nat (march_month doy - 10)"
    "sum_list (take (nat (march_month doy - 10)) (lengths l)) + march_day doy - 1 = doy - 306"
    by (cases l; simp)+
qed

section \<open>Every day is the date the calendar gives it\<close>

definition era_year :: "int \<Rightarrow> int" where
  "era_year day = year_of_era ((day + 719468) mod 146097) + (day + 719468) div 146097 * 400"

definition era_doy :: "int \<Rightarrow> int" where
  "era_doy day = (day + 719468) mod 146097 - years_days (year_of_era ((day + 719468) mod 146097))"

lemma era_split:
  shows "day + 719468 = years_days (era_year day) + era_doy day"
    and "0 \<le> era_doy day" and "era_doy day < (if leap (era_year day + 1) then 366 else 365)"
proof -
  let ?doe = "(day + 719468) mod 146097" and ?era = "(day + 719468) div 146097"
  have doe: "0 \<le> ?doe" "?doe < 146097" by simp_all
  note year = year_of_era_is_the_year [OF doe]
  show "day + 719468 = years_days (era_year day) + era_doy day"
    unfolding era_year_def era_doy_def years_days_era by simp
  have "years_days (year_of_era ?doe + 1 + ?era * 400) = years_days (year_of_era ?doe + 1) + ?era * 146097"
    by (rule years_days_era)
  then have "era_doy day < years_days (era_year day + 1) - years_days (era_year day)"
    using year(4) years_days_era [of "year_of_era ?doe" ?era]
    unfolding era_year_def era_doy_def by (simp add: algebra_simps)
  then show "0 \<le> era_doy day" "era_doy day < (if leap (era_year day + 1) then 366 else 365)"
    using year(3) years_days_step [of "era_year day + 1"] unfolding era_doy_def by simp_all
qed

lemma era_month_range: "0 \<le> march_month (era_doy day)" "march_month (era_doy day) \<le> 11"
proof -
  have "0 \<le> march_month (era_doy day) \<and> march_month (era_doy day) \<le> 11"
  proof (cases "era_doy day \<le> 305")
    case True
    then show ?thesis using march_to_december(1,2) [OF era_split(2)] by force
  next
    case False
    then show ?thesis using january_and_february(1,2) [OF _ era_split(3) [of day]] by force
  qed
  then show "0 \<le> march_month (era_doy day)" "march_month (era_doy day) \<le> 11" by simp_all
qed

lemma era_doy_formula:
  "era_doy day = (let doe = (day + 719468) mod 146097; yoe = year_of_era doe
     in doe - (365 * yoe + yoe div 4 - yoe div 100))"
proof -
  let ?y = "year_of_era ((day + 719468) mod 146097)"
  have "?y div 400 = 0" using year_of_era_is_the_year(1,2) [of "(day + 719468) mod 146097"] by simp
  then show ?thesis by (simp add: era_doy_def years_days_def Let_def)
qed

lemma civil_from_days_alt:
  "civil_from_days day =
     (let mp = march_month (era_doy day)
      in (if mp < 10 then (era_year day, mp + 3, march_day (era_doy day))
          else (era_year day + 1, mp - 9, march_day (era_doy day))))"
proof -
  have "civil_from_days day =
      (let m = (if march_month (era_doy day) < 10 then march_month (era_doy day) + 3
                else march_month (era_doy day) - 9)
       in (if m \<le> 2 then era_year day + 1 else era_year day, m, march_day (era_doy day)))"
    by (simp only: civil_from_days_def march_month_def march_day_def era_doy_formula era_year_def Let_def)
  with era_month_range [of day] show ?thesis by (simp add: Let_def)
qed

lemma civil_from_days_sound:
  "valid_date (civil_from_days day) \<and> day_number (civil_from_days day) = day"
proof (cases "era_doy day \<le> 305")
  case True
  let ?Y = "era_year day" and ?doy = "era_doy day"
  note m = march_to_december(1-3) [OF era_split(2) True]
    march_to_december(4,5) [OF era_split(2) True, of "leap ?Y"]
  have "years_days ?Y = years_days (?Y - 1) + (if leap ?Y then 366 else 365)" by (rule years_days_step)
  moreover have "civil_from_days day = (?Y, march_month ?doy + 3, march_day ?doy)"
    using m unfolding civil_from_days_alt Let_def by simp
  moreover have "march_month ?doy + 3 - 1 = march_month ?doy + 2" by simp
  ultimately show ?thesis
    using m era_split(1) [of day] unfolding valid_date_def day_number_def month_lengths_def
    by (simp add: add.commute split: if_splits)
next
  case False
  let ?Y = "era_year day" and ?doy = "era_doy day"
  from False have "306 \<le> ?doy" by simp
  note m = january_and_february [OF this era_split(3)]
  have "civil_from_days day = (?Y + 1, march_month ?doy - 9, march_day ?doy)"
    using m unfolding civil_from_days_alt Let_def by simp
  moreover have "march_month ?doy - 9 - 1 = march_month ?doy - 10" by simp
  ultimately show ?thesis
    using m era_split(1) [of day] unfolding valid_date_def day_number_def month_lengths_def by simp
qed

section \<open>The same day everywhere\<close>

lemma sdiv_floor:
  fixes n k :: int
  assumes "k > 0"
  shows "(if n \<ge> 0 then n else n - (k - 1)) sdiv k = n div k"
proof (cases "n \<ge> 0")
  case True
  with assms show ?thesis by (simp add: signed_divide_int_def sgn_if)
next
  case False
  have "- (n - (k - 1)) = k * (- (n div k)) + (k - 1 - n mod k)"
    using mult_div_mod_eq [of k n] by (simp add: algebra_simps)
  moreover have "0 \<le> k - 1 - n mod k" "k - 1 - n mod k < k"
    using assms pos_mod_bound [of k n] pos_mod_sign [of k n] by linarith+
  ultimately have "(- (n - (k - 1))) div k = - (n div k)" by (intro int_div_pos_eq)
  with False assms show ?thesis by (simp add: signed_divide_int_def sgn_if)
qed

lemma month_start:
  assumes "1 \<le> m" "m \<le> (12 :: int)"
  shows "(153 * (if m > 2 then m - 3 else m + 9) + 2) div 5
    = sum_list (take (nat (m - 1)) (lengths l)) + (if m > 2 then (if l then -60 else -59) else 306)"
proof -
  have "m \<in> {1,2,3,4,5,6,7,8,9,10,11,12}" using assms by simp presburger
  then show ?thesis by (elim insertE emptyE; simp add: lengths_def take_Cons')
qed

lemma days_from_civil_is_day_number:
  assumes "1 \<le> m" "m \<le> 12"
  shows "days_from_civil y m d = day_number (y, m, d)"
proof -
  define Y where "Y = (if m \<le> 2 then y - 1 else y)"
  have "(Y mod 400) div 400 = 0" by simp
  moreover have "years_days Y = years_days (Y mod 400) + Y div 400 * 146097"
    using years_days_era [of "Y mod 400" "Y div 400"] by simp
  moreover have "Y - Y div 400 * 400 = Y mod 400" by (simp add: minus_div_mult_eq_mod)
  moreover have era: "(if Y \<ge> 0 then Y else Y - 399) sdiv 400 = Y div 400"
    using sdiv_floor [of 400 Y] by (simp split: if_splits)
  ultimately have "days_from_civil y m d
      = years_days Y + (153 * (if m > 2 then m - 3 else m + 9) + 2) div 5 + d - 1 - 719468"
    unfolding days_from_civil_def Let_def Y_def [symmetric] era by (simp add: years_days_def)
  then show ?thesis
    using month_start [OF assms, of "leap y"] years_days_step [of y]
    unfolding day_number_def Y_def month_lengths_def by (simp split: if_splits)
qed

section \<open>A date has one day\<close>

lemma day_of_year_range:
  assumes "1 \<le> m" "m \<le> (12 :: int)" "1 \<le> d" "d \<le> lengths l ! nat (m - 1)"
  shows "0 \<le> sum_list (take (nat (m - 1)) (lengths l)) + d - 1"
    "sum_list (take (nat (m - 1)) (lengths l)) + d - 1 < (if l then 366 else 365)"
proof -
  have "m \<in> {1,2,3,4,5,6,7,8,9,10,11,12}" using assms by simp presburger
  then show "0 \<le> sum_list (take (nat (m - 1)) (lengths l)) + d - 1"
    "sum_list (take (nat (m - 1)) (lengths l)) + d - 1 < (if l then 366 else 365)"
    using assms(3,4) by (elim insertE emptyE; simp add: lengths_def take_Cons' split: if_splits)+
qed

lemma day_of_year_later:
  assumes "1 \<le> m" "m < m'" "m' \<le> (12 :: int)" "d \<le> lengths l ! nat (m - 1)" "1 \<le> d'"
  shows "sum_list (take (nat (m - 1)) (lengths l)) + d < sum_list (take (nat (m' - 1)) (lengths l)) + d'"
proof -
  have "nat m \<le> nat (m' - 1)" "nat m = Suc (nat (m - 1))" using assms(1,2) by simp_all
  moreover have "sum_list (take a (lengths l)) \<le> sum_list (take b (lengths l))" if "a \<le> b" for a b
  proof -
    have "0 \<le> sum_list (take (b - a) (drop a (lengths l)))"
      by (intro sum_list_nonneg) (auto dest!: in_set_takeD in_set_dropD simp: lengths_def)
    with that show ?thesis using take_add [of a "b - a" "lengths l"] by simp
  qed
  moreover have "nat (m - 1) < length (lengths l)" using assms(1-3) by (simp add: lengths_def)
  then have "sum_list (take (nat m) (lengths l))
      = sum_list (take (nat (m - 1)) (lengths l)) + lengths l ! nat (m - 1)"
    by (simp add: \<open>nat m = Suc (nat (m - 1))\<close> take_Suc_conv_app_nth)
  ultimately have "sum_list (take (nat (m - 1)) (lengths l)) + lengths l ! nat (m - 1)
      \<le> sum_list (take (nat (m' - 1)) (lengths l))" by metis
  with assms(4,5) show ?thesis by simp
qed

lemma day_number_inj:
  assumes "valid_date (y, m, d)" "valid_date (y', m', d')"
    and same: "day_number (y, m, d) = day_number (y', m', d')"
  shows "(y, m, d) = (y', m', d')"
proof -
  have v: "1 \<le> m" "m \<le> 12" "1 \<le> d" "d \<le> lengths (leap y) ! nat (m - 1)"
    "1 \<le> m'" "m' \<le> 12" "1 \<le> d'" "d' \<le> lengths (leap y') ! nat (m' - 1)"
    using assms(1,2) by (simp_all add: valid_date_def month_lengths_def)
  let ?n = "day_number (y, m, d) + 719162"
  have within: "years_days (y - 1) \<le> ?n" "?n < years_days y" "years_days (y' - 1) \<le> ?n" "?n < years_days y'"
    using day_of_year_range [OF v(1-4)] day_of_year_range [OF v(5-8)] same
      years_days_step [of y] years_days_step [of y']
    by (simp_all add: day_number_def month_lengths_def)
  have year: "y = y'"
    using years_days_mono [of y "y' - 1"] years_days_mono [of y' "y - 1"] within by linarith
  have eq: "sum_list (take (nat (m - 1)) (lengths (leap y))) + d
      = sum_list (take (nat (m' - 1)) (lengths (leap y))) + d'"
    using same year by (simp add: day_number_def month_lengths_def)
  have "m = m'"
    using eq v year day_of_year_later [of m m' d "leap y" d'] day_of_year_later [of m' m d' "leap y" d]
    by force
  with eq year show ?thesis by simp
qed

lemma civil_from_days_exact:
  "civil_from_days day = (y, m, d) \<longleftrightarrow> valid_date (y, m, d) \<and> day_number (y, m, d) = day"
  using civil_from_days_sound [of day] day_number_inj [of _ _ _ y m d]
  by (cases "civil_from_days day") auto

text \<open>
  The civil date of a day number, as \<open>clock.rs\<close> computes it, is the one date of the Gregorian
  calendar with that day number: the month and the day exist in that year, and the days before it
  are the day number. In particular no two days share a date, and every date is the date of a day.
\<close>

theorem civil_date_exact:
  "civil_from_days day = (y, m, d) \<longleftrightarrow> valid_date (y, m, d) \<and> day_number (y, m, d) = day"
  by (rule civil_from_days_exact)

section \<open>The year, three ways\<close>

lemma year_of_day: "fst (civil_from_days day) =
    (if march_month (era_doy day) < 10 then era_year day else era_year day + 1)"
  by (simp add: civil_from_days_alt Let_def)

lemma offset_in_range:
  assumes "\<bar>tz\<bar> \<le> 2147483648" and "in_i64 (at + tz * 60)"
  shows "sat_i64 (at + sat_i64 (tz * 60)) = at + tz * 60" "wrap_i64 (at + tz * 60) = at + tz * 60"
  using assms by (auto simp: sat_i64_def in_i64_def wrap_i64_def)

lemma local_year_is:
  assumes "\<bar>tz\<bar> \<le> 2147483648" and "in_i64 (at + tz * 60)"
  shows "local_year at tz = i32_of 2147483647 (fst (civil_from_days (local_day at tz)))"
proof -
  let ?day = "local_day at tz"
  have era: "(if ?day + 719468 \<ge> 0 then ?day + 719468 else ?day + 719468 - 146096) sdiv 146097
      = (?day + 719468) div 146097"
    using sdiv_floor [of 146097 "?day + 719468"] by (simp split: if_splits)
  have doe: "n - n div 146097 * 146097 = n mod 146097" for n :: int by (simp add: minus_div_mult_eq_mod)
  have "local_year at tz =
      (let m = march_month (era_doy ?day) + (if march_month (era_doy ?day) < 10 then 3 else - 9)
       in i32_of 2147483647 (if m \<le> 2 then era_year ?day + 1 else era_year ?day))"
    by (simp only: local_year_def offset_in_range(1) [OF assms] local_day_def [symmetric] Let_def era doe
      march_month_def era_doy_formula era_year_def)
  with era_month_range [of ?day] show ?thesis by (simp add: Let_def year_of_day)
qed

lemma reveal_local_year_is:
  assumes "\<bar>tz\<bar> \<le> 2147483648" and "in_i64 (at + tz * 60)"
  shows "reveal_local_year at tz = i32_of 0 (fst (civil_from_days (local_day at tz)))"
proof -
  let ?day = "local_day at tz"
  have "reveal_local_year at tz =
      i32_of 0 (if march_month (era_doy ?day) \<ge> 10 then era_year ?day + 1 else era_year ?day)"
    by (simp only: reveal_local_year_def offset_in_range(2) [OF assms] local_day_def [symmetric] Let_def
      march_month_def era_doy_formula era_year_def)
  then show ?thesis by (simp add: year_of_day)
qed

text \<open>
  The two years the core computes apart from the clock, the year a cover dates a project by and
  the year of the restoration reveal, are the year of the clock's civil date of the same instant
  in the same zone, though one divides towards zero and the other towards minus infinity; a year
  outside 32 bits is the sentinel each of them names.
\<close>

theorem years_agree:
  assumes "\<bar>tz\<bar> \<le> 2147483648" and "in_i64 (at + tz * 60)"
  shows "local_year at tz = i32_of 2147483647 (fst (civil_from_days (local_day at tz))) \<and>
    reveal_local_year at tz = i32_of 0 (fst (civil_from_days (local_day at tz)))"
  using local_year_is [OF assms] reveal_local_year_is [OF assms] ..

lemma years_agree_witness:
  "local_year (- 1) 0 = 1969 \<and> reveal_local_year (- 1) 60 = 1970"
proof -
  have days: "local_day (- 1) 0 = - 1" "local_day (- 1) 60 = 0" by (simp_all add: local_day_def)
  have "civil_from_days (- 1) = (1969, 12, 31)" "civil_from_days 0 = (1970, 1, 1)" by code_simp+
  then show ?thesis
    using years_agree [of 0 "- 1"] years_agree [of 60 "- 1"] by (simp add: days i32_of_def in_i64_def)
qed

section \<open>Dates as text\<close>

lemma show_nat_length: "n < 10 ^ w \<Longrightarrow> 0 < w \<Longrightarrow> length (show_nat n) \<le> w"
proof (induction n arbitrary: w rule: show_nat.induct)
  case (1 n)
  show ?case
  proof (cases "n < 10")
    case True
    with 1 show ?thesis by (subst show_nat.simps) simp
  next
    case False
    then obtain v where w: "w = Suc v" "0 < v" using 1 by (cases w; cases "w - 1") auto
    with 1(2) have "n div 10 < 10 ^ v" by (simp add: less_mult_imp_div_less mult.commute)
    with 1(1) False w show ?thesis by (subst show_nat.simps) simp
  qed
qed

lemma digits_val_zeros: "digits_val (replicate k CHR ''0'' @ s) = digits_val s"
proof (induction k)
  case (Suc k)
  then show ?case by (simp add: digits_val_def digit_val_def char_code_def)
qed simp

lemma padded:
  assumes "0 \<le> n" "n < 10 ^ w" "0 < w" "w \<le> 18"
  shows "length (pad_int w n) = w" "parse_i64 (pad_int w n) = Some n"
proof -
  have len: "length (show_nat (nat n)) \<le> w" using assms by (intro show_nat_length) auto
  have pad: "pad_int w n = replicate (w - length (show_nat (nat n))) CHR ''0'' @ show_nat (nat n)"
    using assms by (simp add: pad_int_def Let_def)
  with len show "length (pad_int w n) = w" by simp
  have digits: "list_all is_digit (pad_int w n)" "pad_int w n \<noteq> []" "digits_val (pad_int w n) = nat n"
    using show_nat_digits [of "nat n"] unfolding pad digits_val_zeros
    by (auto simp: list_all_iff is_digit_def char_code_def)
  moreover obtain c r where "pad_int w n = c # r" "is_digit c"
    using digits by (cases "pad_int w n") auto
  moreover have "(10::int) ^ w \<le> 10 ^ 18" using assms(4) by (intro power_increasing) auto
  then have "in_i64 n" using assms by (auto simp: in_i64_def)
  moreover have "c \<noteq> CHR ''-'' \<and> c \<noteq> CHR ''+''" using \<open>is_digit c\<close> by (auto simp: is_digit_def char_code_def)
  ultimately show "parse_i64 (pad_int w n) = Some n"
    using assms(1) by (simp add: parse_i64_def parse_digits_def)
qed

text \<open>An instant written the way RFC 3339 has it, from the clock's date.\<close>

definition rfc3339 :: "int \<Rightarrow> int \<Rightarrow> int \<Rightarrow> int \<Rightarrow> string" where
  "rfc3339 day h m s = local_date day @ ''T'' @ pad_int 2 h @ '':'' @ pad_int 2 m @ '':'' @ pad_int 2 s @ ''Z''"

lemma parts_read:
  assumes "length a = 4" "length b = 2" "length c = 2" "length d = 2" "length e = 2" "length f = 2"
    and "s = a @ ''-'' @ b @ ''-'' @ c @ ''T'' @ d @ '':'' @ e @ '':'' @ f @ ''Z''"
  shows "length s = 20" "s ! 4 = CHR ''-''" "s ! 7 = CHR ''-''" "s ! 10 = CHR ''T''"
    "digits_at s 0 4 = parse_i64 a" "digits_at s 5 7 = parse_i64 b" "digits_at s 8 10 = parse_i64 c"
    "digits_at s 11 13 = parse_i64 d" "digits_at s 14 16 = parse_i64 e" "digits_at s 17 19 = parse_i64 f"
  using assms by (simp_all add: digits_at_def nth_append)

lemma civil_ranges:
  assumes "civil_from_days day = (y, m, d)"
  shows "1 \<le> m" "m \<le> 12" "1 \<le> d" "d \<le> 31"
proof -
  have v: "valid_date (y, m, d)" using assms by (simp add: civil_from_days_exact)
  then show "1 \<le> m" "m \<le> 12" "1 \<le> d" by (simp_all add: valid_date_def)
  have "nat (m - 1) < length (lengths (leap y))" using v by (auto simp: valid_date_def lengths_def)
  moreover have "list_all (\<lambda>n. n \<le> 31) (lengths (leap y))" by (simp add: lengths_def)
  ultimately have "lengths (leap y) ! nat (m - 1) \<le> 31" by (simp add: list_all_length)
  with v show "d \<le> 31" by (simp add: valid_date_def month_lengths_def)
qed

text \<open>
  The parser of a forge's instants reads back what the clock's date says: for every day of the
  years 0 to 9999 and every time of day, the text \<open>
  YYYY-MM-DDThh:mm:ssZ\<close> with the clock's date
  parses to the second that many days and seconds after the epoch.
\<close>

theorem instants_round_trip:
  assumes "0 \<le> fst (civil_from_days day)" "fst (civil_from_days day) \<le> 9999"
    and "0 \<le> h" "h \<le> 23" "0 \<le> m" "m \<le> 59" "0 \<le> s" "s \<le> 59"
  shows "parse_rfc3339_secs (rfc3339 day h m s) = Some (day * 86400 + h * 3600 + m * 60 + s)"
proof -
  obtain y mo d where civil: "civil_from_days day = (y, mo, d)" by (cases "civil_from_days day")
  note r = civil_ranges [OF civil]
  have date: "days_from_civil y mo d = day"
    using civil r by (simp add: days_from_civil_is_day_number civil_from_days_exact)
  have y: "0 \<le> y" "y \<le> 9999" using assms civil by simp_all
  have shape: "rfc3339 day h m s = pad_int 4 y @ ''-'' @ pad_int 2 mo @ ''-'' @ pad_int 2 d @ ''T'' @
      pad_int 2 h @ '':'' @ pad_int 2 m @ '':'' @ pad_int 2 s @ ''Z''"
    by (simp add: rfc3339_def local_date_def civil)
  have len: "length (pad_int 4 y) = 4" "length (pad_int 2 mo) = 2" "length (pad_int 2 d) = 2"
    "length (pad_int 2 h) = 2" "length (pad_int 2 m) = 2" "length (pad_int 2 s) = 2"
    using r y assms by (simp_all add: padded)
  note p = parts_read [OF len shape]
  have num: "parse_i64 (pad_int 4 y) = Some y" "parse_i64 (pad_int 2 mo) = Some mo"
    "parse_i64 (pad_int 2 d) = Some d" "parse_i64 (pad_int 2 h) = Some h"
    "parse_i64 (pad_int 2 m) = Some m" "parse_i64 (pad_int 2 s) = Some s"
    using r y assms by (simp_all add: padded)
  show ?thesis
    using r assms by (simp add: parse_rfc3339_secs_def p num date)
qed

lemma instants_round_trip_witness: "parse_rfc3339_secs ''2024-02-29T23:59:58Z'' = Some 1709251198"
proof -
  have "civil_from_days 19782 = (2024, 2, 29)" by code_simp
  moreover have "rfc3339 19782 23 59 58 = ''2024-02-29T23:59:58Z''" by code_simp
  ultimately show ?thesis using instants_round_trip [of 19782 23 59 58] by simp
qed

text \<open>The zone is not read: a time given at an offset is taken for the same time at Greenwich,
  and a date no calendar has is read as the day after the month's last.\<close>

lemma zone_offset_is_ignored:
  "parse_rfc3339_secs ''2024-01-01T00:00:00+09:00'' = parse_rfc3339_secs ''2024-01-01T00:00:00Z''"
  "parse_rfc3339_secs ''2023-02-29T00:00:00Z'' = parse_rfc3339_secs ''2023-03-01T00:00:00Z''"
  by code_simp+

end
