(* ===== verification/Query_Parse.thy ===== *)
theory Query_Parse
  imports Prelude
begin

text \<open>
  The query language's parser (\<open>query/ast.rs\<close>, \<open>query/parse.rs\<close>): the tokenizer with its
  quotes, the nine fields and their values, and the terms a query runs without. Parsing is total:
  what does not parse is carried with its reason. Text is ASCII (see \<open>Prelude\<close>).
\<close>

section \<open>The syntax tree\<close>

datatype cmp = Lt | Gt

datatype text_field = FLang | FOwner | FIn | FCollection

datatype is_flag =
    Dirty | Unpushed | Behind | Interrupted | Archived | Pinned | Hidden | IsReference | Bare
  | Fork | Empty | Shallow | IsLocal | Wsl | New | Notcloned

datatype has_attribute = Readme | License | Tests | Ci | HasRemote | Stash | Submodules

datatype ignored_reason = UnknownField | NotComputed | MalformedValue

record ignored_term =
  ig_text :: string
  ig_reason :: ignored_reason

datatype query_term =
    BareTerm bool string
  | TextTerm bool text_field string bool
  | FlagTerm bool is_flag
  | HasTerm bool has_attribute
  | SizeTerm bool cmp nat
  | TouchedAge bool cmp nat
  | TouchedYear bool nat
  | CompletionTerm bool cmp nat

fun negated :: "query_term \<Rightarrow> bool" where
  "negated (BareTerm n _) = n"
| "negated (TextTerm n _ _ _) = n"
| "negated (FlagTerm n _) = n"
| "negated (HasTerm n _) = n"
| "negated (SizeTerm n _ _) = n"
| "negated (TouchedAge n _ _) = n"
| "negated (TouchedYear n _) = n"
| "negated (CompletionTerm n _ _) = n"

record query_ast =
  qa_version :: nat
  qa_terms :: "query_term list"
  qa_ignored :: "ignored_term list"

definition QUERY_GRAMMAR_VERSION :: nat where "QUERY_GRAMMAR_VERSION = 3"

section \<open>Tokens\<close>

abbreviation quote :: char where "quote \<equiv> CHR 0x22"
abbreviation backslash :: char where "backslash \<equiv> CHR 0x5C"

text \<open>The loop's state: the token so far, whether inside quotes, whether after a backslash there.\<close>

fun tokens_from :: "string \<Rightarrow> bool \<Rightarrow> bool \<Rightarrow> string \<Rightarrow> string list" where
  "tokens_from current in_quotes escaped [] = (if current = [] then [] else [current])"
| "tokens_from current in_quotes escaped (c # cs) =
     (if escaped then tokens_from (current @ [c]) in_quotes False cs
      else if c = backslash \<and> in_quotes then tokens_from (current @ [c]) in_quotes True cs
      else if c = quote then tokens_from (current @ [c]) (\<not> in_quotes) False cs
      else if is_space c \<and> \<not> in_quotes then
        (if current = [] then tokens_from [] in_quotes False cs
         else current # tokens_from [] in_quotes False cs)
      else tokens_from (current @ [c]) in_quotes False cs)"

definition tokenize :: "string \<Rightarrow> string list" where
  "tokenize input = tokens_from [] False False input"

text \<open>\<open>str::replace\<close> of an escaped quote by a quote.\<close>

fun unescape :: "string \<Rightarrow> string" where
  "unescape [] = []"
| "unescape [c] = [c]"
| "unescape (c # d # cs) =
     (if c = backslash \<and> d = quote then quote # unescape cs else c # unescape (d # cs))"

definition unquote :: "string \<Rightarrow> string \<times> bool" where
  "unquote val =
     (case val of
        [] \<Rightarrow> (val, False)
      | c # cs \<Rightarrow>
          (if c \<noteq> quote then (val, False)
           else if length val \<ge> 2 \<and> last val = quote
           then (unescape (take (length val - 2) cs), True)
           else (unescape cs, True)))"

definition is_field_shaped :: "string \<Rightarrow> bool" where
  "is_field_shaped before \<longleftrightarrow> length before \<ge> 2 \<and> list_all is_alpha before"

section \<open>Values\<close>

fun flag_name :: "is_flag \<Rightarrow> string" where
  "flag_name Dirty = ''dirty''"
| "flag_name Unpushed = ''unpushed''"
| "flag_name Behind = ''behind''"
| "flag_name Interrupted = ''interrupted''"
| "flag_name Archived = ''archived''"
| "flag_name Pinned = ''pinned''"
| "flag_name Hidden = ''hidden''"
| "flag_name IsReference = ''reference''"
| "flag_name Bare = ''bare''"
| "flag_name Fork = ''fork''"
| "flag_name Empty = ''empty''"
| "flag_name Shallow = ''shallow''"
| "flag_name IsLocal = ''local''"
| "flag_name Wsl = ''wsl''"
| "flag_name New = ''new''"
| "flag_name Notcloned = ''notcloned''"

definition parse_is :: "string \<Rightarrow> is_flag option" where
  "parse_is val =
     (if val = ''dirty'' then Some Dirty
      else if val = ''unpushed'' then Some Unpushed
      else if val = ''behind'' then Some Behind
      else if val = ''interrupted'' then Some Interrupted
      else if val = ''archived'' then Some Archived
      else if val = ''pinned'' then Some Pinned
      else if val = ''hidden'' then Some Hidden
      else if val = ''reference'' then Some IsReference
      else if val = ''bare'' then Some Bare
      else if val = ''fork'' then Some Fork
      else if val = ''empty'' then Some Empty
      else if val = ''shallow'' then Some Shallow
      else if val = ''local'' then Some IsLocal
      else if val = ''wsl'' then Some Wsl
      else if val = ''new'' then Some New
      else if val = ''notcloned'' then Some Notcloned
      else None)"

fun attribute_name :: "has_attribute \<Rightarrow> string" where
  "attribute_name Readme = ''readme''"
| "attribute_name License = ''license''"
| "attribute_name Tests = ''tests''"
| "attribute_name Ci = ''ci''"
| "attribute_name HasRemote = ''remote''"
| "attribute_name Stash = ''stash''"
| "attribute_name Submodules = ''submodules''"

definition parse_has :: "string \<Rightarrow> has_attribute option" where
  "parse_has val =
     (if val = ''readme'' then Some Readme
      else if val = ''license'' then Some License
      else if val = ''tests'' then Some Tests
      else if val = ''ci'' then Some Ci
      else if val = ''remote'' then Some HasRemote
      else if val = ''stash'' then Some Stash
      else if val = ''submodules'' then Some Submodules
      else None)"

definition parse_cmp :: "char \<Rightarrow> cmp option" where
  "parse_cmp c = (if c = CHR ''>'' then Some Gt else if c = CHR ''<'' then Some Lt else None)"

definition split_comparison :: "string \<Rightarrow> (cmp \<times> nat \<times> string) option" where
  "split_comparison val =
     (case val of
        [] \<Rightarrow> None
      | c # rest \<Rightarrow>
          (case parse_cmp c of
             None \<Rightarrow> None
           | Some op \<Rightarrow>
               let digits = takeWhile is_digit rest; unit = drop (length digits) rest
               in if digits = [] \<or> unit = [] \<or> \<not> list_all is_lower unit then None
                  else map_option (\<lambda>n. (op, n, unit)) (parse_unsigned u64_max digits)))"

definition checked_mul :: "nat \<Rightarrow> nat \<Rightarrow> nat option" where
  "checked_mul a b = (if a * b \<le> u64_max then Some (a * b) else None)"

definition size_scale :: "string \<Rightarrow> nat option" where
  "size_scale unit =
     (if unit = ''kb'' then Some 1024
      else if unit = ''mb'' then Some 1048576
      else if unit = ''gb'' then Some 1073741824
      else None)"

definition age_scale :: "string \<Rightarrow> nat option" where
  "age_scale unit =
     (if unit = ''d'' then Some 1
      else if unit = ''w'' then Some 7
      else if unit = ''mo'' then Some 30
      else if unit = ''y'' then Some 365
      else None)"

definition parse_size :: "bool \<Rightarrow> string \<Rightarrow> query_term option" where
  "parse_size neg val =
     (case split_comparison val of
        None \<Rightarrow> None
      | Some (op, n, unit) \<Rightarrow>
          Option.bind (size_scale unit) (\<lambda>scale. map_option (SizeTerm neg op) (checked_mul n scale)))"

definition parse_completion :: "bool \<Rightarrow> string \<Rightarrow> query_term option" where
  "parse_completion neg val =
     (case val of
        [] \<Rightarrow> None
      | c # digits \<Rightarrow>
          (case parse_cmp c of
             None \<Rightarrow> None
           | Some op \<Rightarrow>
               (if digits = [] \<or> \<not> list_all is_digit digits then None
                else map_option (CompletionTerm neg op) (parse_unsigned u32_max digits))))"

definition parse_touched :: "bool \<Rightarrow> string \<Rightarrow> query_term option" where
  "parse_touched neg val =
     (if length val = 4 \<and> list_all is_digit val
      then map_option (TouchedYear neg) (parse_unsigned u32_max val)
      else case split_comparison val of
        None \<Rightarrow> None
      | Some (op, n, unit) \<Rightarrow>
          Option.bind (age_scale unit) (\<lambda>scale. Option.bind (checked_mul n scale)
            (\<lambda>days. if days \<le> u32_max then Some (TouchedAge neg op days) else None)))"

definition text_field_of :: "string \<Rightarrow> text_field option" where
  "text_field_of field =
     (if field = ''lang'' then Some FLang
      else if field = ''owner'' then Some FOwner
      else if field = ''in'' then Some FIn
      else if field = ''collection'' then Some FCollection
      else None)"

definition parse_field_term :: "string \<Rightarrow> string \<Rightarrow> bool \<Rightarrow> bool \<Rightarrow> query_term option" where
  "parse_field_term field raw quoted neg =
     (if raw = [] then None
      else case text_field_of field of
        Some f \<Rightarrow> Some (TextTerm neg f (if quoted then raw else to_lower raw) quoted)
      | None \<Rightarrow>
          (if field = ''is'' then map_option (FlagTerm neg) (parse_is (to_lower raw))
           else if field = ''has'' then map_option (HasTerm neg) (parse_has (to_lower raw))
           else if field = ''size'' then parse_size neg (to_lower raw)
           else if field = ''completion'' then parse_completion neg (to_lower raw)
           else if field = ''touched'' then parse_touched neg (to_lower raw)
           else None))"

definition FIELDS :: "string list" where
  "FIELDS = [''lang'', ''owner'', ''in'', ''is'', ''has'', ''touched'', ''size'', ''completion'',
             ''collection'']"

section \<open>Queries\<close>

text \<open>One token: a term, an ignored term, or, for a lone minus, nothing.\<close>

definition bare_term :: "bool \<Rightarrow> string \<Rightarrow> query_term" where
  "bare_term neg body = BareTerm neg (to_lower (fst (unquote body)))"

definition parse_token :: "string \<Rightarrow> (query_term + ignored_term) option" where
  "parse_token token =
     (let neg = starts_with ''-'' token;
          body = (if neg then drop 1 token else token)
      in if body = [] then None
         else case split_once (CHR '':'') body of
           None \<Rightarrow> Some (Inl (bare_term neg body))
         | Some (before, raw_value) \<Rightarrow>
             (if before = [] then Some (Inl (bare_term neg body))
              else
                let field = to_lower before
                in if field \<notin> set FIELDS
                   then (if is_field_shaped before \<and> \<not> starts_with ''//'' raw_value
                         then Some (Inr \<lparr>ig_text = token, ig_reason = UnknownField\<rparr>)
                         else Some (Inl (bare_term neg body)))
                   else case unquote raw_value of
                     (val, quoted) \<Rightarrow>
                       (case parse_field_term field val quoted neg of
                          Some term \<Rightarrow> Some (Inl term)
                        | None \<Rightarrow> Some (Inr \<lparr>ig_text = token, ig_reason = MalformedValue\<rparr>))))"

fun add_token :: "string \<Rightarrow> query_term list \<times> ignored_term list \<Rightarrow> query_term list \<times> ignored_term list" where
  "add_token token (terms, ignored) =
     (case parse_token token of
        None \<Rightarrow> (terms, ignored)
      | Some (Inl t) \<Rightarrow> (terms @ [t], ignored)
      | Some (Inr i) \<Rightarrow> (terms, ignored @ [i]))"

definition parse_query :: "string \<Rightarrow> query_ast" where
  "parse_query input =
     (case fold add_token (tokenize input) ([], []) of
        (terms, ignored) \<Rightarrow>
          \<lparr>qa_version = QUERY_GRAMMAR_VERSION, qa_terms = terms, qa_ignored = ignored\<rparr>)"

section \<open>What the parser produces\<close>

fun wf_term :: "query_term \<Rightarrow> bool" where
  "wf_term (BareTerm _ text) \<longleftrightarrow> to_lower text = text"
| "wf_term (TextTerm _ _ val quoted) \<longleftrightarrow>
     val \<noteq> [] \<and> (quoted \<or> to_lower val = val \<and> hd val \<noteq> quote)"
| "wf_term (SizeTerm _ _ bytes) \<longleftrightarrow> 1024 dvd bytes \<and> bytes \<le> u64_max"
| "wf_term (TouchedAge _ _ days) \<longleftrightarrow> days \<le> u32_max"
| "wf_term (TouchedYear _ year) \<longleftrightarrow> year < 10000"
| "wf_term (CompletionTerm _ _ val) \<longleftrightarrow> val \<le> u32_max"
| "wf_term _ \<longleftrightarrow> True"

lemma lower_char_idem [simp]: "lower_char (lower_char c) = lower_char c"
proof (cases "is_upper c")
  case True
  then have "char_code (char_of (char_code c + 32)) = char_code c + 32"
    by (simp add: is_upper_def char_code_def)
  then have "\<not> is_upper (char_of (char_code c + 32))" using True by (simp add: is_upper_def)
  then show ?thesis using True by (simp add: lower_char_def)
qed (simp add: lower_char_def)

lemma lower_quote [simp]: "lower_char c = quote \<longleftrightarrow> c = quote"
proof (cases "is_upper c")
  case True
  then have "char_code (char_of (char_code c + 32)) = char_code c + 32"
    by (simp add: is_upper_def char_code_def)
  then have "char_code (lower_char c) \<ge> 97" "char_code c \<ge> 65"
    using True by (simp_all add: lower_char_def is_upper_def)
  then show ?thesis by (auto simp: char_code_def)
qed (simp add: lower_char_def)

lemma digits_val_bound: "list_all is_digit s \<Longrightarrow> digits_val s < 10 ^ length s"
proof (induction s rule: rev_induct)
  case (snoc c s)
  have "is_digit c" using snoc.prems by simp
  then have "digit_val c < 10" by (auto simp: digit_val_def is_digit_def)
  then show ?case using snoc by (simp add: digits_val_def)
qed (simp add: digits_val_def)

lemma parse_unsigned_bound: "parse_unsigned b s = Some n \<Longrightarrow> n \<le> b"
  by (auto simp: parse_unsigned_def Let_def split: list.splits if_splits option.splits)

lemma parse_touched_wf: "parse_touched neg val = Some t \<Longrightarrow> wf_term t"
proof (cases "length val = 4 \<and> list_all is_digit val")
  case True
  assume "parse_touched neg val = Some t"
  moreover have "val \<noteq> []" using True by auto
  ultimately show ?thesis
    using True digits_val_bound [of val] by (auto simp: parse_touched_def parse_unsigned_digits split: if_splits)
qed (auto simp: parse_touched_def bind_eq_Some_conv split: option.splits prod.splits if_splits)

lemma parse_size_wf: "parse_size neg val = Some t \<Longrightarrow> wf_term t"
  by (auto simp: parse_size_def size_scale_def checked_mul_def bind_eq_Some_conv
           split: option.splits prod.splits if_splits)

lemma parse_completion_wf: "parse_completion neg val = Some t \<Longrightarrow> wf_term t"
  by (auto simp: parse_completion_def dest: parse_unsigned_bound split: list.splits option.splits if_splits)

lemma unquote_plain: "unquote s = (v, False) \<Longrightarrow> v = s \<and> (s = [] \<or> hd s \<noteq> quote)"
  by (auto simp: unquote_def split: list.splits if_splits)

lemma parse_field_term_wf:
  assumes "parse_field_term field raw quoted neg = Some t" and "unquote s = (raw, quoted)"
  shows "wf_term t"
proof -
  have raw: "raw \<noteq> []" using assms(1) by (auto simp: parse_field_term_def)
  show ?thesis
  proof (cases "text_field_of field")
    case (Some f)
    then have "t = TextTerm neg f (if quoted then raw else to_lower raw) quoted"
      using assms(1) raw by (simp add: parse_field_term_def)
    then show ?thesis using raw unquote_plain [of s raw] assms(2) by (auto simp: hd_map)
  next
    case None
    then show ?thesis
      using assms(1) raw parse_size_wf parse_completion_wf parse_touched_wf
      by (auto simp: parse_field_term_def split: if_splits)
  qed
qed

lemma parse_token_wf:
  "parse_token token = Some (Inl t) \<Longrightarrow> wf_term t"
  "parse_token token = Some (Inr i) \<Longrightarrow> ig_text i = token \<and> ig_reason i \<noteq> NotComputed"
  by (auto simp: parse_token_def Let_def bare_term_def o_def dest: parse_field_term_wf
           split: if_splits option.splits prod.splits)

text \<open>The tokens as the parser reads them, in order, and what it makes of each.\<close>

definition outcomes :: "string \<Rightarrow> (query_term + ignored_term) list" where
  "outcomes input = List.map_filter parse_token (tokenize input)"

definition lefts :: "('a + 'b) list \<Rightarrow> 'a list" where
  "lefts xs = List.map_filter (\<lambda>x. case x of Inl a \<Rightarrow> Some a | Inr _ \<Rightarrow> None) xs"

definition rights :: "('a + 'b) list \<Rightarrow> 'b list" where
  "rights xs = List.map_filter (\<lambda>x. case x of Inl _ \<Rightarrow> None | Inr b \<Rightarrow> Some b) xs"

lemma fold_add_token:
  "fold add_token tokens (terms, ignored)
     = (terms @ lefts (List.map_filter parse_token tokens), ignored @ rights (List.map_filter parse_token tokens))"
  by (induction tokens arbitrary: terms ignored)
     (auto simp: map_filter_simps lefts_def rights_def split: option.splits sum.splits)

lemma parse_query_outcomes:
  "qa_terms (parse_query input) = lefts (outcomes input)"
  "qa_ignored (parse_query input) = rights (outcomes input)"
  by (simp_all add: parse_query_def fold_add_token outcomes_def)

lemma parse_token_None: "parse_token token = None \<longleftrightarrow> token = [] \<or> token = ''-''"
proof -
  have "(if starts_with ''-'' token then drop 1 token else token) = [] \<longleftrightarrow> token = [] \<or> token = ''-''"
    by (cases token) (auto simp: starts_with_def)
  then show ?thesis
    unfolding parse_token_def Let_def
    by (auto split: option.split prod.split)
qed

lemma tokens_from_chars:
  "filter (\<lambda>c. \<not> is_space c) (concat (tokens_from cur q e s)) = filter (\<lambda>c. \<not> is_space c) (cur @ s)
   \<and> subseq (concat (tokens_from cur q e s)) (cur @ s) \<and> [] \<notin> set (tokens_from cur q e s)"
proof (induction cur q e s rule: tokens_from.induct)
  case (2 cur q e c cs)
  have keep: "subseq xs (cur @ cs) \<Longrightarrow> subseq xs (cur @ c # cs)" for xs
    by (metis subseq_order.trans list_emb_append_mono subseq_order.refl list_emb_Cons)
  show ?case
    using 2 keep by (auto simp: subseq_append_iff intro: list_emb_append_mono)
qed auto

lemma length_lefts_rights: "length (lefts xs) + length (rights xs) = length xs"
  by (induction xs) (auto simp: lefts_def rights_def split: sum.splits)

lemma lefts_wf: "list_all wf_term (lefts (List.map_filter parse_token tokens))"
  by (induction tokens) (auto simp: lefts_def dest: parse_token_wf split: option.splits sum.splits)

lemma rights_typed:
  "set tokens \<subseteq> T \<Longrightarrow>
     list_all (\<lambda>i. ig_text i \<in> T \<and> ig_reason i \<noteq> NotComputed) (rights (List.map_filter parse_token tokens))"
proof (induction tokens)
  case (Cons token tokens)
  show ?case
  proof (cases "parse_token token")
    case (Some r)
    then show ?thesis
      using Cons parse_token_wf(2) [of token] by (cases r) (simp_all add: rights_def)
  qed (use Cons in simp)
qed (simp add: rights_def)

lemma length_outcomes: "[] \<notin> set tokens \<Longrightarrow>
    length (List.map_filter parse_token tokens) = length (filter (\<lambda>t. t \<noteq> ''-'') tokens)"
proof (induction tokens)
  case (Cons token tokens)
  then show ?case using parse_token_None [of token] by (cases "parse_token token") auto
qed simp


section \<open>Every query can be typed\<close>

text \<open>A term as a user would type it: the value in quotes where it is quoted, a size in kilobytes,
  an age in days.\<close>

fun escape :: "string \<Rightarrow> string" where
  "escape [] = []"
| "escape (c # cs) = (if c = quote then backslash # quote # escape cs else c # escape cs)"

definition show_quoted :: "string \<Rightarrow> string" where
  "show_quoted s = quote # escape s @ [quote]"

definition sign :: "bool \<Rightarrow> string" where
  "sign neg = (if neg then ''-'' else [])"

definition show_cmp :: "cmp \<Rightarrow> string" where
  "show_cmp op = (case op of Gt \<Rightarrow> ''>'' | Lt \<Rightarrow> ''<'')"

fun field_name :: "text_field \<Rightarrow> string" where
  "field_name FLang = ''lang''"
| "field_name FOwner = ''owner''"
| "field_name FIn = ''in''"
| "field_name FCollection = ''collection''"

definition show_year :: "nat \<Rightarrow> string" where
  "show_year y = map (\<lambda>d. char_of (48 + d)) [y div 1000 mod 10, y div 100 mod 10, y div 10 mod 10, y mod 10]"

definition show_field :: "bool \<Rightarrow> string \<Rightarrow> string \<Rightarrow> string" where
  "show_field neg field v = sign neg @ field @ CHR '':'' # v"

fun show_term :: "query_term \<Rightarrow> string" where
  "show_term (BareTerm neg text) = sign neg @ show_quoted text"
| "show_term (TextTerm neg f v quoted) =
     show_field neg (field_name f) (if quoted then show_quoted v else v)"
| "show_term (FlagTerm neg flag) = show_field neg ''is'' (flag_name flag)"
| "show_term (HasTerm neg attribute) = show_field neg ''has'' (attribute_name attribute)"
| "show_term (SizeTerm neg op bytes) =
     show_field neg ''size'' (show_cmp op @ show_nat (bytes div 1024) @ ''kb'')"
| "show_term (TouchedAge neg op days) =
     show_field neg ''touched'' (show_cmp op @ show_nat days @ ''d'')"
| "show_term (TouchedYear neg year) = show_field neg ''touched'' (show_year year)"
| "show_term (CompletionTerm neg op n) =
     show_field neg ''completion'' (show_cmp op @ show_nat n)"

definition show_query :: "query_term list \<Rightarrow> string" where
  "show_query ts = join_with '' '' (map show_term ts)"

text \<open>The terms that can be typed: those the parser produces, less a backslash inside quotes, which
  the language has no way to write before a quote, and blanks or quotes outside them.\<close>

definition plain_text :: "string \<Rightarrow> bool" where
  "plain_text s \<longleftrightarrow> list_all (\<lambda>c. \<not> is_space c \<and> c \<noteq> quote) s"

fun typeable :: "query_term \<Rightarrow> bool" where
  "typeable (BareTerm neg text) \<longleftrightarrow> wf_term (BareTerm neg text) \<and> backslash \<notin> set text"
| "typeable (TextTerm neg f v quoted) \<longleftrightarrow>
     wf_term (TextTerm neg f v quoted) \<and> (if quoted then backslash \<notin> set v else plain_text v)"
| "typeable t \<longleftrightarrow> wf_term t"

subsection \<open>Numbers\<close>

lemma parse_shown: "n \<le> b \<Longrightarrow> parse_unsigned b (show_nat n) = Some n"
  using show_nat_digits [of n] by (simp add: parse_unsigned_digits)

lemma split_shown:
  assumes "unit \<noteq> []" and "list_all is_lower unit" and "n \<le> u64_max"
  shows "split_comparison (show_cmp op @ show_nat n @ unit) = Some (op, n, unit)"
proof -
  have "\<not> is_digit (hd unit)" using assms(1,2) by (cases unit) (auto simp: is_lower_def is_digit_def)
  then have "takeWhile is_digit (show_nat n @ unit) = show_nat n"
    using show_nat_digits [of n] assms(1) by (cases unit) (auto simp: takeWhile_append2 list_all_iff)
  then show ?thesis
    using assms show_nat_digits [of n]
    by (cases op) (simp_all add: split_comparison_def show_cmp_def parse_cmp_def parse_shown Let_def)
qed

lemma year_digits:
  fixes y :: nat
  assumes "y < 10000"
  shows "10 * (10 * (10 * (y div 1000 mod 10) + y div 100 mod 10) + y div 10 mod 10) + y mod 10 = y"
proof -
  have "y div 100 = y div 10 div 10" "y div 1000 = y div 10 div 10 div 10" by (simp_all add: div_mult2_eq [symmetric])
  moreover have "y div 1000 < 10" using assms by (simp add: less_mult_imp_div_less)
  ultimately show ?thesis by (simp add: mult_div_mod_eq)
qed

lemma show_year_digits:
  assumes "y < 10000"
  shows "length (show_year y) = 4" "list_all is_digit (show_year y)" "digits_val (show_year y) = y"
proof -
  have small: "y div 1000 mod 10 < 10" "y div 100 mod 10 < 10" "y div 10 mod 10 < 10" "y mod 10 < 10" by simp_all
  show "length (show_year y) = 4" by (simp add: show_year_def)
  show "list_all is_digit (show_year y)" by (simp add: show_year_def digit_char)
  show "digits_val (show_year y) = y"
    unfolding show_year_def digits_val_def list.map foldl_Cons foldl_Nil mult_0_right add_0
      digit_char(2) [OF small(1)] digit_char(2) [OF small(2)] digit_char(2) [OF small(3)] digit_char(2) [OF small(4)]
    by (rule year_digits [OF assms])
qed

subsection \<open>Letter case\<close>

lemma lower_digit: "is_digit c \<Longrightarrow> lower_char c = c"
  by (auto simp: lower_char_def is_digit_def is_upper_def)

lemma lower_digits [simp]: "list_all is_digit s \<Longrightarrow> to_lower s = s"
  by (induction s) (simp_all add: lower_digit)

lemma flag_names [simp]:
  "to_lower (flag_name flag) = flag_name flag" "parse_is (flag_name flag) = Some flag" "flag_name flag \<noteq> []"
  by (cases flag; simp add: parse_is_def lower_char_def is_upper_def char_code_def)+

lemma attribute_names [simp]:
  "to_lower (attribute_name attribute) = attribute_name attribute"
  "parse_has (attribute_name attribute) = Some attribute" "attribute_name attribute \<noteq> []"
  by (cases attribute; simp add: parse_has_def lower_char_def is_upper_def char_code_def)+

lemma cmp_names [simp]: "to_lower (show_cmp op) = show_cmp op" "show_cmp op \<noteq> []"
  by (cases op; simp add: show_cmp_def lower_char_def is_upper_def char_code_def)+

subsection \<open>Quoting\<close>

lemma unescape_escape: "backslash \<notin> set s \<Longrightarrow> unescape (escape s) = s"
proof (induction s)
  case (Cons c cs)
  have plain: "unescape (c # rest) = c # unescape rest" if "c \<noteq> backslash" for rest
    using that by (cases rest) simp_all
  show ?case using Cons plain by auto
qed simp

lemma unquote_shown: "backslash \<notin> set s \<Longrightarrow> unquote (show_quoted s) = (s, True)"
  by (simp add: unquote_def show_quoted_def unescape_escape)

lemma unquote_plain_text: "s = [] \<or> hd s \<noteq> quote \<Longrightarrow> unquote s = (s, False)"
  by (cases s) (simp_all add: unquote_def)

text \<open>Characters that neither end the token nor leave its quotes open.\<close>

fun scan :: "bool \<Rightarrow> bool \<Rightarrow> string \<Rightarrow> (bool \<times> bool) option" where
  "scan q e [] = Some (q, e)"
| "scan q e (c # cs) =
     (if e then scan q False cs
      else if c = backslash \<and> q then scan q True cs
      else if c = quote then scan (\<not> q) False cs
      else if is_space c \<and> \<not> q then None
      else scan q False cs)"

lemma scan_append: "scan q e (s @ t) = Option.bind (scan q e s) (\<lambda>(q, e). scan q e t)"
  by (induction s arbitrary: q e) simp_all

lemma tokens_scan: "scan q e s = Some (q', e') \<Longrightarrow> tokens_from cur q e (s @ rest) = tokens_from (cur @ s) q' e' rest"
  by (induction s arbitrary: cur q e) (auto split: if_splits)

lemma scan_escape: "backslash \<notin> set s \<Longrightarrow> scan True False (escape s) = Some (True, False)"
  by (induction s) auto

lemma scan_quoted: "backslash \<notin> set s \<Longrightarrow> scan False False (show_quoted s) = Some (False, False)"
  using scan_escape [of s] by (simp add: show_quoted_def scan_append)

lemma scan_plain: "plain_text s \<Longrightarrow> scan False False s = Some (False, False)"
  by (induction s) (auto simp: plain_text_def)

lemma plain_text_simps [simp]:
  "plain_text []" "plain_text (c # s) \<longleftrightarrow> \<not> is_space c \<and> c \<noteq> quote \<and> plain_text s"
  "plain_text (s @ t) \<longleftrightarrow> plain_text s \<and> plain_text t"
  by (simp_all add: plain_text_def)

lemma plain_digits: "list_all is_digit s \<Longrightarrow> plain_text s"
  by (induction s) (auto simp: is_digit_def is_space_def char_code_def)

lemma plain_flag [simp]: "plain_text (flag_name flag)"
  by (cases flag) (simp_all add: is_space_def char_code_def)

lemma plain_attribute [simp]: "plain_text (attribute_name attribute)"
  by (cases attribute) (simp_all add: is_space_def char_code_def)

lemma plain_field [simp]: "plain_text (field_name f)"
  by (cases f) (simp_all add: is_space_def char_code_def)

lemma plain_signs [simp]: "plain_text (show_cmp op)" "plain_text (sign neg)"
  by (cases op) (simp_all add: show_cmp_def sign_def is_space_def char_code_def)

lemma plain_number [simp]: "plain_text (show_nat n)"
  using show_nat_digits plain_digits by blast

lemma scan_field:
  assumes "plain_text f" and "scan False False v = Some (False, False)"
  shows "scan False False (show_field neg f v) = Some (False, False)"
proof -
  have "show_field neg f v = (sign neg @ f @ '':'') @ v" by (simp add: show_field_def)
  moreover have "plain_text (sign neg @ f @ '':'')" using assms(1) by (simp add: is_space_def char_code_def)
  ultimately show ?thesis
    using assms(2) scan_append [of False False "sign neg @ f @ '':''" v] scan_plain by (simp del: append_assoc)
qed

lemma scan_show_term: "typeable t \<Longrightarrow> scan False False (show_term t) = Some (False, False)"
proof (cases t)
  case (BareTerm neg w)
  then show "typeable t \<Longrightarrow> ?thesis"
    using scan_append [of False False "sign neg"] scan_plain [of "sign neg"] scan_quoted by simp
next
  case (TextTerm neg f v quoted)
  then show "typeable t \<Longrightarrow> ?thesis" using scan_quoted scan_plain by (auto intro!: scan_field)
next
  case (TouchedYear neg year)
  then show "typeable t \<Longrightarrow> ?thesis"
    using show_year_digits(2) plain_digits by (auto intro!: scan_field [OF _ scan_plain] simp: is_space_def char_code_def)
qed (auto intro!: scan_field [OF _ scan_plain] simp: is_space_def char_code_def)

lemma show_term_ne: "show_term t \<noteq> []"
  by (cases t) (simp_all add: show_quoted_def show_field_def)

lemma tokenize_shown: "list_all typeable ts \<Longrightarrow> tokenize (show_query ts) = map show_term ts"
proof (induction ts rule: induct_list012)
  case (2 t)
  then show ?case
    using tokens_scan [OF scan_show_term, of t "[]" "[]"] show_term_ne [of t]
    by (simp add: tokenize_def show_query_def)
next
  case (3 t u ts)
  have "tokens_from [] False False (show_term t @ '' '' @ show_query (u # ts))
      = show_term t # tokens_from [] False False (show_query (u # ts))"
    using 3 tokens_scan [OF scan_show_term, of t "[]" "'' '' @ show_query (u # ts)"] show_term_ne [of t]
    by (simp add: is_space_def char_code_def)
  then show ?case using 3 by (simp add: tokenize_def show_query_def)
qed (simp add: tokenize_def show_query_def)

subsection \<open>Reading a shown term\<close>

lemma split_once_plain: "c \<notin> set a \<Longrightarrow> split_once c (a @ c # b) = Some (a, b)"
  by (induction a) auto

lemma parse_shown_field:
  assumes "field \<in> set FIELDS" and "unquote v = (raw, quoted)" and "parse_field_term field raw quoted neg = Some t"
  shows "parse_token (show_field neg field v) = Some (Inl t)"
proof -
  have f: "field \<noteq> []" "CHR '':'' \<notin> set field" "to_lower field = field" "hd field \<noteq> CHR ''-''"
    using assms(1) by (auto simp: FIELDS_def lower_char_def is_upper_def char_code_def)
  let ?token = "show_field neg field v"
  have "(if starts_with ''-'' ?token then drop 1 ?token else ?token) = field @ CHR '':'' # v"
    "starts_with ''-'' ?token = neg"
    using f(1,4) by (cases field; cases neg; simp add: show_field_def sign_def starts_with_def)+
  then show ?thesis
    using f assms split_once_plain [OF f(2), of v] by (simp add: parse_token_def Let_def)
qed

lemma parse_shown_bare:
  assumes "backslash \<notin> set text" and "to_lower text = text"
  shows "parse_token (sign neg @ show_quoted text) = Some (Inl (BareTerm neg text))"
proof -
  let ?token = "sign neg @ show_quoted text"
  have body: "(if neg then drop 1 ?token else ?token) = show_quoted text"
    "starts_with ''-'' ?token = neg"
    by (cases neg; simp add: sign_def starts_with_def show_quoted_def)+
  have bare: "bare_term neg (show_quoted text) = BareTerm neg text"
    using assms by (simp add: bare_term_def unquote_shown)
  have "to_lower before \<notin> set FIELDS \<and> \<not> is_field_shaped before \<and> before \<noteq> []"
    if split: "split_once (CHR '':'') (show_quoted text) = Some (before, rest)" for before rest
  proof -
    obtain tail where "before = quote # tail"
      using split by (auto simp: show_quoted_def)
    then show ?thesis by (auto simp: FIELDS_def is_field_shaped_def is_alpha_def is_lower_def is_upper_def char_code_def lower_char_def)
  qed
  moreover have "show_quoted text \<noteq> []" by (simp add: show_quoted_def)
  ultimately show ?thesis
    unfolding parse_token_def Let_def body(2) body(1)
    by (cases "split_once (CHR '':'') (show_quoted text)") (auto simp: bare)
qed

lemma parse_plain_field:
  assumes "plain_text v" and "field \<in> set FIELDS" and "parse_field_term field v False neg = Some t"
  shows "parse_token (show_field neg field v) = Some (Inl t)"
  using assms(1) by (intro parse_shown_field [OF assms(2) _ assms(3)] unquote_plain_text) (cases v; simp)

lemma field_terms:
  assumes "v \<noteq> []" and "to_lower v = v"
  shows "parse_field_term ''is'' v False neg = map_option (FlagTerm neg) (parse_is v)"
    "parse_field_term ''has'' v False neg = map_option (HasTerm neg) (parse_has v)"
    "parse_field_term ''size'' v False neg = parse_size neg v"
    "parse_field_term ''touched'' v False neg = parse_touched neg v"
    "parse_field_term ''completion'' v False neg = parse_completion neg v"
  using assms by (simp_all add: parse_field_term_def text_field_of_def)

lemma parse_shown_size:
  assumes "1024 dvd bytes" and "bytes \<le> u64_max"
  shows "parse_size neg (show_cmp op @ show_nat (bytes div 1024) @ ''kb'') = Some (SizeTerm neg op bytes)"
proof -
  have "bytes div 1024 * 1024 = bytes" "bytes div 1024 \<le> u64_max" using assms by auto
  then show ?thesis
    using split_shown [of "''kb''" "bytes div 1024" op] assms(2)
    by (simp add: parse_size_def size_scale_def checked_mul_def is_lower_def char_code_def)
qed

lemma parse_shown_age:
  assumes "days \<le> u32_max"
  shows "parse_touched neg (show_cmp op @ show_nat days @ ''d'') = Some (TouchedAge neg op days)"
proof -
  have "\<not> list_all is_digit (show_cmp op @ show_nat days @ ''d'')"
    by (cases op) (simp_all add: show_cmp_def is_digit_def char_code_def)
  then show ?thesis
    using split_shown [of "''d''" days op] assms
    by (simp add: parse_touched_def age_scale_def checked_mul_def is_lower_def char_code_def)
qed

lemma parse_shown_completion:
  assumes "n \<le> u32_max"
  shows "parse_completion neg (show_cmp op @ show_nat n) = Some (CompletionTerm neg op n)"
  using assms show_nat_digits [of n]
  by (cases op) (simp_all add: parse_completion_def show_cmp_def parse_cmp_def parse_shown)

lemma parse_shown_term: "typeable t \<Longrightarrow> parse_token (show_term t) = Some (Inl t)"
proof (cases t)
  case (BareTerm neg w)
  then show "typeable t \<Longrightarrow> ?thesis" using parse_shown_bare by simp
next
  case (TextTerm neg f v quoted)
  have f: "text_field_of (field_name f) = Some f" "field_name f \<in> set FIELDS"
    by (cases f; simp add: text_field_of_def FIELDS_def)+
  assume "typeable t"
  then show ?thesis
    using TextTerm f unquote_shown [of v] unquote_plain_text [of v]
    by (auto intro!: parse_shown_field simp: parse_field_term_def split: if_splits)
next
  case (TouchedYear neg year)
  assume "typeable t"
  then have year: "year < 10000" using TouchedYear by simp
  have "show_year year \<noteq> []" by (simp add: show_year_def)
  moreover from this have "parse_touched neg (show_year year) = Some t"
    using show_year_digits [OF year] year TouchedYear by (simp add: parse_touched_def parse_unsigned_digits)
  ultimately show ?thesis
    using TouchedYear show_year_digits [OF year]
    by (simp add: parse_plain_field field_terms plain_digits FIELDS_def)
qed (auto intro!: parse_plain_field
       simp: field_terms FIELDS_def parse_shown_size parse_shown_age parse_shown_completion
         show_nat_digits lower_char_def is_upper_def is_space_def char_code_def)

text \<open>
  C27: Every query can be typed. For every list of well-formed terms (no backslash inside quotes,
  no blank or quote outside them) there is a text, each term written as a user would with blanks
  between, that parses to exactly those terms in that order and ignores nothing: quoting carries
  any text, fields read back what they name, and numbers read back exactly.
\<close>

theorem typed_queries_round_trip:
  assumes "list_all typeable ts"
  shows "parse_query (show_query ts)
       = \<lparr>qa_version = QUERY_GRAMMAR_VERSION, qa_terms = ts, qa_ignored = []\<rparr>"
proof -
  have "List.map_filter parse_token (map show_term ts) = map Inl ts"
    using assms parse_shown_term by (induction ts) simp_all
  moreover have "lefts (map Inl ts) = ts" "rights (map Inl ts :: (query_term + ignored_term) list) = []"
    by (induction ts) (simp_all add: lefts_def rights_def)
  ultimately show ?thesis
    using tokenize_shown [OF assms] by (simp add: parse_query_def fold_add_token)
qed

theorem typed_queries_round_trip_witness:
  "parse_query (show_query [BareTerm True ''a\"b c'', TextTerm False FIn ''C:/Work x'' True, SizeTerm False Gt 10240,
       TouchedYear True 2019, FlagTerm False Dirty])
   = \<lparr>qa_version = 3, qa_terms = [BareTerm True ''a\"b c'', TextTerm False FIn ''C:/Work x'' True,
       SizeTerm False Gt 10240, TouchedYear True 2019, FlagTerm False Dirty], qa_ignored = []\<rparr>"
proof -
  let ?ts = "[BareTerm True ''a\"b c'', TextTerm False FIn ''C:/Work x'' True, SizeTerm False Gt 10240,
       TouchedYear True 2019, FlagTerm False Dirty]"
  have "list_all typeable ?ts" by (simp add: lower_char_def is_upper_def char_code_def)
  from typed_queries_round_trip [OF this] show ?thesis by (simp add: QUERY_GRAMMAR_VERSION_def)
qed

end
