(* ===== verification/Project_Tables.thy ===== *)
theory Project_Tables
  imports Job_Model Calendar "HOL-Library.Product_Lexorder" "HOL-Library.Option_ord"
begin

text \<open>
  The index as the project code reads it: the vocabularies of the stored columns (generated from
  \<open>protocol.json\<close>), the columns of a project, a copy, a check, a debt item and a sweep, and
  the database as the lists and maps of their rows. A column that may be NULL is an \<open>option\<close>.
  The text columns a reader decodes with an error of its own keep their stored spelling; the
  others hold the values their CHECK admits.
\<close>

section \<open>Stored vocabularies\<close>

datatype location_kind = KWin | KLinux | KWsl

fun kind_str :: "location_kind \<Rightarrow> string" where
  "kind_str KWin = ''win''"
| "kind_str KLinux = ''linux''"
| "kind_str KWsl = ''wsl''"

definition parse_kind :: "string \<Rightarrow> location_kind option" where
  "parse_kind raw =
     (if raw = ''win'' then Some KWin
      else if raw = ''linux'' then Some KLinux
      else if raw = ''wsl'' then Some KWsl
      else None)"

text \<open>\<open>cfg!(windows)\<close> is the platform of the build, a parameter.\<close>

definition is_native :: "bool \<Rightarrow> location_kind \<Rightarrow> bool" where
  "is_native windows k = (if windows then k = KWin else k = KLinux)"

datatype presence = PPresent | POffline | PMissing | PUnscanned

fun presence_str :: "presence \<Rightarrow> string" where
  "presence_str PPresent = ''present''"
| "presence_str POffline = ''offline''"
| "presence_str PMissing = ''missing''"
| "presence_str PUnscanned = ''unscanned''"

datatype interrupted_op = OpMerge | OpRebase | OpCherryPick | OpRevert | OpBisect | OpAm

fun op_str :: "interrupted_op \<Rightarrow> string" where
  "op_str OpMerge = ''merge''"
| "op_str OpRebase = ''rebase''"
| "op_str OpCherryPick = ''cherry_pick''"
| "op_str OpRevert = ''revert''"
| "op_str OpBisect = ''bisect''"
| "op_str OpAm = ''am''"

datatype art_state = ArtPending | ArtReady | ArtFailed | ArtStale

fun art_str :: "art_state \<Rightarrow> string" where
  "art_str ArtPending = ''pending''"
| "art_str ArtReady = ''ready''"
| "art_str ArtFailed = ''failed''"
| "art_str ArtStale = ''stale''"

datatype condition = CLive | CIdle | CDormant | CNeglected | CAbandoned | COffline | CEmpty

fun condition_slug :: "condition \<Rightarrow> string" where
  "condition_slug CLive = ''live''"
| "condition_slug CIdle = ''idle''"
| "condition_slug CDormant = ''dormant''"
| "condition_slug CNeglected = ''neglected''"
| "condition_slug CAbandoned = ''abandoned''"
| "condition_slug COffline = ''offline''"
| "condition_slug CEmpty = ''empty''"

definition ALL_CONDITIONS :: "condition list" where
  "ALL_CONDITIONS = [CLive, CIdle, CDormant, CNeglected, CAbandoned, COffline, CEmpty]"

definition condition_from_slug :: "string \<Rightarrow> condition option" where
  "condition_from_slug s = find (\<lambda>c. condition_slug c = s) ALL_CONDITIONS"

datatype description_source = SrcManifest | SrcReadme | SrcNote | SrcDetected | SrcRemote

fun source_slug :: "description_source \<Rightarrow> string" where
  "source_slug SrcManifest = ''manifest''"
| "source_slug SrcReadme = ''readme''"
| "source_slug SrcNote = ''note''"
| "source_slug SrcDetected = ''detected''"
| "source_slug SrcRemote = ''remote''"

text \<open>The error codes of the protocol, by their wire names.\<close>

definition ERROR_CODES :: "string list" where
  "ERROR_CODES = [''CORE_RESTARTED'', ''GIT_MISSING'', ''GIT_TOO_OLD'', ''REPO_UNREADABLE'',
     ''PERMISSION_DENIED'', ''PATH_GONE'', ''STORE_OFFLINE'', ''BUDGET_EXCEEDED'',
     ''UNTRUSTED_REPO'', ''PROJECT_MERGED'', ''PROTOCOL'', ''INTERNAL'', ''TOKEN_INVALID'',
     ''SSO_REQUIRED'']"

datatype presence_state = SPresent | SAbsent | SNotRead

fun presence_slug :: "presence_state \<Rightarrow> string" where
  "presence_slug SPresent = ''present''"
| "presence_slug SAbsent = ''absent''"
| "presence_slug SNotRead = ''not_read''"

definition presence_from_slug :: "string \<Rightarrow> presence_state option" where
  "presence_from_slug s =
     (if s = ''present'' then Some SPresent
      else if s = ''absent'' then Some SAbsent
      else if s = ''not_read'' then Some SNotRead
      else None)"

record presence_answers =
  pa_readme :: presence_state
  pa_license :: presence_state
  pa_tests :: presence_state
  pa_ci :: presence_state

text \<open>The health summary a row carries (\<open>HealthSummary\<close>), and the lifecycle beside it.\<close>

datatype health_state = HAbsent | HSuppressed | HFrozen | HLive

record health_summary =
  hs_state :: health_state
  hs_scored_open :: "nat option"
  hs_unverified :: "nat option"
  hs_unknown_checks :: "nat option"
  hs_observed_at :: "int option"

datatype lifecycle = LcActive | LcDone | LcArchived

text \<open>The ten completion checks and the nine debt sources, in declaration order.\<close>

datatype completion_check =
    CkRemote | CkReadme | CkLicense | CkDescription | CkTests | CkCi | CkCiGreen | CkPushed
  | CkDeps | CkRelease

definition ALL_CHECKS :: "completion_check list" where
  "ALL_CHECKS = [CkRemote, CkReadme, CkLicense, CkDescription, CkTests, CkCi, CkCiGreen, CkPushed,
     CkDeps, CkRelease]"

datatype check_state = StPass | StFail | StUnknown | StNa

datatype unknown_reason =
    NeedsAccount | NotSynced | NotRead | NotObserved | NotRunYet | Unreachable

datatype debt_source =
    TodoMarker | MissingReadme | MissingLicense | MissingTests | NoRelease | UnpushedCommits
  | CiRed | DependencyAdvisory | AbandonedWithDebt

definition ALL_SOURCES :: "debt_source list" where
  "ALL_SOURCES = [TodoMarker, MissingReadme, MissingLicense, MissingTests, NoRelease,
     UnpushedCommits, CiRed, DependencyAdvisory, AbandonedWithDebt]"

fun debt_slug :: "debt_source \<Rightarrow> string" where
  "debt_slug TodoMarker = ''todo_marker''"
| "debt_slug MissingReadme = ''missing_readme''"
| "debt_slug MissingLicense = ''missing_license''"
| "debt_slug MissingTests = ''missing_tests''"
| "debt_slug NoRelease = ''no_release''"
| "debt_slug UnpushedCommits = ''unpushed_commits''"
| "debt_slug CiRed = ''ci_red''"
| "debt_slug DependencyAdvisory = ''dependency_advisory''"
| "debt_slug AbandonedWithDebt = ''abandoned_with_debt''"

datatype sweep_outcome =
    SwComplete | SwPartial | SwFailed | SwUnobservable | SwSkippedReference | SwSkippedSuppressed

datatype item_state = ItemOpen | ItemUnverified
datatype scoring = Scored | ShownOnly
datatype basis = BHead | BIndex | BWorktree | BRefs | BRemote

section \<open>Stored rows\<close>

record location_cols =
  lc_id :: int
  lc_project :: int
  lc_kind :: string
  lc_distro :: string
  lc_path_display :: string
  lc_presence :: string
  lc_branch :: "string option"
  lc_is_dirty :: "int option"
  lc_untracked_count :: "int option"
  lc_ahead :: "int option"
  lc_behind :: "int option"
  lc_stash_count :: "int option"
  lc_interrupted_op :: "string option"
  lc_head_oid :: "string option"
  lc_trusted_at :: "int option"
  lc_fetch_head_at :: "int option"
  lc_refstate_observed_at :: "int option"
  lc_worktree_observed_at :: "int option"
  lc_worktree_newest_mtime :: "int option"
  lc_reflog_tail_at :: "int option"
  lc_last_seen_at :: "int option"
  lc_removed_at :: "int option"
  lc_path_key :: "nat list"
  lc_tag_count :: "int option"

record project_cols =
  pc_id :: int
  pc_name :: string
  pc_owner :: "string option"
  pc_description :: "string option"
  pc_description_source :: "string option"
  pc_primary_language :: "string option"
  pc_archetype :: "string option"
  pc_art_scene_hash :: "string option"
  pc_art_state :: string
  pc_condition_signal :: "string option"
  pc_condition_material :: "string option"
  pc_completion_lit :: "int option"
  pc_completion_applicable :: "int option"
  pc_is_pinned :: int
  pc_is_archived :: int
  pc_is_hidden :: int
  pc_is_reference :: int
  pc_is_fork :: int
  pc_is_bare :: int
  pc_is_shallow :: int
  pc_submodule_path :: "string option"
  pc_ambiguous_lineage :: int
  pc_last_touched_at :: "int option"
  pc_last_interaction_at :: "int option"
  pc_last_commit_at :: "int option"
  pc_last_user_commit_at :: "int option"
  pc_last_commit_subject :: "string option"
  pc_first_commit_at :: "int option"
  pc_first_commit_tz_offset_min :: "int option"
  pc_created_at :: int
  pc_updated_at :: int
  pc_acknowledged_at :: "int option"
  pc_size_tracked_bytes :: "int option"
  pc_tracked_files :: "int option"
  pc_error_kind :: "string option"
  pc_error_at :: "int option"
  pc_authored_by_user :: "int option"
  pc_remote_key :: "string option"
  pc_seed_basename :: string
  pc_reroll_offset :: int
  pc_merged_into :: "int option"
  pc_removed_at :: "int option"
  pc_lineage_key :: "string option"

record check_row =
  ck_key :: completion_check
  ck_state :: check_state
  ck_user_na :: "bool option"
  ck_reason :: "unknown_reason option"
  ck_observed_at :: int

text \<open>\<open>(subject_key, source, fingerprint)\<close>: a debt item's identity.\<close>

record debt_key =
  dk_subject :: string
  dk_source :: debt_source
  dk_fingerprint :: string

text \<open>What a producer attaches to an item: where it was, none of which a closure reads.\<close>

record item_place =
  ip_path_bytes :: "nat list option"
  ip_path_display :: "string option"
  ip_line :: "nat option"
  ip_column :: "nat option"
  ip_salient :: "string option"

record debt_row =
  di_id :: int
  di_project :: int
  di_key :: debt_key
  di_state :: item_state
  di_scoring :: scoring
  di_location :: "int option"
  di_basis :: "basis option"
  di_place :: item_place
  di_first_seen :: int
  di_last_seen :: int

record sweep_row =
  sw_outcome :: sweep_outcome
  sw_location :: "int option"
  sw_generation :: "int option"
  sw_basis :: "basis option"
  sw_item_count :: "nat option"
  sw_observed_at :: int

text \<open>
  The tables. \<open>db_peek\<close> holds when the peek was computed and its readme excerpt,
  \<open>db_scans\<close> the four answers of a content scan, \<open>db_sessions\<close> a project and when its
  session ended, \<open>db_meta\<close> the settings, \<open>db_next_item\<close> the autoincrement of the items.
\<close>

record index_db =
  db_projects :: "project_cols list"
  db_locations :: "location_cols list"
  db_members :: "(int \<times> int) list"
  db_submodule_parents :: "int list"
  db_peek :: "int \<Rightarrow> (int \<times> string option) option"
  db_scans :: "int \<Rightarrow> (string \<times> string \<times> string \<times> string) option"
  db_sessions :: "(int \<times> int option) list"
  db_jobs :: job_table
  db_checks :: "int \<Rightarrow> completion_check \<Rightarrow> check_row option"
  db_sweeps :: "int \<Rightarrow> debt_source \<Rightarrow> sweep_row option"
  db_items :: "debt_row list"
  db_next_item :: int
  db_meta :: "string \<Rightarrow> string option"
  db_accounts :: nat

text \<open>Primary keys.\<close>

definition keyed :: "index_db \<Rightarrow> bool" where
  "keyed db \<longleftrightarrow> distinct (map pc_id (db_projects db)) \<and> distinct (map lc_id (db_locations db))"

definition project_of :: "index_db \<Rightarrow> int \<Rightarrow> project_cols option" where
  "project_of db p = find (\<lambda>c. pc_id c = p) (db_projects db)"

definition locations_for :: "index_db \<Rightarrow> int \<Rightarrow> location_cols list" where
  "locations_for db p = filter (\<lambda>l. lc_project l = p) (db_locations db)"

text \<open>\<open>UPDATE project SET \<dots> WHERE id\<close>.\<close>

definition update_project ::
  "int \<Rightarrow> (project_cols \<Rightarrow> project_cols) \<Rightarrow> index_db \<Rightarrow> index_db" where
  "update_project p f db =
     db\<lparr>db_projects := map (\<lambda>c. if pc_id c = p then f c else c) (db_projects db)\<rparr>"

definition max_opt :: "int option \<Rightarrow> int option \<Rightarrow> int option" where
  "max_opt a b =
     (case (a, b) of
        (Some x, Some y) \<Rightarrow> Some (max x y)
      | (Some x, None) \<Rightarrow> Some x
      | (None, Some x) \<Rightarrow> Some x
      | (None, None) \<Rightarrow> None)"

text \<open>\<open>u32::try_from(\<dots>).ok()\<close>.\<close>

definition u32_try :: "int \<Rightarrow> nat option" where
  "u32_try n = (if 0 \<le> n \<and> n \<le> 4294967295 then Some (nat n) else None)"

text \<open>\<open>Iterator::max_by_key\<close> and \<open>max_by\<close>: the last of the greatest.\<close>

definition max_by_key :: "('a \<Rightarrow> 'k::linorder) \<Rightarrow> 'a list \<Rightarrow> 'a option" where
  "max_by_key f xs =
     foldl (\<lambda>acc x. case acc of None \<Rightarrow> Some x | Some m \<Rightarrow> if f m \<le> f x then Some x else Some m) None xs"

section \<open>Lemmas\<close>

lemma max_by_key_snoc [simp]:
  "max_by_key f [] = None"
  "max_by_key f (xs @ [x]) =
     (case max_by_key f xs of None \<Rightarrow> Some x | Some m \<Rightarrow> if f m \<le> f x then Some x else Some m)"
  by (simp_all add: max_by_key_def)

lemma max_by_key_None [simp]: "max_by_key f xs = None \<longleftrightarrow> xs = []"
  by (cases xs rule: rev_cases) (auto split: option.splits)

lemma max_by_key_Some:
  "max_by_key f xs = Some m \<Longrightarrow> m \<in> set xs \<and> (\<forall>x \<in> set xs. f x \<le> f m)"
proof (induction xs arbitrary: m rule: rev_induct)
  case (snoc x xs)
  then show ?case by (fastforce split: option.splits if_splits)
qed simp

text \<open>With keys that tell the elements apart the order of the elements does not matter.\<close>

lemma max_by_key_unique:
  assumes "inj_on f (set xs)" and "m \<in> set xs" and "\<forall>x \<in> set xs. f x \<le> f m"
  shows "max_by_key f xs = Some m"
proof (cases "max_by_key f xs")
  case None
  then show ?thesis using assms(2) by auto
next
  case (Some m')
  note max_by_key_Some [OF this]
  then have "f m' = f m" using assms(2,3) by (auto intro: antisym)
  then show ?thesis using Some \<open>m' \<in> set xs \<and> _\<close> assms(1,2) by (auto dest: inj_onD)
qed

lemma max_by_key_cong_set:
  assumes "inj_on f (set xs)" and "set ys = set xs"
  shows "max_by_key f ys = max_by_key f xs"
proof (cases "max_by_key f xs")
  case None
  then show ?thesis using assms(2) by simp
next
  case (Some m)
  then show ?thesis using max_by_key_Some [OF Some] assms by (auto intro!: max_by_key_unique)
qed

lemma condition_slug_inj: "condition_slug a = condition_slug b \<longleftrightarrow> a = b"
  by (cases a; cases b) simp_all

lemma condition_from_slug_of [simp]: "condition_from_slug (condition_slug c) = Some c"
  by (cases c) (simp_all add: condition_from_slug_def ALL_CONDITIONS_def)

lemma project_of_id: "project_of db p = Some c \<Longrightarrow> pc_id c = p \<and> c \<in> set (db_projects db)"
  by (auto simp: project_of_def find_Some_iff)

lemma project_of_update:
  assumes "\<And>c. pc_id (f c) = pc_id c"
  shows "project_of (update_project p f db) q = map_option (\<lambda>c. if q = p then f c else c) (project_of db q)"
proof -
  have "find (\<lambda>c. pc_id c = q) (map (\<lambda>c. if pc_id c = p then f c else c) cs)
      = map_option (\<lambda>c. if q = p then f c else c) (find (\<lambda>c. pc_id c = q) cs)" for cs
    using assms by (induction cs) auto
  then show ?thesis by (simp add: project_of_def update_project_def)
qed

lemma update_project_other [simp]:
  "db_locations (update_project p f db) = db_locations db"
  "db_members (update_project p f db) = db_members db"
  "db_submodule_parents (update_project p f db) = db_submodule_parents db"
  "db_peek (update_project p f db) = db_peek db"
  "db_scans (update_project p f db) = db_scans db"
  "db_sessions (update_project p f db) = db_sessions db"
  "db_jobs (update_project p f db) = db_jobs db"
  "db_checks (update_project p f db) = db_checks db"
  "db_sweeps (update_project p f db) = db_sweeps db"
  "db_items (update_project p f db) = db_items db"
  "db_next_item (update_project p f db) = db_next_item db"
  "db_meta (update_project p f db) = db_meta db"
  "db_accounts (update_project p f db) = db_accounts db"
  "locations_for (update_project p f db) q = locations_for db q"
  by (simp_all add: update_project_def locations_for_def)

lemma max_opt_mono: "max_opt a b = max a b"
  by (cases a; cases b) (auto simp: max_opt_def max_def less_eq_option_def)

section \<open>A small index\<close>

text \<open>One project with two copies, the instance the examples of the theories above use.\<close>

definition blank_project :: project_cols where
  "blank_project =
     \<lparr>pc_id = 1, pc_name = ''p'', pc_owner = None, pc_description = None,
      pc_description_source = None, pc_primary_language = None, pc_archetype = None,
      pc_art_scene_hash = None, pc_art_state = ''pending'', pc_condition_signal = None,
      pc_condition_material = None, pc_completion_lit = None, pc_completion_applicable = None,
      pc_is_pinned = 0, pc_is_archived = 0, pc_is_hidden = 0, pc_is_reference = 0, pc_is_fork = 0,
      pc_is_bare = 0, pc_is_shallow = 0, pc_submodule_path = None, pc_ambiguous_lineage = 0,
      pc_last_touched_at = None, pc_last_interaction_at = None, pc_last_commit_at = None,
      pc_last_user_commit_at = None, pc_last_commit_subject = None, pc_first_commit_at = None,
      pc_first_commit_tz_offset_min = None, pc_created_at = 1, pc_updated_at = 1,
      pc_acknowledged_at = None, pc_size_tracked_bytes = None, pc_tracked_files = None,
      pc_error_kind = None, pc_error_at = None, pc_authored_by_user = None, pc_remote_key = None,
      pc_seed_basename = ''p'', pc_reroll_offset = 0, pc_merged_into = None, pc_removed_at = None,
      pc_lineage_key = None\<rparr>"

definition blank_location :: location_cols where
  "blank_location =
     \<lparr>lc_id = 1, lc_project = 1, lc_kind = ''linux'', lc_distro = [], lc_path_display = ''/p'',
      lc_presence = ''present'', lc_branch = None, lc_is_dirty = None, lc_untracked_count = None,
      lc_ahead = None, lc_behind = None, lc_stash_count = None, lc_interrupted_op = None,
      lc_head_oid = None, lc_trusted_at = None, lc_fetch_head_at = None,
      lc_refstate_observed_at = None, lc_worktree_observed_at = None,
      lc_worktree_newest_mtime = None, lc_reflog_tail_at = None, lc_last_seen_at = None,
      lc_removed_at = None, lc_path_key = [47, 112], lc_tag_count = None\<rparr>"

definition small_db :: index_db where
  "small_db =
     \<lparr>db_projects = [blank_project],
      db_locations = [blank_location\<lparr>lc_is_dirty := Some 1, lc_worktree_newest_mtime := Some 900000\<rparr>,
                      blank_location\<lparr>lc_id := 2, lc_kind := ''wsl'', lc_worktree_newest_mtime := Some 5\<rparr>],
      db_members = [], db_submodule_parents = [], db_peek = (\<lambda>_. None), db_scans = (\<lambda>_. None),
      db_sessions = [(1, Some 4), (1, None)],
      db_jobs = (\<lambda>k. if k = (1, J1Refstate) then Some (fresh_row J1Refstate Done 1) else None),
      db_checks = (\<lambda>_ _. None), db_sweeps = (\<lambda>_ _. None), db_items = [], db_next_item = 1,
      db_meta = (\<lambda>_. None), db_accounts = 0\<rparr>"

end
