(* ===== verification/Completion.thy ===== *)
theory Completion
  imports Project_Tables
begin

text \<open>
  The ten completion checks (\<open>completion/evaluate.rs\<close>, \<open>completion/proposal.rs\<close>,
  \<open>completion/mod.rs\<close>, \<open>completion/store.rs\<close>, \<open>index/completion.rs\<close>): the pure evaluator
  from shaped inputs to ten rows, the not-applicable gate, the counts, and the write of the rows
  with the projection the shelf reads. The gathering of the inputs from the tables of the other
  components is a parameter of the write; the ledger's latch and the restore of rulings from a
  sidecar are not modelled.
\<close>

section \<open>Inputs\<close>

record singleton_reading =
  sg_source :: debt_source
  sg_outcome :: "sweep_outcome option"
  sg_open_items :: nat

datatype dependency_verdict = VerdictClean | VerdictVulnerable | VerdictUnknown

record deps_reading =
  dr_verdict :: dependency_verdict
  dr_scored_open :: nat
  dr_lockfile_not_read :: bool

datatype facts_state = FactsNoAccount | FactsNotObserved | FactsNotPermitted | FactsObserved

record completion_inputs =
  ci_readme :: singleton_reading
  ci_license :: singleton_reading
  ci_tests :: singleton_reading
  ci_ci_red :: singleton_reading
  ci_pushed :: singleton_reading
  ci_release :: singleton_reading
  ci_has_ci :: "presence_state option"
  ci_remote_configured :: "bool option"
  ci_account_connected :: bool
  ci_facts_state :: facts_state
  ci_has_remote :: bool
  ci_forge_description :: "string option"
  ci_topic_count :: nat
  ci_deps :: deps_reading
  ci_archetype :: "string option"
  ci_user_na :: "completion_check \<Rightarrow> bool option"

section \<open>The not-applicable gate\<close>

definition proposes_na :: "string option \<Rightarrow> completion_check \<Rightarrow> bool" where
  "proposes_na archetype key =
     (case archetype of
        None \<Rightarrow> False
      | Some a \<Rightarrow>
          (if \<not> (a = ''docs'' \<or> a = ''config'') then False
           else key = CkTests \<or> key = CkCi \<or> key = CkDeps \<or> key = CkRelease))"

fun suppressed_source :: "completion_check \<Rightarrow> debt_source option" where
  "suppressed_source CkReadme = Some MissingReadme"
| "suppressed_source CkLicense = Some MissingLicense"
| "suppressed_source CkTests = Some MissingTests"
| "suppressed_source CkPushed = Some UnpushedCommits"
| "suppressed_source CkCiGreen = Some CiRed"
| "suppressed_source CkRelease = Some NoRelease"
| "suppressed_source CkDeps = Some DependencyAdvisory"
| "suppressed_source CkRemote = None"
| "suppressed_source CkDescription = None"
| "suppressed_source CkCi = None"

definition is_na :: "completion_check \<Rightarrow> bool option \<Rightarrow> string option \<Rightarrow> bool" where
  "is_na key user_na archetype =
     (case user_na of
        Some True \<Rightarrow> True
      | Some False \<Rightarrow> False
      | None \<Rightarrow> proposes_na archetype key)"

definition source_not_applicable ::
  "debt_source \<Rightarrow> string option \<Rightarrow> (completion_check \<Rightarrow> bool option) \<Rightarrow> bool" where
  "source_not_applicable source archetype user_na =
     list_ex (\<lambda>key. suppressed_source key = Some source \<and> is_na key (user_na key) archetype) ALL_CHECKS"

section \<open>The evaluator\<close>

type_synonym verdict = "check_state \<times> unknown_reason option"

abbreviation plain :: "check_state \<Rightarrow> verdict" where "plain s \<equiv> (s, None)"
abbreviation unknown :: "unknown_reason \<Rightarrow> verdict" where "unknown r \<equiv> (StUnknown, Some r)"

definition check_reason :: "completion_check \<Rightarrow> bool \<Rightarrow> unknown_reason" where
  "check_reason key account_connected =
     (case key of
        CkReadme \<Rightarrow> NotRead
      | CkLicense \<Rightarrow> NotRead
      | CkTests \<Rightarrow> NotRead
      | CkCiGreen \<Rightarrow> (if account_connected then NotSynced else NeedsAccount)
      | _ \<Rightarrow> NotObserved)"

definition from_singleton :: "completion_check \<Rightarrow> singleton_reading \<Rightarrow> bool \<Rightarrow> verdict" where
  "from_singleton key reading account_connected =
     (if sg_open_items reading \<ge> 1 then plain StFail
      else case sg_outcome reading of
        None \<Rightarrow> unknown NotRunYet
      | Some SwSkippedSuppressed \<Rightarrow> unknown NotRunYet
      | Some SwPartial \<Rightarrow> unknown NotRunYet
      | Some SwSkippedReference \<Rightarrow> unknown NotRunYet
      | Some SwUnobservable \<Rightarrow> unknown (check_reason key account_connected)
      | Some SwFailed \<Rightarrow> unknown (check_reason key account_connected)
      | Some SwComplete \<Rightarrow> plain StPass)"

fun from_presence :: "presence_state option \<Rightarrow> verdict" where
  "from_presence (Some SPresent) = plain StPass"
| "from_presence (Some SAbsent) = plain StFail"
| "from_presence (Some SNotRead) = unknown NotRead"
| "from_presence None = unknown NotRunYet"

fun from_remote :: "bool option \<Rightarrow> verdict" where
  "from_remote (Some True) = plain StPass"
| "from_remote (Some False) = plain StFail"
| "from_remote None = unknown NotObserved"

definition from_description :: "completion_inputs \<Rightarrow> verdict" where
  "from_description i =
     (case ci_facts_state i of
        FactsNoAccount \<Rightarrow> unknown NeedsAccount
      | FactsNotPermitted \<Rightarrow> unknown NotSynced
      | FactsNotObserved \<Rightarrow> unknown NotSynced
      | FactsObserved \<Rightarrow>
          (let described = (case ci_forge_description i of None \<Rightarrow> False | Some d \<Rightarrow> trim d \<noteq> [])
           in if described \<and> ci_topic_count i \<ge> 1 then plain StPass else plain StFail))"

definition from_deps :: "deps_reading \<Rightarrow> verdict" where
  "from_deps d =
     (if dr_scored_open d \<ge> 1 then plain StFail
      else case dr_verdict d of
        VerdictClean \<Rightarrow> plain StPass
      | VerdictVulnerable \<Rightarrow> plain StPass
      | VerdictUnknown \<Rightarrow> (if dr_lockfile_not_read d then unknown NotRead else unknown NotSynced))"

definition evaluate_key :: "completion_inputs \<Rightarrow> completion_check \<Rightarrow> verdict" where
  "evaluate_key i key =
     (let archetype = ci_archetype i; account = ci_account_connected i; ci = from_presence (ci_has_ci i)
      in case key of
           CkReadme \<Rightarrow> from_singleton key (ci_readme i) account
         | CkLicense \<Rightarrow> from_singleton key (ci_license i) account
         | CkTests \<Rightarrow> from_singleton key (ci_tests i) account
         | CkPushed \<Rightarrow> from_singleton key (ci_pushed i) account
         | CkRelease \<Rightarrow> from_singleton key (ci_release i) account
         | CkCiGreen \<Rightarrow>
             (if is_na CkCi (ci_user_na i CkCi) archetype \<or> fst ci = StFail then plain StNa
              else from_singleton key (ci_ci_red i) account)
         | CkRemote \<Rightarrow> from_remote (ci_remote_configured i)
         | CkDescription \<Rightarrow> (if ci_has_remote i then from_description i else plain StNa)
         | CkCi \<Rightarrow> ci
         | CkDeps \<Rightarrow> from_deps (ci_deps i))"

definition check_row_of :: "completion_inputs \<Rightarrow> int \<Rightarrow> completion_check \<Rightarrow> check_row" where
  "check_row_of i now key =
     (let user_na = ci_user_na i key;
          (state, reason) =
            (if is_na key user_na (ci_archetype i) then plain StNa else evaluate_key i key)
      in \<lparr>ck_key = key, ck_state = state, ck_user_na = user_na, ck_reason = reason,
          ck_observed_at = now\<rparr>)"

definition evaluate :: "completion_inputs \<Rightarrow> int \<Rightarrow> check_row list" where
  "evaluate i now = map (check_row_of i now) ALL_CHECKS"

record counts =
  ct_lit :: nat
  ct_evaluable :: nat
  ct_unknown :: nat
  ct_na :: nat

text \<open>The assertion at the end is the sum of the three partitions; it is a lemma below.\<close>

definition count_row :: "counts \<Rightarrow> check_row \<Rightarrow> counts" where
  "count_row c r =
     (case ck_state r of
        StPass \<Rightarrow> c\<lparr>ct_lit := ct_lit c + 1, ct_evaluable := ct_evaluable c + 1\<rparr>
      | StFail \<Rightarrow> c\<lparr>ct_evaluable := ct_evaluable c + 1\<rparr>
      | StUnknown \<Rightarrow> c\<lparr>ct_unknown := ct_unknown c + 1\<rparr>
      | StNa \<Rightarrow> c\<lparr>ct_na := ct_na c + 1\<rparr>)"

definition counts_of :: "check_row list \<Rightarrow> counts" where
  "counts_of rows =
     foldl count_row \<lparr>ct_lit = 0, ct_evaluable = 0, ct_unknown = 0, ct_na = 0\<rparr> rows"

section \<open>The stored rows and the projection\<close>

definition load_rows :: "index_db \<Rightarrow> int \<Rightarrow> check_row list" where
  "load_rows db p = List.map_filter (db_checks db p) ALL_CHECKS"

definition write_all_ten :: "index_db \<Rightarrow> int \<Rightarrow> check_row list \<Rightarrow> index_db" where
  "write_all_ten db p rows =
     db\<lparr>db_checks := (db_checks db)(p := map_of (map (\<lambda>r. (ck_key r, r)) rows))\<rparr>"

definition set_user_na :: "index_db \<Rightarrow> int \<Rightarrow> completion_check \<Rightarrow> bool option \<Rightarrow> index_db" where
  "set_user_na db p key na =
     db\<lparr>db_checks := (db_checks db)(p := (db_checks db p)
          (key := map_option (\<lambda>r. r\<lparr>ck_user_na := na\<rparr>) (db_checks db p key)))\<rparr>"

definition recount :: "check_row list \<Rightarrow> nat \<times> nat" where
  "recount rows =
     (length (filter (\<lambda>r. ck_state r = StPass) rows),
      length (filter (\<lambda>r. ck_state r = StPass \<or> ck_state r = StFail) rows))"

datatype completion_value = CompletionNotComputed | CompletionComputed nat nat

definition set_completion :: "index_db \<Rightarrow> int \<Rightarrow> completion_value \<Rightarrow> index_db option" where
  "set_completion db p val =
     (let write = (\<lambda>lit applicable. Some (update_project p
            (\<lambda>c. c\<lparr>pc_completion_lit := lit, pc_completion_applicable := applicable\<rparr>) db))
      in case val of
           CompletionNotComputed \<Rightarrow> write None None
         | CompletionComputed lit applicable \<Rightarrow>
             (if applicable = 0 then None
              else if lit > applicable then None
              else write (Some (int lit)) (Some (int applicable))))"

definition get_completion :: "index_db \<Rightarrow> int \<Rightarrow> completion_value option" where
  "get_completion db p =
     map_option (\<lambda>c. case (pc_completion_lit c, pc_completion_applicable c) of
          (Some l, Some a) \<Rightarrow>
            (if a > 0
             then CompletionComputed (case u32_try l of Some n \<Rightarrow> n | None \<Rightarrow> 0)
                    (case u32_try a of Some n \<Rightarrow> n | None \<Rightarrow> 1)
             else CompletionNotComputed)
        | _ \<Rightarrow> CompletionNotComputed)
       (project_of db p)"

datatype not_scorable = NsReference | NsAuthorship | NsNotCloned | NsFrozen | NsNotComputed

datatype written = Skipped not_scorable | Unchanged | Rewritten counts

definition same_row :: "check_row \<Rightarrow> check_row \<Rightarrow> bool" where
  "same_row a b \<longleftrightarrow>
     ck_key a = ck_key b \<and> ck_state a = ck_state b \<and> ck_user_na a = ck_user_na b \<and>
     ck_reason a = ck_reason b"

text \<open>An error, \<open>None\<close>, is the projection refusing the counts.\<close>

definition recompute_checks ::
  "(index_db \<Rightarrow> int \<Rightarrow> not_scorable + completion_inputs) \<Rightarrow> index_db \<Rightarrow> int \<Rightarrow> int
   \<Rightarrow> (written \<times> index_db) option" where
  "recompute_checks gather db p now =
     (case gather db p of
        Inl why \<Rightarrow> Some (Skipped why, db)
      | Inr gathered \<Rightarrow>
          (let rows = evaluate gathered now; stored = load_rows db p
           in if length stored = length rows \<and> list_all (\<lambda>(a, b). same_row a b) (zip stored rows)
              then Some (Unchanged, db)
              else let (lit, evaluable) = recount rows;
                       val = (if evaluable = 0 then CompletionNotComputed
                              else CompletionComputed lit evaluable)
                   in map_option (\<lambda>db'. (Rewritten (counts_of rows), db'))
                        (set_completion (write_all_ten db p rows) p val)))"

definition set_check_na ::
  "(index_db \<Rightarrow> int \<Rightarrow> not_scorable + completion_inputs) \<Rightarrow> index_db \<Rightarrow> int \<Rightarrow> completion_check
   \<Rightarrow> bool option \<Rightarrow> int \<Rightarrow> (written \<times> index_db) option" where
  "set_check_na gather db p key na now = recompute_checks gather (set_user_na db p key na) p now"

section \<open>What the evaluator says\<close>

lemma ALL_CHECKS_set [simp]: "set ALL_CHECKS = UNIV"
proof -
  have "k \<in> set ALL_CHECKS" for k by (cases k) (simp_all add: ALL_CHECKS_def)
  then show ?thesis by blast
qed

lemma ALL_CHECKS_distinct [simp]: "distinct ALL_CHECKS"
  by (simp add: ALL_CHECKS_def)

lemma length_ALL_CHECKS [simp]: "length ALL_CHECKS = 10"
  by (simp add: ALL_CHECKS_def)

lemma key_of_row [simp]: "ck_key (check_row_of i now k) = k"
  by (simp add: check_row_of_def Let_def split: prod.splits)

lemma row_user_na [simp]: "ck_user_na (check_row_of i now k) = ci_user_na i k"
  by (simp add: check_row_of_def Let_def split: prod.splits)

text \<open>A reason is given exactly with an unknown, by every reader.\<close>

named_theorems verdicts \<open>a verdict carries a reason exactly when it is unknown\<close>

lemma from_singleton_reason [verdicts]: "snd (from_singleton k r a) \<noteq> None \<longleftrightarrow> fst (from_singleton k r a) = StUnknown"
  by (auto simp: from_singleton_def split: option.splits sweep_outcome.splits)

lemma from_presence_reason [verdicts]: "snd (from_presence s) \<noteq> None \<longleftrightarrow> fst (from_presence s) = StUnknown"
  by (cases s rule: from_presence.cases) auto

lemma from_remote_reason [verdicts]: "snd (from_remote s) \<noteq> None \<longleftrightarrow> fst (from_remote s) = StUnknown"
  by (cases s rule: from_remote.cases) auto

lemma from_description_reason [verdicts]:
  "snd (from_description i) \<noteq> None \<longleftrightarrow> fst (from_description i) = StUnknown"
  by (auto simp: from_description_def Let_def split: facts_state.splits)

lemma from_deps_reason [verdicts]: "snd (from_deps d) \<noteq> None \<longleftrightarrow> fst (from_deps d) = StUnknown"
  by (auto simp: from_deps_def split: dependency_verdict.splits)

lemma evaluate_key_reason: "snd (evaluate_key i k) \<noteq> None \<longleftrightarrow> fst (evaluate_key i k) = StUnknown"
  by (cases k) (simp_all only: evaluate_key_def Let_def completion_check.case verdicts split: if_splits, auto)

lemma row_verdict:
  "ck_state (check_row_of i now k) =
     (if is_na k (ci_user_na i k) (ci_archetype i) then StNa else fst (evaluate_key i k))"
  "ck_reason (check_row_of i now k) =
     (if is_na k (ci_user_na i k) (ci_archetype i) then None else snd (evaluate_key i k))"
  by (simp_all add: check_row_of_def Let_def split: prod.splits)

lemma row_reason: "ck_reason (check_row_of i now k) \<noteq> None \<longleftrightarrow> ck_state (check_row_of i now k) = StUnknown"
  using evaluate_key_reason [of i k] by (simp add: row_verdict)

text \<open>The evidence a pass rests on.\<close>

definition evidence :: "completion_inputs \<Rightarrow> completion_check \<Rightarrow> bool" where
  "evidence i key =
     (let swept = (\<lambda>r. sg_outcome r = Some SwComplete \<and> sg_open_items r = 0)
      in case key of
           CkReadme \<Rightarrow> swept (ci_readme i)
         | CkLicense \<Rightarrow> swept (ci_license i)
         | CkTests \<Rightarrow> swept (ci_tests i)
         | CkPushed \<Rightarrow> swept (ci_pushed i)
         | CkRelease \<Rightarrow> swept (ci_release i)
         | CkCiGreen \<Rightarrow> swept (ci_ci_red i) \<and> ci_has_ci i \<noteq> Some SAbsent \<and>
             \<not> is_na CkCi (ci_user_na i CkCi) (ci_archetype i)
         | CkRemote \<Rightarrow> ci_remote_configured i = Some True
         | CkDescription \<Rightarrow> ci_has_remote i \<and> ci_facts_state i = FactsObserved \<and>
             (\<exists>d. ci_forge_description i = Some d \<and> trim d \<noteq> []) \<and> ci_topic_count i \<ge> 1
         | CkCi \<Rightarrow> ci_has_ci i = Some SPresent
         | CkDeps \<Rightarrow> dr_scored_open (ci_deps i) = 0 \<and> dr_verdict (ci_deps i) \<noteq> VerdictUnknown)"

lemma swept_pass: "fst (from_singleton k r a) = StPass \<longleftrightarrow> sg_outcome r = Some SwComplete \<and> sg_open_items r = 0"
  by (auto simp: from_singleton_def split: option.splits sweep_outcome.splits)

lemma presence_verdict:
  "fst (from_presence s) = StPass \<longleftrightarrow> s = Some SPresent" "fst (from_presence s) = StFail \<longleftrightarrow> s = Some SAbsent"
  by (cases s rule: from_presence.cases; simp)+

lemma pass_iff_evidence: "fst (evaluate_key i k) = StPass \<longleftrightarrow> evidence i k"
proof (cases k)
  case CkRemote
  then show ?thesis
    by (cases "ci_remote_configured i" rule: from_remote.cases) (simp_all add: evaluate_key_def evidence_def)
next
  case CkDescription
  then show ?thesis
    by (auto simp: evaluate_key_def evidence_def from_description_def Let_def
        split: facts_state.splits option.splits)
next
  case CkDeps
  then show ?thesis
    by (cases "dr_verdict (ci_deps i)") (auto simp: evaluate_key_def evidence_def from_deps_def)
qed (auto simp: evaluate_key_def evidence_def Let_def swept_pass presence_verdict)

section \<open>The counts\<close>

lemma count_rows:
  "foldl count_row c rows =
     c\<lparr>ct_lit := ct_lit c + fst (recount rows), ct_evaluable := ct_evaluable c + snd (recount rows),
       ct_unknown := ct_unknown c + length (filter (\<lambda>r. ck_state r = StUnknown) rows),
       ct_na := ct_na c + length (filter (\<lambda>r. ck_state r = StNa) rows)\<rparr>"
proof (induction rows arbitrary: c)
  case (Cons r rows)
  show ?case using Cons [of "count_row c r"]
    by (cases "ck_state r") (simp_all add: count_row_def recount_def)
qed (simp add: recount_def)

lemma partition_of_rows:
  "snd (recount rows) + length (filter (\<lambda>r. ck_state r = StUnknown) rows)
     + length (filter (\<lambda>r. ck_state r = StNa) rows) = length rows"
proof (induction rows)
  case (Cons r rows)
  then show ?case by (cases "ck_state r") (simp_all add: recount_def)
qed (simp add: recount_def)

lemma lit_le_evaluable: "fst (recount rows) \<le> snd (recount rows)"
  by (induction rows) (simp_all add: recount_def)

text \<open>
  C38: the checklist never claims what was not observed. There are ten rows in declaration order;
  a check passes exactly when it is not ruled or proposed not applicable and its evidence was read
  and is positive (a complete sweep with no scored open item, a present file, a configured remote,
  an observed description with a topic, a known dependency verdict with no open advisory); an
  unknown check, and no other, carries a reason; and the counts are those of the rows, which they
  partition.
\<close>

theorem checks_rest_on_evidence:
  "map ck_key (evaluate i now) = ALL_CHECKS \<and>
   map (\<lambda>r. ck_state r = StPass) (evaluate i now)
     = map (\<lambda>k. \<not> is_na k (ci_user_na i k) (ci_archetype i) \<and> evidence i k) ALL_CHECKS \<and>
   map (\<lambda>r. ck_reason r \<noteq> None) (evaluate i now) = map (\<lambda>r. ck_state r = StUnknown) (evaluate i now) \<and>
   (ct_lit (counts_of (evaluate i now)), ct_evaluable (counts_of (evaluate i now)))
     = recount (evaluate i now) \<and>
   ct_lit (counts_of (evaluate i now)) \<le> ct_evaluable (counts_of (evaluate i now)) \<and>
   ct_evaluable (counts_of (evaluate i now)) + ct_unknown (counts_of (evaluate i now))
     + ct_na (counts_of (evaluate i now)) = 10"
  using partition_of_rows [of "evaluate i now"] lit_le_evaluable [of "evaluate i now"]
  by (simp add: counts_of_def count_rows evaluate_def comp_def row_verdict pass_iff_evidence evaluate_key_reason
      del: not_None_eq)

section \<open>The rows and the projection agree\<close>

text \<open>Ten rows or none, each under its own key; and the two columns of the project are the
  counts of the rows, or NULL where nothing is evaluable.\<close>

definition projection :: "check_row list \<Rightarrow> int option \<times> int option" where
  "projection rows =
     (if snd (recount rows) = 0 then (None, None)
      else (Some (int (fst (recount rows))), Some (int (snd (recount rows)))))"

definition completion_wf :: "index_db \<Rightarrow> int \<Rightarrow> bool" where
  "completion_wf db p \<longleftrightarrow>
     (\<forall>k r. db_checks db p k = Some r \<longrightarrow> ck_key r = k) \<and>
     (dom (db_checks db p) = {} \<or> dom (db_checks db p) = UNIV) \<and>
     (\<forall>c. project_of db p = Some c \<longrightarrow>
        (pc_completion_lit c, pc_completion_applicable c) = projection (load_rows db p))"

lemma map_filter_keys:
  "(\<And>r. r \<in> set rs \<Longrightarrow> f (key r) = Some r) \<Longrightarrow> List.map_filter f (map key rs) = rs"
  by (induction rs) (simp_all add: List.map_filter_simps)

lemma map_filter_total:
  "(\<And>k. k \<in> set ks \<Longrightarrow> f k \<noteq> None) \<Longrightarrow> List.map_filter f ks = map (the \<circ> f) ks"
proof (induction ks)
  case (Cons k ks)
  then obtain y where "f k = Some y" by fastforce
  with Cons show ?case by (simp add: List.map_filter_simps)
qed (simp add: List.map_filter_simps)

lemma load_rows_length:
  "dom (db_checks db p) = {} \<or> dom (db_checks db p) = UNIV \<Longrightarrow>
     length (load_rows db p) = 0 \<or> length (load_rows db p) = 10"
proof (elim disjE)
  assume "dom (db_checks db p) = {}"
  then show ?thesis by (simp add: load_rows_def List.map_filter_def)
next
  assume "dom (db_checks db p) = UNIV"
  then have "load_rows db p = map (the \<circ> db_checks db p) ALL_CHECKS"
    unfolding load_rows_def by (intro map_filter_total) (auto simp: dom_def)
  then show ?thesis by simp
qed

lemma written_rows:
  assumes "map ck_key rows = ALL_CHECKS"
  shows "load_rows (write_all_ten db p rows) p = rows"
    and "dom (db_checks (write_all_ten db p rows) p) = UNIV"
    and "db_checks (write_all_ten db p rows) p k = Some r \<Longrightarrow> ck_key r = k"
proof -
  have keys: "map fst (map (\<lambda>r. (ck_key r, r)) rows) = ALL_CHECKS"
    using assms by (simp add: comp_def)
  then have dom: "dom (map_of (map (\<lambda>r. (ck_key r, r)) rows)) = UNIV"
    unfolding dom_map_of_conv_image_fst set_map [symmetric] by simp
  then show "dom (db_checks (write_all_ten db p rows) p) = UNIV" by (simp add: write_all_ten_def)
  have at: "map_of (map (\<lambda>r. (ck_key r, r)) rows) (ck_key r) = Some r" if "r \<in> set rows" for r
    using that keys by (intro map_of_is_SomeI) (simp_all add: distinct_map [symmetric] del: map_map)
  have "List.map_filter (map_of (map (\<lambda>r. (ck_key r, r)) rows)) (map ck_key rows) = rows"
    using at by (rule map_filter_keys)
  then show "load_rows (write_all_ten db p rows) p = rows"
    by (simp add: load_rows_def write_all_ten_def assms)
  show "ck_key r = k" if "db_checks (write_all_ten db p rows) p k = Some r"
    using that by (auto simp: write_all_ten_def dest: map_of_SomeD)
qed


lemma load_rows_update [simp]: "load_rows (update_project p f db) q = load_rows db q"
  by (simp add: load_rows_def)

lemma ruling_keeps_wf:
  assumes "completion_wf db p"
  shows "completion_wf (set_user_na db p key na) p"
proof -
  have rows: "load_rows (set_user_na db p key na) p =
      map (\<lambda>r. if ck_key r = key then r\<lparr>ck_user_na := na\<rparr> else r) (load_rows db p)"
  proof -
    have "List.map_filter ((db_checks db p)(key := map_option (\<lambda>r. r\<lparr>ck_user_na := na\<rparr>) (db_checks db p key))) ks
        = map (\<lambda>r. if ck_key r = key then r\<lparr>ck_user_na := na\<rparr> else r) (List.map_filter (db_checks db p) ks)" for ks
      using assms by (induction ks) (auto simp: completion_wf_def List.map_filter_simps split: option.splits)
    then show ?thesis by (simp add: load_rows_def set_user_na_def)
  qed
  have "recount (map (\<lambda>r. if ck_key r = key then r\<lparr>ck_user_na := na\<rparr> else r) rs) = recount rs" for rs
    by (induction rs) (auto simp: recount_def)
  moreover have "dom (db_checks (set_user_na db p key na) p) = dom (db_checks db p)"
    by (auto simp: set_user_na_def split: if_splits)
  moreover have "project_of (set_user_na db p key na) p = project_of db p"
    by (simp add: project_of_def set_user_na_def)
  moreover have "ck_key r = k" if "db_checks (set_user_na db p key na) p k = Some r" for k r
    using that assms by (auto simp: completion_wf_def set_user_na_def split: if_splits)
  ultimately show ?thesis
    using assms unfolding completion_wf_def rows projection_def by simp
qed

lemma recompute_checks_keeps_wf:
  assumes "completion_wf db p"
  obtains w db' where "recompute_checks gather db p now = Some (w, db')" and "completion_wf db' p"
proof (cases "gather db p")
  case (Inl why)
  then show ?thesis using that assms by (simp add: recompute_checks_def)
next
  case (Inr gathered)
  let ?rows = "evaluate gathered now" and ?stored = "load_rows db p"
  show ?thesis
  proof (cases "length ?stored = length ?rows \<and> list_all (\<lambda>(a, b). same_row a b) (zip ?stored ?rows)")
    case True
    then show ?thesis using that assms Inr by (simp add: recompute_checks_def Let_def)
  next
    case False
    define val where "val = (if snd (recount ?rows) = 0 then CompletionNotComputed
      else CompletionComputed (fst (recount ?rows)) (snd (recount ?rows)))"
    define db' where "db' = update_project p
      (\<lambda>c. c\<lparr>pc_completion_lit := fst (projection ?rows), pc_completion_applicable := snd (projection ?rows)\<rparr>)
      (write_all_ten db p ?rows)"
    have set: "set_completion (write_all_ten db p ?rows) p val = Some db'"
      using lit_le_evaluable [of ?rows] by (simp add: set_completion_def val_def db'_def projection_def Let_def)
    have keys: "map ck_key ?rows = ALL_CHECKS" by (simp add: evaluate_def comp_def)
    have "completion_wf db' p"
      unfolding completion_wf_def db'_def
      by (simp add: written_rows [OF keys] project_of_update) (use written_rows(3) [OF keys] in auto)
    moreover have "recompute_checks gather db p now = Some (Rewritten (counts_of ?rows), db')"
      using False Inr set by (cases "recount ?rows"; cases "snd (recount ?rows) = 0") (simp_all add: recompute_checks_def Let_def val_def)
    ultimately show ?thesis using that by blast
  qed
qed


definition swept_clean :: "debt_source \<Rightarrow> singleton_reading" where
  "swept_clean s = \<lparr>sg_source = s, sg_outcome = Some SwComplete, sg_open_items = 0\<rparr>"

definition sample_inputs :: completion_inputs where
  "sample_inputs =
     \<lparr>ci_readme = swept_clean MissingReadme, ci_license = swept_clean MissingLicense,
      ci_tests = (swept_clean MissingTests)\<lparr>sg_outcome := Some SwPartial\<rparr>, ci_ci_red = swept_clean CiRed,
      ci_pushed = (swept_clean UnpushedCommits)\<lparr>sg_open_items := 1\<rparr>, ci_release = swept_clean NoRelease,
      ci_has_ci = Some SAbsent, ci_remote_configured = Some True, ci_account_connected = False,
      ci_facts_state = FactsNoAccount, ci_has_remote = True, ci_forge_description = None,
      ci_topic_count = 0,
      ci_deps = \<lparr>dr_verdict = VerdictUnknown, dr_scored_open = 0, dr_lockfile_not_read = False\<rparr>,
      ci_archetype = Some ''docs'', ci_user_na = (\<lambda>_. None)\<rparr>"


text \<open>A row's time is meant to be when its state was last established; a change to one check
  re-dates the other nine.\<close>

lemma one_change_redates_all:
  "map ck_observed_at (evaluate (sample_inputs\<lparr>ci_has_ci := Some SPresent\<rparr>) 9) = replicate 10 9"
  "map_option (\<lambda>(_, db). map ck_observed_at (load_rows db 1))
     (Option.bind (recompute_checks (\<lambda>_ _. Inr sample_inputs) small_db 1 5)
       (\<lambda>(_, db). recompute_checks (\<lambda>_ _. Inr (sample_inputs\<lparr>ci_remote_configured := None\<rparr>)) db 1 9))
   = Some (replicate 10 9)"
  by code_simp+

end
