(* ===== verification/Health.thy ===== *)
theory Health
  imports Completion
begin

text \<open>
  A project's health as a reading (\<open>src/core/src/health/\<close>, \<open>project_presence\<close> of
  \<open>scan/presence.rs\<close>): the switches, the five outcomes of a check, the reason an unknown one
  carries, the basis, the six gates of the state, the lifecycle verdict, and the two projections
  of the one producer, for a page and for the whole shelf. Counts of stored rows stay below
  \<open>2 ^ 32\<close>, so the sums over them are written without the wrap.
\<close>

section \<open>Errors\<close>

text \<open>\<open>ProjectsError\<close>; a failure of the database itself is not a value of the model.\<close>

datatype projects_error = UnknownProject int | BadColumn string string

fun sequence_results :: "(projects_error + 'a) list \<Rightarrow> projects_error + 'a list" where
  "sequence_results [] = Inr []"
| "sequence_results (Inl e # rs) = Inl e"
| "sequence_results (Inr a # rs) =
     (case sequence_results rs of Inl e \<Rightarrow> Inl e | Inr xs \<Rightarrow> Inr (a # xs))"

definition enum_from_column :: "('a \<Rightarrow> string) \<Rightarrow> 'a list \<Rightarrow> string \<Rightarrow> 'a option" where
  "enum_from_column slug all_values raw = find (\<lambda>v. slug v = raw) all_values"

definition column :: "('a \<Rightarrow> string) \<Rightarrow> 'a list \<Rightarrow> string \<Rightarrow> string \<Rightarrow> projects_error + 'a" where
  "column slug all_values raw name =
     (case enum_from_column slug all_values raw of Some v \<Rightarrow> Inr v | None \<Rightarrow> Inl (BadColumn name raw))"

definition optional_column ::
  "('a \<Rightarrow> string) \<Rightarrow> 'a list \<Rightarrow> string option \<Rightarrow> string \<Rightarrow> projects_error + 'a option" where
  "optional_column slug all_values raw name =
     (case raw of
        None \<Rightarrow> Inr None
      | Some t \<Rightarrow> (case column slug all_values t name of Inl e \<Rightarrow> Inl e | Inr v \<Rightarrow> Inr (Some v)))"

definition ALL_PRESENCES :: "presence list" where
  "ALL_PRESENCES = [PPresent, POffline, PMissing, PUnscanned]"

section \<open>Switches and enrolment\<close>

record check_switch =
  cs_check :: debt_source
  cs_enabled :: bool

definition switch_key :: "debt_source \<Rightarrow> string" where
  "switch_key check = ''health_check.'' @ debt_slug check"

definition read_switches :: "index_db \<Rightarrow> check_switch list" where
  "read_switches db =
     map (\<lambda>check. \<lparr>cs_check = check,
            cs_enabled = (case db_meta db (switch_key check) of None \<Rightarrow> True | Some v \<Rightarrow> v = ''1'')\<rparr>)
       ALL_SOURCES"

definition needs_grant :: "debt_source \<Rightarrow> bool" where "needs_grant s \<longleftrightarrow> s = TodoMarker"

definition off_sources :: "check_switch list \<Rightarrow> bool \<Rightarrow> debt_source list" where
  "off_sources switches granted =
     map cs_check (filter (\<lambda>s. \<not> cs_enabled s \<or> (needs_grant (cs_check s) \<and> \<not> granted)) switches)"

fun write_switches :: "index_db \<Rightarrow> check_switch list \<Rightarrow> index_db" where
  "write_switches db [] = db"
| "write_switches db (s # ss) =
     (let db = db\<lparr>db_meta := (db_meta db)(switch_key (cs_check s) \<mapsto> (if cs_enabled s then ''1'' else ''0''))\<rparr>;
          db = (if cs_enabled s then db
                else db\<lparr>db_sweeps := (\<lambda>p. (db_sweeps db p)(cs_check s := None))\<rparr>)
      in write_switches db ss)"

definition is_enrolled :: "int option \<Rightarrow> bool" where "is_enrolled acknowledged_at \<longleftrightarrow> acknowledged_at \<noteq> None"

definition surface_suppressed :: "bool \<Rightarrow> bool \<Rightarrow> bool" where
  "surface_suppressed enrolled is_archived \<longleftrightarrow> \<not> enrolled \<or> is_archived"

definition compute_suppressed :: "bool \<Rightarrow> bool \<Rightarrow> bool" where
  "compute_suppressed enrolled is_archived \<longleftrightarrow> \<not> enrolled \<or> is_archived"

definition stamp_acknowledged :: "index_db \<Rightarrow> int \<Rightarrow> int \<Rightarrow> bool \<times> index_db" where
  "stamp_acknowledged db p now =
     (list_ex (\<lambda>c. pc_id c = p \<and> pc_acknowledged_at c = None) (db_projects db),
      update_project p
        (\<lambda>c. if pc_acknowledged_at c = None then c\<lparr>pc_acknowledged_at := Some now\<rparr> else c) db)"

definition read_acknowledged_at :: "index_db \<Rightarrow> int \<Rightarrow> int option" where
  "read_acknowledged_at db p = Option.bind (project_of db p) pc_acknowledged_at"

definition stamp_and_read_enrolment :: "index_db \<Rightarrow> int \<Rightarrow> int \<Rightarrow> bool \<times> index_db" where
  "stamp_and_read_enrolment db p now =
     (let (_, db') = stamp_acknowledged db p now in (is_enrolled (read_acknowledged_at db' p), db'))"

section \<open>Outcomes, reasons and the basis\<close>

datatype check_outcome = OutOk | OutFailed | OutUnknown | OutOff | OutNotApplicable

record sweep_facts =
  sf_outcome :: "sweep_outcome option"
  sf_scored_open :: nat
  sf_unverified :: nat
  sf_observed_at :: "int option"

record switch_state =
  ss_enabled :: bool
  ss_grant_missing :: bool
  ss_not_applicable :: bool

definition outcome_for :: "sweep_facts \<Rightarrow> switch_state \<Rightarrow> check_outcome" where
  "outcome_for facts switch =
     (if \<not> ss_enabled switch \<or> ss_grant_missing switch then OutOff
      else if ss_not_applicable switch then OutNotApplicable
      else if sf_scored_open facts > 0 then OutFailed
      else if sf_outcome facts = Some SwComplete \<and> sf_unverified facts = 0 then OutOk
      else OutUnknown)"

fun in_eligible :: "check_outcome \<Rightarrow> bool" where
  "in_eligible OutOk = True"
| "in_eligible OutFailed = True"
| "in_eligible OutUnknown = True"
| "in_eligible OutOff = False"
| "in_eligible OutNotApplicable = False"

record health_check =
  hc_id :: debt_source
  hc_outcome :: check_outcome
  hc_reason :: "unknown_reason option"

record grant_state =
  gs_account_missing :: bool
  gs_awaiting_sync :: bool

definition reason_for :: "sweep_facts \<Rightarrow> presence \<Rightarrow> grant_state \<Rightarrow> unknown_reason" where
  "reason_for facts anchor grant =
     (if anchor = POffline \<or> anchor = PMissing then Unreachable
      else if gs_account_missing grant then NeedsAccount
      else if gs_awaiting_sync grant then NotSynced
      else case sf_outcome facts of
        Some SwFailed \<Rightarrow> NotRead
      | Some SwPartial \<Rightarrow> NotRead
      | Some SwComplete \<Rightarrow> NotRead
      | Some SwUnobservable \<Rightarrow> NotObserved
      | Some SwSkippedReference \<Rightarrow> NotRunYet
      | Some SwSkippedSuppressed \<Rightarrow> NotRunYet
      | None \<Rightarrow> NotRunYet)"

definition check_for ::
  "debt_source \<Rightarrow> sweep_facts \<Rightarrow> switch_state \<Rightarrow> presence \<Rightarrow> grant_state \<Rightarrow> health_check" where
  "check_for source facts switch anchor grant =
     (let out = outcome_for facts switch
      in \<lparr>hc_id = source, hc_outcome = out,
          hc_reason = (if out = OutUnknown then Some (reason_for facts anchor grant) else None)\<rparr>)"

record check_observation =
  co_check :: health_check
  co_observed_at :: "int option"

record health_basis =
  hb_ran :: nat
  hb_eligible :: nat
  hb_unknown :: nat
  hb_off :: nat
  hb_not_applicable :: nat
  hb_observed_at :: int

definition older :: "int option \<Rightarrow> int option \<Rightarrow> int option" where
  "older current candidate =
     (case (current, candidate) of
        (Some a, Some b) \<Rightarrow> Some (min a b)
      | (Some a, None) \<Rightarrow> Some a
      | (None, b) \<Rightarrow> b)"

text \<open>The loop's state: ran, unknown, off, not applicable, the oldest that ran, the oldest of all.\<close>

record basis_acc =
  ba_ran :: nat
  ba_unknown :: nat
  ba_off :: nat
  ba_na :: nat
  ba_ran_oldest :: "int option"
  ba_any_oldest :: "int option"

definition basis_step :: "basis_acc \<Rightarrow> check_observation \<Rightarrow> basis_acc" where
  "basis_step acc e =
     (let out = hc_outcome (co_check e);
          acc = (case out of
              OutOk \<Rightarrow> acc\<lparr>ba_ran := ba_ran acc + 1, ba_ran_oldest := older (ba_ran_oldest acc) (co_observed_at e)\<rparr>
            | OutFailed \<Rightarrow> acc\<lparr>ba_ran := ba_ran acc + 1, ba_ran_oldest := older (ba_ran_oldest acc) (co_observed_at e)\<rparr>
            | OutUnknown \<Rightarrow> acc\<lparr>ba_unknown := ba_unknown acc + 1\<rparr>
            | OutOff \<Rightarrow> acc\<lparr>ba_off := ba_off acc + 1\<rparr>
            | OutNotApplicable \<Rightarrow> acc\<lparr>ba_na := ba_na acc + 1\<rparr>)
      in if in_eligible out then acc\<lparr>ba_any_oldest := older (ba_any_oldest acc) (co_observed_at e)\<rparr> else acc)"

definition basis_over :: "check_observation list \<Rightarrow> health_basis option" where
  "basis_over entries =
     (let acc = foldl basis_step
            \<lparr>ba_ran = 0, ba_unknown = 0, ba_off = 0, ba_na = 0, ba_ran_oldest = None, ba_any_oldest = None\<rparr>
            entries
      in map_option (\<lambda>at. \<lparr>hb_ran = ba_ran acc, hb_eligible = ba_ran acc + ba_unknown acc,
             hb_unknown = ba_unknown acc, hb_off = ba_off acc, hb_not_applicable = ba_na acc,
             hb_observed_at = at\<rparr>)
           (if ba_ran acc > 0 then ba_ran_oldest acc else ba_any_oldest acc))"

section \<open>The six gates\<close>

definition project_presence :: "presence list \<Rightarrow> presence" where
  "project_presence ls =
     (if ls = [] then PUnscanned
      else if list_all (\<lambda>p. p = POffline) ls then POffline
      else if PPresent \<in> set ls then PPresent
      else if PMissing \<in> set ls then PMissing
      else PUnscanned)"

record state_inputs =
  si_is_reference :: "bool option"
  si_authored_by_user :: "bool option"
  si_error_kind :: "string option"
  si_ever_observed :: bool
  si_locations :: "presence list"
  si_enrolled :: bool
  si_is_archived :: bool
  si_prior_reading :: bool

definition health_state_of :: "state_inputs \<Rightarrow> health_state" where
  "health_state_of i =
     (if si_is_reference i = Some True then HAbsent
      else if si_authored_by_user i = None then HAbsent
      else if si_error_kind i \<noteq> None \<and> \<not> si_ever_observed i then HAbsent
      else (let p = project_presence (si_locations i)
            in if si_locations i = [] \<or> p = PUnscanned \<or> p = PMissing then HAbsent
               else if surface_suppressed (si_enrolled i) (si_is_archived i) then HSuppressed
               else if p = POffline then (if si_prior_reading i then HFrozen else HAbsent)
               else HLive))"

record health_reading =
  hr_state :: health_state
  hr_scored_open :: "nat option"
  hr_basis :: "health_basis option"
  hr_checks :: "health_check list"

definition lifecycle_of :: "health_reading \<Rightarrow> bool \<Rightarrow> condition option \<Rightarrow> lifecycle" where
  "lifecycle_of reading is_archived condition_signal =
     (if is_archived then LcArchived
      else if condition_signal = Some CLive \<or> condition_signal = Some CIdle then LcActive
      else if hr_state reading \<noteq> HLive then LcActive
      else case hr_basis reading of
        None \<Rightarrow> LcActive
      | Some b \<Rightarrow>
          (if hb_ran b = hb_eligible b \<and> hb_ran b > 0 \<and> hr_scored_open reading = Some 0 then LcDone
           else LcActive))"

section \<open>The one producer\<close>

record project_facts =
  pf_is_reference :: "bool option"
  pf_authored_by_user :: "bool option"
  pf_error_kind :: "string option"
  pf_acknowledged_at :: "int option"
  pf_is_archived :: bool
  pf_archetype :: "string option"

record shared_inputs =
  sh_switches :: "check_switch list"
  sh_granted :: bool
  sh_has_account :: bool

definition load_shared :: "index_db \<Rightarrow> shared_inputs" where
  "load_shared db =
     \<lparr>sh_switches = read_switches db, sh_granted = (db_meta db ''content_scan_enabled'' = Some ''1''),
      sh_has_account = (db_accounts db > 0)\<rparr>"

record per_project =
  pp_facts :: project_facts
  pp_locations :: "presence list"
  pp_sweeps :: "debt_source \<Rightarrow> (sweep_outcome \<times> int) option"
  pp_counts :: "debt_source \<Rightarrow> (nat \<times> nat) option"
  pp_refstate_observed :: bool
  pp_condition :: "condition option"
  pp_user_na :: "completion_check \<Rightarrow> bool option"

definition observe_check :: "shared_inputs \<Rightarrow> per_project \<Rightarrow> check_switch \<Rightarrow> check_observation" where
  "observe_check shared p switch =
     (let anchor = project_presence (pp_locations p);
          check = cs_check switch;
          observed_at = map_option snd (pp_sweeps p check);
          (open, unverified) = (case pp_counts p check of Some c \<Rightarrow> c | None \<Rightarrow> (0, 0));
          facts = \<lparr>sf_outcome = map_option fst (pp_sweeps p check), sf_scored_open = open,
                   sf_unverified = unverified, sf_observed_at = observed_at\<rparr>;
          switch_state = \<lparr>ss_enabled = cs_enabled switch,
                   ss_grant_missing = (needs_grant check \<and> \<not> sh_granted shared),
                   ss_not_applicable = source_not_applicable check (pf_archetype (pp_facts p)) (pp_user_na p)\<rparr>;
          grant = \<lparr>gs_account_missing = (check = CiRed \<and> \<not> sh_has_account shared), gs_awaiting_sync = False\<rparr>
      in \<lparr>co_check = check_for check facts switch_state anchor grant, co_observed_at = observed_at\<rparr>)"

definition observe_checks :: "shared_inputs \<Rightarrow> per_project \<Rightarrow> check_observation list \<times> nat" where
  "observe_checks shared p =
     (let entries = map (observe_check shared p) (sh_switches shared)
      in (entries,
          sum_list (map (\<lambda>e. if in_eligible (hc_outcome (co_check e))
                             then (case pp_counts p (hc_id (co_check e)) of Some c \<Rightarrow> fst c | None \<Rightarrow> 0)
                             else 0) entries)))"

definition reading_from :: "shared_inputs \<Rightarrow> per_project \<Rightarrow> health_reading \<times> debt_source list" where
  "reading_from shared p =
     (let ever_swept = list_ex (\<lambda>s. pp_sweeps p s \<noteq> None) ALL_SOURCES;
          (entries, scored_open) = observe_checks shared p;
          hidden = map (\<lambda>e. hc_id (co_check e)) (filter (\<lambda>e. \<not> in_eligible (hc_outcome (co_check e))) entries);
          state =
            (if list_ex (\<lambda>e. in_eligible (hc_outcome (co_check e))) entries
             then health_state_of
                    \<lparr>si_is_reference = pf_is_reference (pp_facts p),
                     si_authored_by_user = pf_authored_by_user (pp_facts p),
                     si_error_kind = pf_error_kind (pp_facts p),
                     si_ever_observed = (ever_swept \<or> pp_refstate_observed p),
                     si_locations = pp_locations p,
                     si_enrolled = is_enrolled (pf_acknowledged_at (pp_facts p)),
                     si_is_archived = pf_is_archived (pp_facts p),
                     si_prior_reading = ever_swept\<rparr>
             else HAbsent)
      in if state = HAbsent \<or> state = HSuppressed
         then (\<lparr>hr_state = state, hr_scored_open = None, hr_basis = None, hr_checks = []\<rparr>, hidden)
         else let b = basis_over entries
              in (\<lparr>hr_state = state, hr_scored_open = map_option (\<lambda>_. scored_open) b, hr_basis = b,
                   hr_checks = map co_check entries\<rparr>, hidden))"

section \<open>One project\<close>

text \<open>The grouped read of the items: a group exists where there is an item.\<close>

definition count_items :: "debt_row list \<Rightarrow> (nat \<times> nat) option" where
  "count_items rows =
     (if rows = [] then None
      else Some (length (filter (\<lambda>r. di_state r = ItemOpen \<and> di_scoring r = Scored) rows),
                 length (filter (\<lambda>r. di_state r = ItemUnverified) rows)))"

definition item_counts_for :: "index_db \<Rightarrow> int \<Rightarrow> debt_source \<Rightarrow> (nat \<times> nat) option" where
  "item_counts_for db p source =
     count_items (filter (\<lambda>r. dk_source (di_key r) = source)
       (filter (\<lambda>r. di_project r = p) (db_items db)))"

definition sweeps_for :: "index_db \<Rightarrow> int \<Rightarrow> debt_source \<Rightarrow> (sweep_outcome \<times> int) option" where
  "sweeps_for db p source = map_option (\<lambda>s. (sw_outcome s, sw_observed_at s)) (db_sweeps db p source)"

definition stored_user_na :: "index_db \<Rightarrow> int \<Rightarrow> completion_check \<Rightarrow> bool option" where
  "stored_user_na db p key = Option.bind (db_checks db p key) ck_user_na"

definition parse_presence :: "string \<Rightarrow> projects_error + presence" where
  "parse_presence raw = column presence_str ALL_PRESENCES raw ''location.presence''"

definition location_presences :: "index_db \<Rightarrow> int \<Rightarrow> projects_error + presence list" where
  "location_presences db p = sequence_results (map (parse_presence \<circ> lc_presence) (locations_for db p))"

definition observed_copy :: "location_cols \<Rightarrow> bool" where
  "observed_copy l \<longleftrightarrow> lc_refstate_observed_at l \<noteq> None \<or> lc_worktree_observed_at l \<noteq> None"

definition any_refstate_observed :: "index_db \<Rightarrow> int \<Rightarrow> bool" where
  "any_refstate_observed db p \<longleftrightarrow>
     length (filter (\<lambda>l. lc_project l = p \<and> observed_copy l) (db_locations db)) > 0"

definition parse_condition :: "string option \<Rightarrow> projects_error + condition option" where
  "parse_condition raw = optional_column condition_slug ALL_CONDITIONS raw ''project.condition_signal''"

definition facts_of :: "project_cols \<Rightarrow> project_facts" where
  "facts_of c =
     \<lparr>pf_is_reference = Some (pc_is_reference c \<noteq> 0),
      pf_authored_by_user = map_option (\<lambda>v. v \<noteq> 0) (pc_authored_by_user c),
      pf_error_kind = pc_error_kind c, pf_acknowledged_at = pc_acknowledged_at c,
      pf_is_archived = (pc_is_archived c \<noteq> 0), pf_archetype = pc_archetype c\<rparr>"

definition project_facts_for :: "index_db \<Rightarrow> int \<Rightarrow> projects_error + project_facts" where
  "project_facts_for db p =
     (case project_of db p of None \<Rightarrow> Inl (UnknownProject p) | Some c \<Rightarrow> Inr (facts_of c))"

definition flatten_reading :: "health_reading \<Rightarrow> nat \<Rightarrow> health_summary" where
  "flatten_reading r unverified =
     \<lparr>hs_state = hr_state r, hs_scored_open = hr_scored_open r,
      hs_unverified = map_option (\<lambda>_. unverified) (hr_basis r),
      hs_unknown_checks = map_option hb_unknown (hr_basis r),
      hs_observed_at = map_option hb_observed_at (hr_basis r)\<rparr>"

text \<open>The unverified items of every source the reading does not set aside.\<close>

definition project_summary ::
  "shared_inputs \<Rightarrow> per_project \<Rightarrow> health_summary \<times> lifecycle" where
  "project_summary shared p =
     (let (reading, hidden) = reading_from shared p;
          unverified = sum_list (map (\<lambda>s. case pp_counts p s of Some c \<Rightarrow> snd c | None \<Rightarrow> 0)
             (filter (\<lambda>s. s \<notin> set hidden) ALL_SOURCES))
      in (flatten_reading reading unverified,
          lifecycle_of reading (pf_is_archived (pp_facts p)) (pp_condition p)))"

definition per_project_for :: "index_db \<Rightarrow> int \<Rightarrow> projects_error + per_project" where
  "per_project_for db p =
     (case project_facts_for db p of
        Inl e \<Rightarrow> Inl e
      | Inr facts \<Rightarrow>
     (case location_presences db p of
        Inl e \<Rightarrow> Inl e
      | Inr ls \<Rightarrow>
     (case parse_condition (Option.bind (project_of db p) pc_condition_signal) of
        Inl e \<Rightarrow> Inl e
      | Inr c \<Rightarrow>
          Inr \<lparr>pp_facts = facts, pp_locations = ls, pp_sweeps = sweeps_for db p,
               pp_counts = item_counts_for db p, pp_refstate_observed = any_refstate_observed db p,
               pp_condition = c, pp_user_na = stored_user_na db p\<rparr>)))"

definition summary_for :: "index_db \<Rightarrow> int \<Rightarrow> projects_error + (health_summary \<times> lifecycle)" where
  "summary_for db p =
     (case per_project_for db p of
        Inl e \<Rightarrow> Inl e
      | Inr pp \<Rightarrow> Inr (project_summary (load_shared db) pp))"

definition reading_and_hidden :: "index_db \<Rightarrow> int \<Rightarrow> projects_error + (health_reading \<times> debt_source list)" where
  "reading_and_hidden db p =
     (case per_project_for db p of
        Inl e \<Rightarrow> Inl e
      | Inr pp \<Rightarrow> Inr (reading_from (load_shared db) pp))"

text \<open>The reading with the items handed down: none where the reading says nothing.\<close>

definition read_for_project :: "index_db \<Rightarrow> int \<Rightarrow> projects_error + (health_reading \<times> debt_row list)" where
  "read_for_project db p =
     (case reading_and_hidden db p of
        Inl e \<Rightarrow> Inl e
      | Inr (reading, hidden) \<Rightarrow>
          (if hr_state reading = HAbsent \<or> hr_state reading = HSuppressed then Inr (reading, [])
           else Inr (reading, filter (\<lambda>r. dk_source (di_key r) \<notin> set hidden)
                  (filter (\<lambda>r. di_project r = p) (db_items db)))))"

section \<open>The whole library\<close>

text \<open>\<open>out.entry(k).or_default().push(v)\<close> over the rows of a table.\<close>

definition group_by :: "('r \<Rightarrow> int) \<Rightarrow> ('r \<Rightarrow> 'v) \<Rightarrow> 'r list \<Rightarrow> int \<Rightarrow> 'v list option" where
  "group_by key val rows =
     foldl (\<lambda>out r. out(key r \<mapsto> (case out (key r) of None \<Rightarrow> [] | Some vs \<Rightarrow> vs) @ [val r]))
       Map.empty rows"

definition all_location_presences :: "index_db \<Rightarrow> projects_error + (int \<Rightarrow> presence list option)" where
  "all_location_presences db =
     (case sequence_results (map (\<lambda>l. case parse_presence (lc_presence l) of
               Inl e \<Rightarrow> Inl e | Inr v \<Rightarrow> Inr (lc_project l, v)) (db_locations db)) of
        Inl e \<Rightarrow> Inl e
      | Inr rows \<Rightarrow> Inr (group_by fst snd rows))"

definition all_project_facts ::
  "index_db \<Rightarrow> projects_error + (int \<times> project_facts \<times> condition option) list" where
  "all_project_facts db =
     sequence_results (map (\<lambda>c. case parse_condition (pc_condition_signal c) of
        Inl e \<Rightarrow> Inl e | Inr s \<Rightarrow> Inr (pc_id c, facts_of c, s)) (db_projects db))"

definition all_item_counts :: "index_db \<Rightarrow> int \<Rightarrow> debt_source \<Rightarrow> (nat \<times> nat) option" where
  "all_item_counts db p source =
     count_items (filter (\<lambda>r. di_project r = p \<and> dk_source (di_key r) = source) (db_items db))"

definition all_refstate_observed :: "index_db \<Rightarrow> int list" where
  "all_refstate_observed db = remdups (map lc_project (filter observed_copy (db_locations db)))"

definition summaries_for_all ::
  "index_db \<Rightarrow> projects_error + (int \<Rightarrow> (health_summary \<times> lifecycle) option)" where
  "summaries_for_all db =
     (case all_project_facts db of
        Inl e \<Rightarrow> Inl e
      | Inr facts \<Rightarrow>
     (case all_location_presences db of
        Inl e \<Rightarrow> Inl e
      | Inr presences \<Rightarrow>
          Inr (map_of (map (\<lambda>(p, row_facts, sig).
            (p, project_summary (load_shared db)
                  \<lparr>pp_facts = row_facts,
                   pp_locations = (case presences p of None \<Rightarrow> [] | Some ls \<Rightarrow> ls),
                   pp_sweeps = sweeps_for db p, pp_counts = all_item_counts db p,
                   pp_refstate_observed = (p \<in> set (all_refstate_observed db)),
                   pp_condition = sig, pp_user_na = stored_user_na db p\<rparr>)) facts))))"

section \<open>The page and the shelf read one thing\<close>

lemma sequence_results_all [simp]: "sequence_results (map Inr xs) = Inr xs"
  by (induction xs) simp_all

lemma sequence_results_Inr: "sequence_results rs = Inr xs \<longleftrightarrow> rs = map Inr xs"
proof
  show "sequence_results rs = Inr xs \<Longrightarrow> rs = map Inr xs"
    by (induction rs arbitrary: xs rule: sequence_results.induct) (auto split: sum.splits)
qed simp

lemma sequence_results_map:
  "sequence_results (map f xs) = Inr ys \<longleftrightarrow> map f xs = map Inr ys"
  by (rule sequence_results_Inr)

lemma group_by_snoc:
  "group_by key val (rows @ [r]) =
     (group_by key val rows)(key r \<mapsto> (case group_by key val rows (key r) of None \<Rightarrow> [] | Some vs \<Rightarrow> vs) @ [val r])"
  by (simp add: group_by_def)

text \<open>Grouping is filtering: the entry of a key is the values of its rows in order.\<close>

lemma group_by_at:
  "(case group_by key val rows k of None \<Rightarrow> [] | Some vs \<Rightarrow> vs) = map val (filter (\<lambda>r. key r = k) rows)"
proof (induction rows rule: rev_induct)
  case (snoc r rows)
  then show ?case by (auto simp: group_by_snoc)
qed (simp add: group_by_def)

lemma map_eq_map_Inr:
  assumes "map f xs = map Inr ys" and "\<And>x y. x \<in> set xs \<Longrightarrow> f x = Inr y \<Longrightarrow> P x = Q y \<and> (P x \<longrightarrow> g x = Inr (h y))"
  shows "map g (filter P xs) = map Inr (map h (filter Q ys))"
  using assms
proof (induction xs arbitrary: ys)
  case (Cons x xs)
  then obtain y ys' where ys: "ys = y # ys'" "f x = Inr y" "map f xs = map Inr ys'"
    by (cases ys) auto
  with Cons show ?case by auto
qed simp

lemma all_presences_at:
  assumes "all_location_presences db = Inr presences"
  shows "location_presences db p = Inr (case presences p of None \<Rightarrow> [] | Some ls \<Rightarrow> ls)"
proof -
  obtain rows where rows: "map (\<lambda>l. case parse_presence (lc_presence l) of
        Inl e \<Rightarrow> Inl e | Inr v \<Rightarrow> Inr (lc_project l, v)) (db_locations db) = map Inr rows"
    and presences: "presences = group_by fst snd rows"
    using assms by (auto simp: all_location_presences_def sequence_results_map split: sum.splits)
  have "map (parse_presence \<circ> lc_presence) (filter (\<lambda>l. lc_project l = p) (db_locations db))
      = map Inr (map snd (filter (\<lambda>r. fst r = p) rows))"
    using rows by (rule map_eq_map_Inr) (auto split: sum.splits)
  then show ?thesis
    by (simp add: location_presences_def locations_for_def sequence_results_map presences group_by_at)
qed

lemma all_facts_at:
  assumes "all_project_facts db = Inr facts"
  shows "(case project_of db p of
      None \<Rightarrow> map_of facts p = None
    | Some c \<Rightarrow> \<exists>s. parse_condition (pc_condition_signal c) = Inr s \<and> map_of facts p = Some (facts_of c, s))"
proof -
  have "map (\<lambda>c. case parse_condition (pc_condition_signal c) of
        Inl e \<Rightarrow> Inl e | Inr s \<Rightarrow> Inr (pc_id c, facts_of c, s)) cs = map Inr facts \<Longrightarrow>
    (case find (\<lambda>c. pc_id c = p) cs of
      None \<Rightarrow> map_of facts p = None
    | Some c \<Rightarrow> \<exists>s. parse_condition (pc_condition_signal c) = Inr s \<and> map_of facts p = Some (facts_of c, s))"
    for cs
  proof (induction cs arbitrary: facts)
    case (Cons c cs)
    then obtain f fs where "facts = f # fs" by (cases facts) auto
    with Cons show ?case by (auto split: sum.splits option.splits)
  qed simp
  with assms show ?thesis
    by (simp add: all_project_facts_def sequence_results_map project_of_def)
qed

lemma observed_project:
  "p \<in> set (all_refstate_observed db) \<longleftrightarrow> any_refstate_observed db p"
  by (auto simp: all_refstate_observed_def any_refstate_observed_def filter_empty_conv)

lemma map_of_map_snd: "map_of (map (\<lambda>(k, a, b). (k, f k a b)) xs) p = map_option (\<lambda>(a, b). f p a b) (map_of xs p)"
  by (induction xs) auto

lemma summaries_at:
  assumes "summaries_for_all db = Inr summaries"
  shows "summaries p = (case summary_for db p of Inl _ \<Rightarrow> None | Inr s \<Rightarrow> Some s)"
proof -
  obtain facts presences where f: "all_project_facts db = Inr facts"
    and l: "all_location_presences db = Inr presences"
    using assms by (auto simp: summaries_for_all_def split: sum.splits)
  have counts: "item_counts_for db p = all_item_counts db p"
    by (intro ext) (auto simp: item_counts_for_def all_item_counts_def intro!: arg_cong [of _ _ count_items] filter_cong)
  have entry: "summaries p = map_option (\<lambda>(row_facts, sig). project_summary (load_shared db)
      \<lparr>pp_facts = row_facts, pp_locations = (case presences p of None \<Rightarrow> [] | Some ls \<Rightarrow> ls),
       pp_sweeps = sweeps_for db p, pp_counts = item_counts_for db p,
       pp_refstate_observed = any_refstate_observed db p, pp_condition = sig,
       pp_user_na = stored_user_na db p\<rparr>) (map_of facts p)"
    using assms f l by (auto simp: summaries_for_all_def map_of_map_snd counts observed_project)
  show ?thesis
  proof (cases "project_of db p")
    case None
    then show ?thesis
      using all_facts_at [OF f, of p]
      by (simp add: entry summary_for_def per_project_for_def project_facts_for_def)
  next
    case (Some c)
    with all_facts_at [OF f, of p] all_presences_at [OF l, of p] show ?thesis
      by (auto simp: entry summary_for_def per_project_for_def project_facts_for_def)
  qed
qed

text \<open>
  The opened page and the tile of the shelf cannot disagree about a project. Whenever the
  batched summaries are produced, the entry of a project is the summary and the lifecycle the page
  reads for it alone, and there is an entry exactly where the page finds the project.
\<close>

theorem shelf_and_page_read_one_summary:
  assumes "summaries_for_all db = Inr summaries"
  shows "summaries p = (case summary_for db p of Inl _ \<Rightarrow> None | Inr s \<Rightarrow> Some s)"
  using assms by (rule summaries_at)

section \<open>What the basis counts\<close>

definition outcome_count :: "check_outcome \<Rightarrow> check_observation list \<Rightarrow> nat" where
  "outcome_count out es = length (filter (\<lambda>e. hc_outcome (co_check e) = out) es)"

lemma outcome_count_Cons:
  "outcome_count out (e # es) = (if hc_outcome (co_check e) = out then 1 else 0) + outcome_count out es"
  by (simp add: outcome_count_def)

lemma basis_fold:
  "ba_ran (foldl basis_step acc es) = ba_ran acc + outcome_count OutOk es + outcome_count OutFailed es \<and>
   ba_unknown (foldl basis_step acc es) = ba_unknown acc + outcome_count OutUnknown es \<and>
   ba_off (foldl basis_step acc es) = ba_off acc + outcome_count OutOff es \<and>
   ba_na (foldl basis_step acc es) = ba_na acc + outcome_count OutNotApplicable es"
proof (induction es arbitrary: acc)
  case (Cons e es)
  have step: "ba_ran (basis_step acc e) = ba_ran acc + outcome_count OutOk [e] + outcome_count OutFailed [e] \<and>
    ba_unknown (basis_step acc e) = ba_unknown acc + outcome_count OutUnknown [e] \<and>
    ba_off (basis_step acc e) = ba_off acc + outcome_count OutOff [e] \<and>
    ba_na (basis_step acc e) = ba_na acc + outcome_count OutNotApplicable [e]"
    by (cases "hc_outcome (co_check e)") (simp_all add: basis_step_def Let_def outcome_count_def)
  show ?case
    using Cons [of "basis_step acc e"] step
    unfolding foldl_Cons outcome_count_Cons [of _ e es] outcome_count_Cons [of _ e "[]"]
    by (simp add: outcome_count_def)
qed (simp add: outcome_count_def)

lemma outcome_partition:
  "outcome_count OutOk es + outcome_count OutFailed es + outcome_count OutUnknown es
     + outcome_count OutOff es + outcome_count OutNotApplicable es = length es"
proof (induction es)
  case (Cons e es)
  then show ?case by (cases "hc_outcome (co_check e)") (simp_all add: outcome_count_def)
qed (simp add: outcome_count_def)

lemma outcome_count_0: "outcome_count out es = 0 \<longleftrightarrow> (\<forall>e \<in> set es. hc_outcome (co_check e) \<noteq> out)"
  by (auto simp: outcome_count_def filter_empty_conv)

lemma basis_counts:
  assumes "basis_over es = Some b"
  shows "hb_ran b = outcome_count OutOk es + outcome_count OutFailed es"
    and "hb_unknown b = outcome_count OutUnknown es"
    and "hb_eligible b = hb_ran b + hb_unknown b"
    and "hb_eligible b + hb_off b + hb_not_applicable b = length es"
  using assms outcome_partition [of es] by (auto simp: basis_over_def Let_def basis_fold)

section \<open>Done is earned\<close>

text \<open>A check the app evaluates for a project: switched on, granted, applicable.\<close>

definition check_on :: "index_db \<Rightarrow> int \<Rightarrow> debt_source \<Rightarrow> bool" where
  "check_on db p s \<longleftrightarrow>
     (case db_meta db (switch_key s) of None \<Rightarrow> True | Some v \<Rightarrow> v = ''1'') \<and>
     (needs_grant s \<longrightarrow> db_meta db ''content_scan_enabled'' = Some ''1'') \<and>
     \<not> source_not_applicable s (Option.bind (project_of db p) pc_archetype) (stored_user_na db p)"

lemma ALL_SOURCES_set [simp]: "set ALL_SOURCES = UNIV"
proof -
  have "s \<in> set ALL_SOURCES" for s by (cases s) (simp_all add: ALL_SOURCES_def)
  then show ?thesis by blast
qed

lemma switches_cover: "map cs_check (read_switches db) = ALL_SOURCES"
  by (simp add: read_switches_def comp_def)

lemma observe_check_id [simp]: "hc_id (co_check (observe_check sh pp sw)) = cs_check sw"
  by (simp add: observe_check_def check_for_def Let_def split: prod.splits)

lemma observe_check_outcome:
  "hc_outcome (co_check (observe_check sh pp sw)) =
     (if \<not> cs_enabled sw \<or> (needs_grant (cs_check sw) \<and> \<not> sh_granted sh) then OutOff
      else if source_not_applicable (cs_check sw) (pf_archetype (pp_facts pp)) (pp_user_na pp) then OutNotApplicable
      else if (case pp_counts pp (cs_check sw) of Some c \<Rightarrow> fst c | None \<Rightarrow> 0) > 0 then OutFailed
      else if map_option fst (pp_sweeps pp (cs_check sw)) = Some SwComplete \<and>
              (case pp_counts pp (cs_check sw) of Some c \<Rightarrow> snd c | None \<Rightarrow> 0) = 0 then OutOk
      else OutUnknown)"
  by (auto simp: observe_check_def check_for_def outcome_for_def Let_def split: option.splits prod.splits)

lemma per_project_facts:
  assumes "per_project_for db p = Inr pp"
  shows "\<exists>c. project_of db p = Some c \<and> pp_facts pp = facts_of c"
    and "pp_sweeps pp = sweeps_for db p" "pp_counts pp = item_counts_for db p"
    and "pp_user_na pp = stored_user_na db p"
  using assms
  by (auto simp: per_project_for_def project_facts_for_def split: sum.splits option.splits)

definition scored_open_items :: "index_db \<Rightarrow> int \<Rightarrow> debt_source \<Rightarrow> debt_row set" where
  "scored_open_items db p s = {r \<in> set (db_items db). di_project r = p \<and> dk_source (di_key r) = s \<and>
     di_state r = ItemOpen \<and> di_scoring r = Scored}"

definition unverified_items :: "index_db \<Rightarrow> int \<Rightarrow> debt_source \<Rightarrow> debt_row set" where
  "unverified_items db p s = {r \<in> set (db_items db). di_project r = p \<and> dk_source (di_key r) = s \<and>
     di_state r = ItemUnverified}"

lemma no_open_items:
  "(case item_counts_for db p s of Some c \<Rightarrow> fst c | None \<Rightarrow> 0) = 0 \<longleftrightarrow> scored_open_items db p s = {}"
  "(case item_counts_for db p s of Some c \<Rightarrow> snd c | None \<Rightarrow> 0) = 0 \<longleftrightarrow> unverified_items db p s = {}"
  by (auto simp: item_counts_for_def count_items_def scored_open_items_def unverified_items_def
      filter_empty_conv split: if_splits)

lemma check_on_switch:
  assumes "per_project_for db p = Inr pp" and "sw \<in> set (read_switches db)"
  shows "in_eligible (hc_outcome (co_check (observe_check (load_shared db) pp sw))) \<longleftrightarrow> check_on db p (cs_check sw)"
proof -
  obtain c where "project_of db p = Some c" "pp_facts pp = facts_of c"
    using per_project_facts(1) [OF assms(1)] by blast
  then show ?thesis
    using assms(2) per_project_facts(2-4) [OF assms(1)]
    by (auto simp: observe_check_outcome check_on_def load_shared_def read_switches_def facts_of_def)
qed

lemma lifecycle_done:
  assumes "lifecycle_of r archived c = LcDone"
  obtains b where "hr_state r = HLive" and "hr_basis r = Some b" and "hb_ran b = hb_eligible b"
    and "hb_ran b > 0" and "hr_scored_open r = Some 0"
  using assms by (auto simp: lifecycle_of_def split: if_splits option.splits)

lemma reading_live:
  assumes "reading_from sh pp = (r, hidden)" and "hr_state r \<noteq> HAbsent" and "hr_state r \<noteq> HSuppressed"
  shows "hr_basis r = basis_over (fst (observe_checks sh pp))"
    and "hr_scored_open r = map_option (\<lambda>_. snd (observe_checks sh pp)) (hr_basis r)"
    and "hr_checks r = map co_check (fst (observe_checks sh pp))"
  using assms by (auto simp: reading_from_def Let_def split: prod.splits if_splits)

text \<open>
  C33: done is earned. A project whose lifecycle verdict is Done has a live reading with nothing
  open and nothing unknown, at least one check that is switched on, granted and applicable, and
  for every such check a complete sweep, no scored open item and no unverified one.
\<close>

theorem done_is_earned:
  assumes "summary_for db p = Inr (s, LcDone)"
  shows "hs_state s = HLive \<and> hs_scored_open s = Some 0 \<and> hs_unknown_checks s = Some 0 \<and>
    (\<exists>src. check_on db p src) \<and>
    (\<forall>src. check_on db p src \<longrightarrow>
       (\<exists>at. sweeps_for db p src = Some (SwComplete, at)) \<and>
       scored_open_items db p src = {} \<and> unverified_items db p src = {})"
proof -
  obtain pp where pp: "per_project_for db p = Inr pp" "project_summary (load_shared db) pp = (s, LcDone)"
    using assms by (auto simp: summary_for_def split: sum.splits)
  obtain r hidden where r: "reading_from (load_shared db) pp = (r, hidden)" by (cases "reading_from (load_shared db) pp")
  let ?entries = "fst (observe_checks (load_shared db) pp)"
  have verdict: "lifecycle_of r (pf_is_archived (pp_facts pp)) (pp_condition pp) = LcDone"
    and s: "hs_state s = hr_state r" "hs_scored_open s = hr_scored_open r"
      "hs_unknown_checks s = map_option hb_unknown (hr_basis r)"
    using pp(2) r by (auto simp: project_summary_def flatten_reading_def Let_def)
  from verdict obtain b where b: "hr_state r = HLive" "hr_basis r = Some b" "hb_ran b = hb_eligible b"
    "hb_ran b > 0" "hr_scored_open r = Some 0" by (rule lifecycle_done)
  have live: "basis_over ?entries = Some b" using reading_live(1) [OF r] b(1,2) by simp
  have nothing_open: "snd (observe_checks (load_shared db) pp) = 0"
    using reading_live(2) [OF r] b(1,2,5) by simp
  have entries: "?entries = map (observe_check (load_shared db) pp) (read_switches db)"
    by (simp add: observe_checks_def Let_def load_shared_def)
  have no_unknown: "hb_unknown b = 0" using b(3) basis_counts(3) [OF live] by simp
  then have unknown: "\<forall>e \<in> set ?entries. hc_outcome (co_check e) \<noteq> OutUnknown"
    using basis_counts(2) [OF live] by (simp add: outcome_count_0)
  have clean: "(case pp_counts pp (hc_id (co_check e)) of Some c \<Rightarrow> fst c | None \<Rightarrow> 0) = 0"
    if "e \<in> set ?entries" "in_eligible (hc_outcome (co_check e))" for e
    using nothing_open that unfolding observe_checks_def Let_def by (auto simp: load_shared_def)
  have each: "(\<exists>at. sweeps_for db p src = Some (SwComplete, at)) \<and>
      scored_open_items db p src = {} \<and> unverified_items db p src = {}" if on: "check_on db p src" for src
  proof -
    obtain sw where sw: "sw \<in> set (read_switches db)" "cs_check sw = src"
      using switches_cover [of db] ALL_SOURCES_set by (metis UNIV_I in_set_conv_nth length_map nth_map nth_mem)
    let ?e = "observe_check (load_shared db) pp sw"
    have e: "?e \<in> set ?entries" "in_eligible (hc_outcome (co_check ?e))"
      using sw on check_on_switch [OF pp(1) sw(1)] by (simp_all add: entries)
    then have "hc_outcome (co_check ?e) = OutOk"
      using unknown clean [OF e] sw(2)
      by (cases "hc_outcome (co_check ?e)") (auto simp: observe_check_outcome split: if_splits)
    then show ?thesis
      using clean [OF e] sw(2) per_project_facts(2,3) [OF pp(1)]
      by (auto simp: observe_check_outcome no_open_items split: if_splits)
  qed
  have "outcome_count OutOk ?entries + outcome_count OutFailed ?entries > 0"
    using b(4) basis_counts(1) [OF live] by simp
  then have "\<exists>e \<in> set ?entries. in_eligible (hc_outcome (co_check e))"
    by (metis outcome_count_0 add.right_neutral in_eligible.simps(1,2) less_numeral_extra(3))
  then obtain sw where "sw \<in> set (read_switches db)"
    "in_eligible (hc_outcome (co_check (observe_check (load_shared db) pp sw)))" by (auto simp: entries)
  then have "\<exists>src. check_on db p src" using check_on_switch [OF pp(1)] by blast
  with each s b no_unknown show ?thesis by simp
qed

text \<open>An acknowledged project on a present copy, every check swept clean but the markers', which
  wait for their grant.\<close>

definition done_db :: index_db where
  "done_db = small_db\<lparr>
     db_projects := [blank_project\<lparr>pc_acknowledged_at := Some 2, pc_authored_by_user := Some 1\<rparr>],
     db_sweeps := (\<lambda>_ s. if s = TodoMarker then None else Some \<lparr>sw_outcome = SwComplete, sw_location = Some 1,
       sw_generation = None, sw_basis = Some BHead, sw_item_count = Some 0, sw_observed_at = 3\<rparr>)\<rparr>"

lemma done_is_earned_witness:
  "\<exists>s. summary_for done_db 1 = Inr (s, LcDone) \<and> hs_state s = HLive \<and>
     scored_open_items done_db 1 MissingReadme = {}"
proof -
  have "(case summary_for done_db 1 of Inr (_, l) \<Rightarrow> l = LcDone | Inl _ \<Rightarrow> False)" by code_simp
  then obtain s where s: "summary_for done_db 1 = Inr (s, LcDone)" by (auto split: sum.splits)
  moreover have "check_on done_db 1 MissingReadme" by code_simp
  ultimately show ?thesis using done_is_earned [OF s] by blast
qed

lemma shelf_and_page_read_one_summary_witness:
  "\<exists>summaries. summaries_for_all done_db = Inr summaries \<and>
     summaries 1 = (case summary_for done_db 1 of Inl _ \<Rightarrow> None | Inr s \<Rightarrow> Some s) \<and> summaries 1 \<noteq> None"
proof -
  have "(case summaries_for_all done_db of Inr m \<Rightarrow> m 1 \<noteq> None | Inl _ \<Rightarrow> False)" by code_simp
  then obtain m where m: "summaries_for_all done_db = Inr m" "m 1 \<noteq> None" by (auto split: sum.splits)
  with shelf_and_page_read_one_summary [OF m(1), of 1] show ?thesis by blast
qed

section \<open>Off hides\<close>

text \<open>The patch writes the settings it names, drops the sweeps of what it turns off, and touches
  nothing else: the items of a check that is off are all still there.\<close>

lemma write_switches_items [simp]:
  "db_items (write_switches db ss) = db_items db"
  "db_projects (write_switches db ss) = db_projects db"
  "db_locations (write_switches db ss) = db_locations db"
  "db_checks (write_switches db ss) = db_checks db"
  by (induction ss arbitrary: db) (simp_all add: Let_def)

lemma switch_key_inj: "switch_key a = switch_key b \<longleftrightarrow> a = b"
  by (cases a; cases b) (simp_all add: switch_key_def)

lemma toggled_check_waits:
  assumes "switch_off = write_switches db [\<lparr>cs_check = c, cs_enabled = False\<rparr>]"
    and "back = write_switches switch_off [\<lparr>cs_check = c, cs_enabled = True\<rparr>]"
  shows "db_items back = db_items db" "sweeps_for back p c = None" "item_counts_for back p c = item_counts_for db p c"
    and "s \<noteq> c \<Longrightarrow> sweeps_for back p s = sweeps_for db p s"
  using assms by (simp_all add: sweeps_for_def item_counts_for_def [abs_def])

text \<open>A check switched back on is said to be unknown until it next runs; one whose items are still
  open is failed at once.\<close>

definition with_item :: index_db where
  "with_item = done_db\<lparr>db_items := [\<lparr>di_id = 1, di_project = 1,
     di_key = \<lparr>dk_subject = ''s'', dk_source = MissingReadme, dk_fingerprint = []\<rparr>,
     di_state = ItemOpen, di_scoring = Scored, di_location = Some 1, di_basis = Some BHead,
     di_place = \<lparr>ip_path_bytes = None, ip_path_display = None, ip_line = None, ip_column = None,
       ip_salient = None\<rparr>, di_first_seen = 3, di_last_seen = 3\<rparr>]\<rparr>"

lemma back_on_may_fail_unswept:
  "(case reading_and_hidden
      (write_switches (write_switches with_item [\<lparr>cs_check = MissingReadme, cs_enabled = False\<rparr>])
        [\<lparr>cs_check = MissingReadme, cs_enabled = True\<rparr>]) 1 of
      Inr (r, _) \<Rightarrow> map hc_outcome (filter (\<lambda>c. hc_id c = MissingReadme) (hr_checks r)) = [OutFailed]
    | Inl _ \<Rightarrow> False)"
  by code_simp

end
