(* ===== verification/Derive.thy ===== *)
theory Derive
  imports Project_Tables
begin

text \<open>
  What the core derives from the copies of a project (\<open>derive/mod.rs\<close>, \<open>derive/condition.rs\<close>,
  \<open>derive/persist.rs\<close>, \<open>derive/description.rs\<close>): the two clocks, the dirty flag, the primary
  copy, the condition band, and the recompute that writes them. Row ids are positive, so negating
  one does not wrap.
\<close>

section \<open>Aggregation\<close>

record derive_facts =
  df_id :: int
  df_kind :: location_kind
  df_presence :: presence
  df_is_dirty :: "bool option"
  df_newest_mtime :: "int option"
  df_reflog_tail_at :: "int option"
  df_branch :: "string option"
  df_ahead :: "nat option"
  df_behind :: "nat option"

record aggregated =
  ag_last_touched_at :: "int option"
  ag_last_interaction_at :: "int option"
  ag_any_dirty :: "bool option"
  ag_primary :: "int option"

text \<open>The loop over the present copies: it stops at the first dirty one.\<close>

fun dirty_loop :: "bool option \<Rightarrow> derive_facts list \<Rightarrow> bool option" where
  "dirty_loop acc [] = acc"
| "dirty_loop acc (l # ls) =
     (case df_is_dirty l of
        Some True \<Rightarrow> Some True
      | Some False \<Rightarrow> dirty_loop (Some (case acc of Some b \<Rightarrow> b | None \<Rightarrow> False)) ls
      | None \<Rightarrow> dirty_loop acc ls)"

definition aggregate :: "bool \<Rightarrow> derive_facts list \<Rightarrow> int option \<Rightarrow> int option \<Rightarrow> aggregated" where
  "aggregate windows locations last_user_commit_at last_session_end_at =
     (let present = filter (\<lambda>l. df_presence l = PPresent) locations;
          worktree = foldl (\<lambda>acc l. max_opt acc (df_newest_mtime l)) None present;
          reflog = foldl (\<lambda>acc l. max_opt acc (df_reflog_tail_at l)) None present
      in \<lparr>ag_last_touched_at = max_opt (max_opt last_user_commit_at last_session_end_at) worktree,
          ag_last_interaction_at = max_opt (max_opt reflog last_session_end_at) worktree,
          ag_any_dirty = dirty_loop None present,
          ag_primary = map_option df_id
            (max_by_key (\<lambda>l. (df_newest_mtime l, is_native windows (df_kind l), - df_id l)) present)\<rparr>)"

section \<open>The condition band\<close>

definition DAY :: int where "DAY = 86400"

record band_inputs =
  bi_clock_at :: "int option"
  bi_now :: int
  bi_has_commits :: "bool option"
  bi_all_offline :: bool
  bi_any_job_succeeded :: bool

definition signal :: "band_inputs \<Rightarrow> condition option" where
  "signal i =
     (if \<not> bi_any_job_succeeded i then None
      else if bi_has_commits i = Some False then Some CEmpty
      else if bi_all_offline i then Some COffline
      else case bi_clock_at i of
        None \<Rightarrow> None
      | Some at \<Rightarrow>
          (let days = max (wrap_i64 (bi_now i - at)) 0 div DAY
           in Some (if days \<le> 7 then CLive
                    else if days \<le> 30 then CIdle
                    else if days \<le> 90 then CDormant
                    else if days \<le> 365 then CNeglected
                    else CAbandoned)))"

section \<open>The recompute\<close>

definition kind_of :: "string \<Rightarrow> location_kind" where
  "kind_of s = (case parse_kind s of Some k \<Rightarrow> k | None \<Rightarrow> KWin)"

definition presence_of :: "string \<Rightarrow> presence" where
  "presence_of s =
     (if s = ''offline'' then POffline
      else if s = ''missing'' then PMissing
      else if s = ''unscanned'' then PUnscanned
      else PPresent)"

definition derive_facts_of :: "location_cols \<Rightarrow> derive_facts" where
  "derive_facts_of l =
     \<lparr>df_id = lc_id l, df_kind = kind_of (lc_kind l), df_presence = presence_of (lc_presence l),
      df_is_dirty = map_option (\<lambda>v. v \<noteq> 0) (lc_is_dirty l),
      df_newest_mtime = lc_worktree_newest_mtime l, df_reflog_tail_at = lc_reflog_tail_at l,
      df_branch = lc_branch l, df_ahead = Option.bind (lc_ahead l) u32_try,
      df_behind = Option.bind (lc_behind l) u32_try\<rparr>"

definition load_location_facts :: "index_db \<Rightarrow> int \<Rightarrow> derive_facts list" where
  "load_location_facts db p = map derive_facts_of (sort_key lc_id (locations_for db p))"

record recomputed =
  rc_aggregated :: aggregated
  rc_signal :: "condition option"
  rc_material :: "condition option"
  rc_changed :: bool

text \<open>\<open>SELECT MAX(ended_at)\<close> skips the open sessions.\<close>

definition last_session_end :: "index_db \<Rightarrow> int \<Rightarrow> int option" where
  "last_session_end db p =
     foldl max_opt None (map snd (filter (\<lambda>s. fst s = p) (db_sessions db)))"

definition job_done :: "index_db \<Rightarrow> int \<Rightarrow> job_kind \<Rightarrow> bool" where
  "job_done db p k = (case db_jobs db (p, k) of Some row \<Rightarrow> row_state row = Done | None \<Rightarrow> False)"

text \<open>An error, here \<open>None\<close>, is the read of a project that has no row.\<close>

definition recompute :: "bool \<Rightarrow> index_db \<Rightarrow> int \<Rightarrow> int \<Rightarrow> (recomputed \<times> index_db) option" where
  "recompute windows db p now =
     (let locations = load_location_facts db p
      in case project_of db p of
        None \<Rightarrow> None
      | Some cols \<Rightarrow>
          (let agg = aggregate windows locations (pc_last_user_commit_at cols) (last_session_end db p);
               has_commits =
                 (if job_done db p J4History then Some (pc_first_commit_at cols \<noteq> None) else None);
               any_job_succeeded = list_ex (job_done db p) ALL_KINDS;
               all_offline =
                 (locations \<noteq> [] \<and> list_all (\<lambda>l. df_presence l = POffline) locations);
               inputs = \<lparr>bi_clock_at = ag_last_interaction_at agg, bi_now = now,
                         bi_has_commits = has_commits, bi_all_offline = all_offline,
                         bi_any_job_succeeded = any_job_succeeded\<rparr>;
               sig = signal inputs;
               material = signal (inputs\<lparr>bi_clock_at := pc_last_commit_at cols\<rparr>);
               db' = update_project p
                 (\<lambda>c. c\<lparr>pc_last_touched_at := ag_last_touched_at agg,
                        pc_last_interaction_at := ag_last_interaction_at agg,
                        pc_condition_signal := map_option condition_slug sig,
                        pc_condition_material := map_option condition_slug material,
                        pc_updated_at := now\<rparr>) db
           in Some (\<lparr>rc_aggregated = agg, rc_signal = sig, rc_material = material,
                     rc_changed = (pc_condition_signal cols \<noteq> map_option condition_slug sig)\<rparr>, db')))"

section \<open>The description chain\<close>

definition is_badge :: "string \<Rightarrow> bool" where
  "is_badge line =
     (let t = trim line
      in starts_with ''[!['' t \<or> starts_with ''!['' t \<or>
         (starts_with ''['' t \<and> contains_sub t ''](http''))"

definition is_markup :: "string \<Rightarrow> bool" where
  "is_markup line = starts_with ''<'' (trim_start_by is_space line)"

definition first_sentence :: "string \<Rightarrow> string" where
  "first_sentence l = (case split_once_str ''. '' l of None \<Rightarrow> l | Some (s, _) \<Rightarrow> s @ ''.'')"

definition plain_line :: "string \<Rightarrow> bool" where
  "plain_line l \<longleftrightarrow> l \<noteq> [] \<and> \<not> is_badge l \<and> \<not> is_markup l \<and> \<not> starts_with ''#'' l"

definition readme_description :: "string \<Rightarrow> string option" where
  "readme_description readme =
     (let lines = str_lines readme;
          prose = map_option first_sentence (find plain_line (map trim lines))
      in case lines of
           h # n # _ \<Rightarrow>
             (if starts_with ''# '' (trim_start_by is_space h) \<and> plain_line (trim n)
              then Some (trim n) else prose)
         | _ \<Rightarrow> prose)"

definition synthesise :: "string option \<Rightarrow> string option \<Rightarrow> string option" where
  "synthesise primary_language archetype =
     (case (primary_language, archetype) of
        (Some lang, Some arch) \<Rightarrow>
          map_option (\<lambda>word. lang @ '' '' @ word)
            (if arch = ''cli'' then Some ''CLI''
             else if arch = ''library'' then Some ''library''
             else if arch = ''service'' then Some ''service''
             else if arch = ''site'' then Some ''site''
             else if arch = ''notebook'' then Some ''notebook''
             else if arch = ''docs'' then Some ''documentation''
             else if arch = ''config'' then Some ''configuration''
             else None)
      | _ \<Rightarrow> None)"

definition nonblank :: "string \<Rightarrow> string option" where
  "nonblank s = (if trim s \<noteq> [] then Some (trim s) else None)"

definition describe ::
  "string option \<Rightarrow> string option \<Rightarrow> string option \<Rightarrow> string option \<Rightarrow> string option \<Rightarrow> string option
   \<Rightarrow> (string \<times> description_source) option" where
  "describe manifest remote readme note primary_language archetype =
     (case Option.bind manifest nonblank of
        Some s \<Rightarrow> Some (s, SrcManifest)
      | None \<Rightarrow>
     (case Option.bind remote nonblank of
        Some s \<Rightarrow> Some (s, SrcRemote)
      | None \<Rightarrow>
     (case Option.bind readme readme_description of
        Some s \<Rightarrow> Some (s, SrcReadme)
      | None \<Rightarrow>
     (case Option.bind (Option.bind note (\<lambda>n. case str_lines n of [] \<Rightarrow> None | l # _ \<Rightarrow> Some l)) nonblank of
        Some s \<Rightarrow> Some (s, SrcNote)
      | None \<Rightarrow> map_option (\<lambda>s. (s, SrcDetected)) (synthesise primary_language archetype)))))"

section \<open>The clocks, the flag and the primary copy\<close>

lemma max_opt_eq: "max_opt = max"
  by (intro ext) (rule max_opt_mono)

lemma foldl_max_opt: "foldl max_opt a xs = Max (insert a (set xs))"
  unfolding max_opt_eq
proof (induction xs arbitrary: a)
  case (Cons x xs)
  have "Max (insert a (insert x (set xs))) = max a (Max (insert x (set xs)))"
    and "Max (insert (max a x) (set xs)) = max a (Max (insert x (set xs)))"
    by (cases "xs = []"; simp add: max.assoc)+
  with Cons show ?case by simp
qed simp

text \<open>The latest of a set of known times.\<close>

definition latest :: "int option set \<Rightarrow> int option" where
  "latest A = (let known = Option.these A in if known = {} then None else Some (Max known))"

lemma latest_is_Max:
  assumes "finite A" and "A \<noteq> {}"
  shows "latest A = Max A"
proof (cases "Option.these A = {}")
  case True
  then have "A = {None}" using assms(2) by (force simp: these_empty_eq)
  then show ?thesis by (simp add: latest_def)
next
  case False
  have fin: "finite (Option.these A)" using assms(1) by (simp add: Option.these_def)
  then have "Some (Max (Option.these A)) \<in> A" using Max_in [OF fin False] by (simp add: in_these_eq)
  moreover have "x \<le> Some (Max (Option.these A))" if "x \<in> A" for x
    using that fin by (cases x) (auto simp: in_these_eq intro!: Max_ge)
  ultimately have "Max A = Some (Max (Option.these A))" using assms(1) by (intro Max_eqI)
  with False show ?thesis by (simp add: latest_def Let_def)
qed

lemma dirty_loop_is:
  "dirty_loop acc ls =
     (if acc = Some True \<or> Some True \<in> df_is_dirty ` set ls then Some True
      else if acc = Some False \<or> Some False \<in> df_is_dirty ` set ls then Some False else None)"
proof (induction ls arbitrary: acc)
  case Nil
  then show ?case by (cases acc) auto
next
  case (Cons l ls)
  then show ?case by (cases "df_is_dirty l"; cases acc) (auto split: bool.splits)
qed

definition present_copies :: "derive_facts list \<Rightarrow> derive_facts set" where
  "present_copies ls = {l \<in> set ls. df_presence l = PPresent}"

definition primary_key :: "bool \<Rightarrow> derive_facts \<Rightarrow> int option \<times> bool \<times> int" where
  "primary_key windows l = (df_newest_mtime l, is_native windows (df_kind l), - df_id l)"

lemma aggregate_clocks:
  "ag_last_touched_at (aggregate windows ls commit session) =
     latest ({commit, session} \<union> df_newest_mtime ` present_copies ls)"
  "ag_last_interaction_at (aggregate windows ls commit session) =
     latest ({session} \<union> df_reflog_tail_at ` present_copies ls \<union> df_newest_mtime ` present_copies ls)"
proof -
  have P: "set (filter (\<lambda>l. df_presence l = PPresent) ls) = present_copies ls"
    by (auto simp: present_copies_def)
  have fin: "finite (present_copies ls)" by (simp add: P [symmetric])
  have fold: "foldl (\<lambda>acc l. max acc (f l)) None (filter (\<lambda>l. df_presence l = PPresent) ls)
      = Max (insert None (f ` present_copies ls))" for f :: "derive_facts \<Rightarrow> int option"
    using foldl_max_opt [of None "map f (filter (\<lambda>l. df_presence l = PPresent) ls)"]
    by (simp only: max_opt_eq foldl_map set_map P)
  have drop: "max x (Max (insert None A)) = Max (insert x A)" if "finite A"
    for x :: "int option" and A
    using that by (cases "A = {}") simp_all
  show "ag_last_touched_at (aggregate windows ls commit session) =
      latest ({commit, session} \<union> df_newest_mtime ` present_copies ls)"
    using fin by (subst latest_is_Max) (auto simp: aggregate_def Let_def fold max_opt_eq max.assoc drop)
  have "max (max (Max (insert None A)) x) (Max (insert None B)) = Max (insert x (A \<union> B))"
    if "finite A" "finite B" for x :: "int option" and A B
    using that by (cases "A = {}"; cases "B = {}") (simp_all add: Max_Un max.left_commute max.commute)
  then show "ag_last_interaction_at (aggregate windows ls commit session) =
      latest ({session} \<union> df_reflog_tail_at ` present_copies ls \<union> df_newest_mtime ` present_copies ls)"
    using fin by (subst latest_is_Max) (auto simp: aggregate_def Let_def fold max_opt_eq)
qed

lemma aggregate_primary:
  "ag_primary (aggregate windows ls commit session) =
     (if present_copies ls = {} then None
      else Some (- snd (snd (Max (primary_key windows ` present_copies ls)))))"
proof -
  have P: "set (filter (\<lambda>l. df_presence l = PPresent) ls) = present_copies ls"
    by (auto simp: present_copies_def)
  show ?thesis
  proof (cases "max_by_key (primary_key windows) (filter (\<lambda>l. df_presence l = PPresent) ls)")
    case None
    then have "present_copies ls = {}" by (simp add: P [symmetric])
    with None show ?thesis by (simp add: aggregate_def Let_def primary_key_def)
  next
    case (Some m)
    from max_by_key_Some [OF Some] have m: "m \<in> present_copies ls"
      "\<forall>x \<in> present_copies ls. primary_key windows x \<le> primary_key windows m"
      unfolding P by blast+
    have "finite (present_copies ls)" by (simp add: P [symmetric])
    with m have "Max (primary_key windows ` present_copies ls) = primary_key windows m"
      by (intro Max_eqI) auto
    with m(1) Some show ?thesis
      by (auto simp: aggregate_def Let_def primary_key_def [abs_def])
  qed
qed

text \<open>
  C40: what the core derives from the copies of a project. Both clocks are the latest of what is
  known, the worktree's newest file among it in both; only the copies that are present count; the
  dirty flag is three-valued, dirty if one is, clean if one was looked at and none is dirty,
  unknown if none was looked at; and the primary copy is the present one with the newest worktree,
  ties to the native side and then to the lowest id.
\<close>

theorem aggregate_exact:
  "aggregate windows ls commit session =
     \<lparr>ag_last_touched_at = latest ({commit, session} \<union> df_newest_mtime ` present_copies ls),
      ag_last_interaction_at =
        latest ({session} \<union> df_reflog_tail_at ` present_copies ls \<union> df_newest_mtime ` present_copies ls),
      ag_any_dirty =
        (if Some True \<in> df_is_dirty ` present_copies ls then Some True
         else if Some False \<in> df_is_dirty ` present_copies ls then Some False else None),
      ag_primary =
        (if present_copies ls = {} then None
         else Some (- snd (snd (Max (primary_key windows ` present_copies ls)))))\<rparr>"
proof -
  have "ag_any_dirty (aggregate windows ls commit session) =
      (if Some True \<in> df_is_dirty ` present_copies ls then Some True
       else if Some False \<in> df_is_dirty ` present_copies ls then Some False else None)"
    by (auto simp: aggregate_def Let_def dirty_loop_is present_copies_def)
  then show ?thesis
    using aggregate_clocks [of windows ls commit session] aggregate_primary [of windows ls commit session]
    by (cases "aggregate windows ls commit session") simp
qed

section \<open>The band\<close>

text \<open>The ladder is the number of whole days since the clock, none of them before it.\<close>

fun ladder_rank :: "condition \<Rightarrow> nat" where
  "ladder_rank CLive = 0"
| "ladder_rank CIdle = 1"
| "ladder_rank CDormant = 2"
| "ladder_rank CNeglected = 3"
| "ladder_rank CAbandoned = 4"
| "ladder_rank COffline = 5"
| "ladder_rank CEmpty = 6"

lemma band_only_decays:
  assumes "in_i64 (bi_now i - at)" and "in_i64 (now - at)" and "bi_now i \<le> now"
    and "bi_clock_at i = Some at" and "signal i = Some c" and "signal (i\<lparr>bi_now := now\<rparr>) = Some c'"
  shows "ladder_rank c \<le> ladder_rank c'"
proof -
  have "max (bi_now i - at) 0 div DAY \<le> max (now - at) 0 div DAY"
    using assms(3) by (intro zdiv_mono1) (simp_all add: DAY_def)
  then show ?thesis
    using assms by (auto simp: signal_def sat_simps Let_def split: if_splits)
qed

lemma band_known:
  "signal i = None \<longleftrightarrow>
     \<not> bi_any_job_succeeded i \<or>
     bi_has_commits i \<noteq> Some False \<and> \<not> bi_all_offline i \<and> bi_clock_at i = None"
  by (auto simp: signal_def Let_def split: option.splits if_splits)

section \<open>Recomputing settles\<close>

lemma recompute_unfold:
  assumes "recompute windows db p now = Some (r, db')"
  obtains cols where "project_of db p = Some cols"
    and "rc_aggregated r = aggregate windows (load_location_facts db p)
           (pc_last_user_commit_at cols) (last_session_end db p)"
    and "db' = update_project p
           (\<lambda>c. c\<lparr>pc_last_touched_at := ag_last_touched_at (rc_aggregated r),
                  pc_last_interaction_at := ag_last_interaction_at (rc_aggregated r),
                  pc_condition_signal := map_option condition_slug (rc_signal r),
                  pc_condition_material := map_option condition_slug (rc_material r),
                  pc_updated_at := now\<rparr>) db"
  using assms by (auto simp: recompute_def Let_def split: option.splits)

lemma update_twice:
  assumes "\<And>c. pc_id (f c) = pc_id c" and "\<And>c. f (f c) = f c"
  shows "update_project p f (update_project p f db) = update_project p f db"
  using assms by (simp add: update_project_def)

text \<open>
  A recompute settles. Run again at the same instant it derives the same clocks, bands and
  primary copy, writes the same row and reports that the condition did not change; the first run
  reports a change exactly when the stored band is not the one it derives; and no other project's
  row, and no other table, is written.
\<close>

theorem recompute_settles:
  assumes "recompute windows db p now = Some (r, db')"
  shows "recompute windows db' p now = Some (r\<lparr>rc_changed := False\<rparr>, db') \<and>
    rc_changed r = (map_option pc_condition_signal (project_of db p)
                      \<noteq> map_option pc_condition_signal (project_of db' p)) \<and>
    (\<forall>q. q \<noteq> p \<longrightarrow> project_of db' q = project_of db q) \<and>
    db'\<lparr>db_projects := db_projects db\<rparr> = db"
proof -
  obtain cols where c: "project_of db p = Some cols"
    and db': "db' = update_project p
           (\<lambda>c. c\<lparr>pc_last_touched_at := ag_last_touched_at (rc_aggregated r),
                  pc_last_interaction_at := ag_last_interaction_at (rc_aggregated r),
                  pc_condition_signal := map_option condition_slug (rc_signal r),
                  pc_condition_material := map_option condition_slug (rc_material r),
                  pc_updated_at := now\<rparr>) db" (is "_ = update_project p ?f db")
    using assms by (rule recompute_unfold)
  have kept: "last_session_end db' p = last_session_end db p" "job_done db' p = job_done db p"
    "load_location_facts db' p = load_location_facts db p"
    by (simp_all add: db' last_session_end_def job_done_def [abs_def] load_location_facts_def)
  have row: "project_of db' q = map_option (\<lambda>c. if q = p then ?f c else c) (project_of db q)" for q
    unfolding db' by (rule project_of_update) simp
  have "update_project p ?f db' = db'" unfolding db' by (rule update_twice) simp_all
  with assms c row [of p] have "recompute windows db' p now = Some (r\<lparr>rc_changed := False\<rparr>, db')"
    by (auto simp: recompute_def Let_def kept split: option.splits)
  moreover have "rc_changed r = (pc_condition_signal cols \<noteq> map_option condition_slug (rc_signal r))"
    using assms c by (auto simp: recompute_def Let_def)
  moreover have "db'\<lparr>db_projects := db_projects db\<rparr> = db" by (simp add: db' update_project_def)
  ultimately show ?thesis using c row by (auto simp: option.map_ident)
qed

lemma recompute_settles_witness:
  "\<exists>r db'. recompute False small_db 1 1000000 = Some (r, db') \<and> rc_changed r \<and>
     recompute False db' 1 1000000 = Some (r\<lparr>rc_changed := False\<rparr>, db')"
proof -
  have "map_option (\<lambda>(r, _). rc_changed r) (recompute False small_db 1 1000000) = Some True"
    by code_simp
  then obtain r db' where r: "recompute False small_db 1 1000000 = Some (r, db')" "rc_changed r"
    by auto
  with recompute_settles [OF r(1)] show ?thesis by blast
qed

end
