(* ===== verification/Shelf_Rows.thy ===== *)
theory Shelf_Rows
  imports Health Derive "HOL-Library.Multiset"
begin

text \<open>
  The rows of the shelf (\<open>projects/rows.rs\<close>, \<open>projects/current.rs\<close>, \<open>projects/flags.rs\<close>):
  a copy decoded from its columns, the primary copy, the folds over the copies that are live, the
  wire row of a project, and the two loaders, of the whole shelf and of one page. Row ids are
  positive, so negating one does not wrap.
\<close>

section \<open>Copies\<close>

record location_facts =
  lf_id :: int
  lf_project :: int
  lf_kind :: location_kind
  lf_distro :: string
  lf_path_display :: string
  lf_presence :: presence
  lf_branch :: "string option"
  lf_is_dirty :: "bool option"
  lf_untracked_count :: "int option"
  lf_ahead :: "int option"
  lf_behind :: "int option"
  lf_stash_count :: "int option"
  lf_interrupted_op :: "interrupted_op option"
  lf_head_oid :: "string option"
  lf_trusted_at :: "int option"
  lf_fetch_head_at :: "int option"
  lf_refstate_observed_at :: "int option"
  lf_worktree_observed_at :: "int option"
  lf_worktree_newest_mtime :: "int option"
  lf_last_seen_at :: "int option"
  lf_removed_at :: "int option"

definition ALL_KINDS_OF_PLACE :: "location_kind list" where "ALL_KINDS_OF_PLACE = [KWin, KLinux, KWsl]"

definition ALL_OPS :: "interrupted_op list" where
  "ALL_OPS = [OpMerge, OpRebase, OpCherryPick, OpRevert, OpBisect, OpAm]"

text \<open>One \<open>location\<close> row, its display path not yet filled.\<close>

definition map_location :: "location_cols \<Rightarrow> projects_error + location_facts" where
  "map_location r =
     (case column kind_str ALL_KINDS_OF_PLACE (lc_kind r) ''location.kind'' of
        Inl e \<Rightarrow> Inl e
      | Inr kind \<Rightarrow>
     (case column presence_str ALL_PRESENCES (lc_presence r) ''location.presence'' of
        Inl e \<Rightarrow> Inl e
      | Inr presence \<Rightarrow>
     (case optional_column op_str ALL_OPS (lc_interrupted_op r) ''location.interrupted_op'' of
        Inl e \<Rightarrow> Inl e
      | Inr op \<Rightarrow>
          Inr \<lparr>lf_id = lc_id r, lf_project = lc_project r, lf_kind = kind, lf_distro = lc_distro r,
               lf_path_display = [], lf_presence = presence, lf_branch = lc_branch r,
               lf_is_dirty = map_option (\<lambda>v. v \<noteq> 0) (lc_is_dirty r),
               lf_untracked_count = lc_untracked_count r, lf_ahead = lc_ahead r,
               lf_behind = lc_behind r, lf_stash_count = lc_stash_count r, lf_interrupted_op = op,
               lf_head_oid = lc_head_oid r, lf_trusted_at = lc_trusted_at r,
               lf_fetch_head_at = lc_fetch_head_at r,
               lf_refstate_observed_at = lc_refstate_observed_at r,
               lf_worktree_observed_at = lc_worktree_observed_at r,
               lf_worktree_newest_mtime = lc_worktree_newest_mtime r,
               lf_last_seen_at = lc_last_seen_at r, lf_removed_at = lc_removed_at r\<rparr>)))"

text \<open>\<open>display_paths_for_ui\<close> reads the column by row id.\<close>

definition fill_display_paths :: "index_db \<Rightarrow> location_facts list \<Rightarrow> location_facts list" where
  "fill_display_paths db ls =
     map (\<lambda>l. case map_of (map (\<lambda>c. (lc_id c, lc_path_display c)) (db_locations db)) (lf_id l) of
            Some t \<Rightarrow> l\<lparr>lf_path_display := t\<rparr>
          | None \<Rightarrow> l) ls"

definition locations_of :: "index_db \<Rightarrow> int \<Rightarrow> projects_error + location_facts list" where
  "locations_of db p =
     (case sequence_results (map map_location (locations_for db p)) of
        Inl e \<Rightarrow> Inl e
      | Inr ls \<Rightarrow> Inr (fill_display_paths db ls))"

definition locations_by_project :: "index_db \<Rightarrow> projects_error + (int \<Rightarrow> location_facts list option)" where
  "locations_by_project db =
     (case sequence_results (map map_location (db_locations db)) of
        Inl e \<Rightarrow> Inl e
      | Inr ls \<Rightarrow> Inr (group_by lf_project (\<lambda>l. l) (fill_display_paths db ls)))"

definition live_key :: "bool \<Rightarrow> location_facts \<Rightarrow> int \<times> int \<times> int \<times> int \<times> int" where
  "live_key windows l =
     (if lf_removed_at l = None then 1 else 0, if lf_presence l = PPresent then 1 else 0,
      case lf_worktree_newest_mtime l of Some t \<Rightarrow> t | None \<Rightarrow> i64_min,
      if is_native windows (lf_kind l) then 1 else 0, - lf_id l)"

definition pick_primary :: "bool \<Rightarrow> location_facts list \<Rightarrow> location_facts option" where
  "pick_primary windows ls = max_by_key (live_key windows) ls"

definition is_live :: "location_facts \<Rightarrow> bool" where
  "is_live l \<longleftrightarrow> lf_removed_at l = None \<and> lf_presence l = PPresent"

fun any_dirty_loop :: "bool \<Rightarrow> location_facts list \<Rightarrow> bool option" where
  "any_dirty_loop observed [] = (if observed then Some False else None)"
| "any_dirty_loop observed (l # ls) =
     (case lf_is_dirty l of
        Some True \<Rightarrow> Some True
      | Some False \<Rightarrow> any_dirty_loop True ls
      | None \<Rightarrow> any_dirty_loop observed ls)"

definition any_present_dirty :: "location_facts list \<Rightarrow> bool option" where
  "any_present_dirty ls = any_dirty_loop False (filter is_live ls)"

text \<open>\<open>Iterator::max\<close>, nothing for an empty one.\<close>

definition max_present :: "(location_facts \<Rightarrow> int option) \<Rightarrow> location_facts list \<Rightarrow> int option" where
  "max_present f ls = foldl max_opt None (map f (filter is_live ls))"

section \<open>The wire row\<close>

record project_row =
  pr_id :: int
  pr_name :: string
  pr_owner :: "string option"
  pr_description :: "string option"
  pr_description_source :: "description_source option"
  pr_birth_year :: "nat option"
  pr_primary_language :: "string option"
  pr_archetype :: "string option"
  pr_seed_basename :: string
  pr_reroll_offset :: nat
  pr_art_scene_hash :: "string option"
  pr_art_state :: art_state
  pr_condition_signal :: "condition option"
  pr_completion_lit :: "nat option"
  pr_completion_applicable :: "nat option"
  pr_is_pinned :: bool
  pr_is_archived :: bool
  pr_is_hidden :: bool
  pr_is_reference :: bool
  pr_authored_by_user :: "bool option"
  pr_is_fork :: bool
  pr_is_bare :: bool
  pr_is_shallow :: bool
  pr_is_submodule :: bool
  pr_ambiguous_lineage :: bool
  pr_last_touched_at :: int
  pr_last_interaction_at :: "int option"
  pr_last_commit_at :: "int option"
  pr_last_commit_subject :: "string option"
  pr_first_commit_at :: "int option"
  pr_created_at :: int
  pr_acknowledged_at :: "int option"
  pr_size_tracked_bytes :: "int option"
  pr_tracked_files :: "int option"
  pr_collection_ids :: "int list"
  pr_primary_location :: "(int \<times> string) option"
  pr_presence :: "presence option"
  pr_has_remote :: bool
  pr_branch :: "string option"
  pr_is_dirty :: "bool option"
  pr_untracked_count :: "nat option"
  pr_ahead :: "nat option"
  pr_behind :: "nat option"
  pr_stash_count :: "nat option"
  pr_interrupted_op :: "interrupted_op option"
  pr_fetch_head_at :: "int option"
  pr_refstate_observed_at :: "int option"
  pr_worktree_observed_at :: "int option"
  pr_error_kind :: "string option"
  pr_error_at :: "int option"
  pr_era_section_id :: string
  pr_health_summary :: health_summary
  pr_lifecycle :: lifecycle

record row_facts =
  rf_authored_by_user :: "bool option"
  rf_location_kind :: "location_kind option"
  rf_distro :: "string option"
  rf_has_remote :: bool
  rf_has_submodules :: bool
  rf_has_readme :: "bool option"
  rf_content_presence :: "presence_answers option"

record loaded_row =
  lr_row :: project_row
  lr_facts :: row_facts

definition count_u32 :: "int option \<Rightarrow> nat option" where
  "count_u32 v = Option.bind v u32_try"

definition content_presence :: "(string \<times> string \<times> string \<times> string) option \<Rightarrow> presence_answers option" where
  "content_presence scan =
     (case scan of
        None \<Rightarrow> None
      | Some (readme, license, tests, ci) \<Rightarrow>
          (let state = (\<lambda>raw. case presence_from_slug raw of Some s \<Rightarrow> s | None \<Rightarrow> SNotRead)
           in Some \<lparr>pa_readme = state readme, pa_license = state license, pa_tests = state tests,
                    pa_ci = state ci\<rparr>))"

definition ALL_DESCRIPTION_SOURCES :: "description_source list" where
  "ALL_DESCRIPTION_SOURCES = [SrcManifest, SrcReadme, SrcNote, SrcDetected, SrcRemote]"

definition ALL_ART_STATES :: "art_state list" where
  "ALL_ART_STATES = [ArtPending, ArtReady, ArtFailed, ArtStale]"

definition no_health :: health_summary where
  "no_health = \<lparr>hs_state = HAbsent, hs_scored_open = None, hs_unverified = None,
     hs_unknown_checks = None, hs_observed_at = None\<rparr>"

definition birth_year_of :: "int option \<Rightarrow> int option \<Rightarrow> nat option" where
  "birth_year_of first_commit_at tz =
     Option.bind first_commit_at (\<lambda>at. u32_try (local_year at (i32_of 0 (case tz of Some t \<Rightarrow> t | None \<Rightarrow> 0))))"

definition wire_row ::
  "bool \<Rightarrow> project_cols \<Rightarrow> location_facts list \<Rightarrow> int list \<Rightarrow> description_source option
   \<Rightarrow> art_state \<Rightarrow> condition option \<Rightarrow> string option \<Rightarrow> project_row" where
  "wire_row windows r ls collection_ids source art sig error_kind =
     (let primary = pick_primary windows ls
      in \<lparr>pr_id = pc_id r, pr_name = pc_name r, pr_owner = pc_owner r, pr_description = pc_description r,
          pr_description_source = source,
          pr_birth_year = birth_year_of (pc_first_commit_at r) (pc_first_commit_tz_offset_min r),
          pr_primary_language = pc_primary_language r, pr_archetype = pc_archetype r,
          pr_seed_basename = pc_seed_basename r,
          pr_reroll_offset = (case u32_try (pc_reroll_offset r) of Some n \<Rightarrow> n | None \<Rightarrow> 0),
          pr_art_scene_hash = pc_art_scene_hash r, pr_art_state = art, pr_condition_signal = sig,
          pr_completion_lit = count_u32 (pc_completion_lit r),
          pr_completion_applicable = count_u32 (pc_completion_applicable r),
          pr_is_pinned = (pc_is_pinned r \<noteq> 0), pr_is_archived = (pc_is_archived r \<noteq> 0),
          pr_is_hidden = (pc_is_hidden r \<noteq> 0), pr_is_reference = (pc_is_reference r \<noteq> 0),
          pr_authored_by_user = map_option (\<lambda>v. v \<noteq> 0) (pc_authored_by_user r),
          pr_is_fork = (pc_is_fork r \<noteq> 0), pr_is_bare = (pc_is_bare r \<noteq> 0),
          pr_is_shallow = (pc_is_shallow r \<noteq> 0), pr_is_submodule = (pc_submodule_path r \<noteq> None),
          pr_ambiguous_lineage = (pc_ambiguous_lineage r \<noteq> 0),
          pr_last_touched_at =
            (case pc_last_touched_at r of Some t \<Rightarrow> t | None \<Rightarrow> pc_created_at r),
          pr_last_interaction_at = pc_last_interaction_at r, pr_last_commit_at = pc_last_commit_at r,
          pr_last_commit_subject = pc_last_commit_subject r, pr_first_commit_at = pc_first_commit_at r,
          pr_created_at = pc_created_at r, pr_acknowledged_at = pc_acknowledged_at r,
          pr_size_tracked_bytes = pc_size_tracked_bytes r, pr_tracked_files = pc_tracked_files r,
          pr_collection_ids = collection_ids,
          pr_primary_location = map_option (\<lambda>l. (lf_id l, lf_path_display l)) primary,
          pr_presence = map_option lf_presence primary,
          pr_has_remote = (pc_remote_key r \<noteq> None),
          pr_branch = Option.bind primary lf_branch, pr_is_dirty = any_present_dirty ls,
          pr_untracked_count = count_u32 (Option.bind primary lf_untracked_count),
          pr_ahead = count_u32 (Option.bind primary lf_ahead),
          pr_behind = count_u32 (Option.bind primary lf_behind),
          pr_stash_count = count_u32 (Option.bind primary lf_stash_count),
          pr_interrupted_op = Option.bind primary lf_interrupted_op,
          pr_fetch_head_at = Option.bind primary lf_fetch_head_at,
          pr_refstate_observed_at = max_present lf_refstate_observed_at ls,
          pr_worktree_observed_at = max_present lf_worktree_observed_at ls,
          pr_error_kind = error_kind, pr_error_at = pc_error_at r, pr_era_section_id = [],
          pr_health_summary = no_health, pr_lifecycle = LcActive\<rparr>)"

definition map_loaded_row ::
  "bool \<Rightarrow> index_db \<Rightarrow> project_cols \<Rightarrow> location_facts list \<Rightarrow> int list \<Rightarrow> projects_error + loaded_row" where
  "map_loaded_row windows db r ls collection_ids =
     (case optional_column source_slug ALL_DESCRIPTION_SOURCES (pc_description_source r)
             ''project.description_source'' of
        Inl e \<Rightarrow> Inl e
      | Inr source \<Rightarrow>
     (case column art_str ALL_ART_STATES (pc_art_state r) ''project.art_state'' of
        Inl e \<Rightarrow> Inl e
      | Inr art \<Rightarrow>
     (case optional_column condition_slug ALL_CONDITIONS (pc_condition_signal r)
             ''project.condition_signal'' of
        Inl e \<Rightarrow> Inl e
      | Inr sig \<Rightarrow>
     (case optional_column (\<lambda>s. s) ERROR_CODES (pc_error_kind r) ''project.error_kind'' of
        Inl e \<Rightarrow> Inl e
      | Inr error_kind \<Rightarrow>
          (let primary = pick_primary windows ls
           in Inr \<lparr>lr_row = wire_row windows r ls collection_ids source art sig error_kind,
                   lr_facts =
                     \<lparr>rf_authored_by_user = map_option (\<lambda>v. v \<noteq> 0) (pc_authored_by_user r),
                      rf_location_kind = map_option lf_kind primary,
                      rf_distro = map_option lf_distro primary,
                      rf_has_remote = (pc_remote_key r \<noteq> None),
                      rf_has_submodules = (pc_id r \<in> set (db_submodule_parents db)),
                      rf_has_readme = map_option (\<lambda>(_, excerpt). excerpt \<noteq> None) (db_peek db (pc_id r)),
                      rf_content_presence = content_presence (db_scans db (pc_id r))\<rparr>\<rparr>)))))"

section \<open>The two loaders\<close>

text \<open>\<open>ORDER BY project_id, collection_id\<close>, grouped.\<close>

definition collections_by_project :: "index_db \<Rightarrow> int \<Rightarrow> int list option" where
  "collections_by_project db = group_by fst snd (sort (db_members db))"

definition with_health :: "health_summary \<times> lifecycle \<Rightarrow> loaded_row \<Rightarrow> loaded_row" where
  "with_health h l =
     l\<lparr>lr_row := (lr_row l)\<lparr>pr_health_summary := fst h, pr_lifecycle := snd h\<rparr>\<rparr>"

text \<open>\<open>ORDER BY last_touched_at DESC, id ASC\<close>: a NULL sorts last.\<close>

definition shelf_key :: "project_cols \<Rightarrow> int \<times> int" where
  "shelf_key c = (case pc_last_touched_at c of None \<Rightarrow> i64_max + 2 | Some t \<Rightarrow> - t, pc_id c)"

definition shelf_projects :: "index_db \<Rightarrow> project_cols list" where
  "shelf_projects db = sort_key shelf_key (filter (\<lambda>c. pc_merged_into c = None) (db_projects db))"

definition load_project_rows :: "bool \<Rightarrow> index_db \<Rightarrow> projects_error + loaded_row list" where
  "load_project_rows windows db =
     (case locations_by_project db of
        Inl e \<Rightarrow> Inl e
      | Inr by_project \<Rightarrow>
     (case summaries_for_all db of
        Inl e \<Rightarrow> Inl e
      | Inr health \<Rightarrow>
          sequence_results (map (\<lambda>c.
            case map_loaded_row windows db c
                   (case by_project (pc_id c) of None \<Rightarrow> [] | Some ls \<Rightarrow> ls)
                   (case collections_by_project db (pc_id c) of None \<Rightarrow> [] | Some ids \<Rightarrow> ids) of
              Inl e \<Rightarrow> Inl e
            | Inr l \<Rightarrow> Inr (case health (pc_id c) of None \<Rightarrow> l | Some h \<Rightarrow> with_health h l))
            (shelf_projects db))))"

definition load_project_row :: "bool \<Rightarrow> index_db \<Rightarrow> int \<Rightarrow> projects_error + loaded_row" where
  "load_project_row windows db p =
     (case locations_of db p of
        Inl e \<Rightarrow> Inl e
      | Inr ls \<Rightarrow>
     (case project_of db p of
        None \<Rightarrow> Inl (UnknownProject p)
      | Some c \<Rightarrow>
     (case map_loaded_row windows db c (sort_key lf_id ls)
             (sort (map snd (filter (\<lambda>m. fst m = p) (db_members db)))) of
        Inl e \<Rightarrow> Inl e
      | Inr l \<Rightarrow>
     (case summary_for db p of
        Inl e \<Rightarrow> Inl e
      | Inr h \<Rightarrow> Inr (with_health h l)))))"

section \<open>Current projects and the flags\<close>

definition is_current :: "index_db \<Rightarrow> int \<Rightarrow> bool" where
  "is_current db p =
     (case project_of db p of
        None \<Rightarrow> False
      | Some c \<Rightarrow>
          pc_removed_at c = None \<and>
          list_ex (\<lambda>l. lc_project l = pc_id c \<and> lc_removed_at l = None) (db_locations db))"

definition location_is_current :: "index_db \<Rightarrow> int \<Rightarrow> bool" where
  "location_is_current db l =
     (case find (\<lambda>c. lc_id c = l) (db_locations db) of
        None \<Rightarrow> False
      | Some c \<Rightarrow> (if lc_removed_at c = None then is_current db (lc_project c) else False))"

record flag_patch =
  fp_is_pinned :: "bool option"
  fp_is_archived :: "bool option"
  fp_is_hidden :: "bool option"

definition coalesce_flag :: "bool option \<Rightarrow> int \<Rightarrow> int" where
  "coalesce_flag patch stored = (case patch of None \<Rightarrow> stored | Some b \<Rightarrow> if b then 1 else 0)"

text \<open>The event is the pair of the project and its three flags.\<close>

definition apply_flags ::
  "index_db \<Rightarrow> int \<Rightarrow> flag_patch \<Rightarrow> int \<Rightarrow> projects_error + ((int \<times> bool \<times> bool \<times> bool) \<times> index_db)" where
  "apply_flags db p patch now =
     (if \<not> list_ex (\<lambda>c. pc_id c = p \<and> pc_merged_into c = None) (db_projects db) then Inl (UnknownProject p)
      else let db' = update_project p (\<lambda>c. if pc_merged_into c = None
                 then c\<lparr>pc_is_pinned := coalesce_flag (fp_is_pinned patch) (pc_is_pinned c),
                        pc_is_archived := coalesce_flag (fp_is_archived patch) (pc_is_archived c),
                        pc_is_hidden := coalesce_flag (fp_is_hidden patch) (pc_is_hidden c),
                        pc_updated_at := now\<rparr>
                 else c) db
           in case project_of db' p of
                None \<Rightarrow> Inl (UnknownProject p)
              | Some c \<Rightarrow> Inr ((p, pc_is_pinned c \<noteq> 0, pc_is_archived c \<noteq> 0, pc_is_hidden c \<noteq> 0), db'))"

section \<open>The order of the copies does not matter\<close>

lemma live_key_inj: "inj_on lf_id A \<Longrightarrow> inj_on (live_key windows) A"
  by (auto simp: inj_on_def live_key_def)

lemma pick_primary_cong:
  assumes "inj_on lf_id (set ls)" and "set ls' = set ls"
  shows "pick_primary windows ls' = pick_primary windows ls"
  unfolding pick_primary_def using assms by (intro max_by_key_cong_set live_key_inj)

lemma any_dirty_loop_is:
  "any_dirty_loop observed ls =
     (if Some True \<in> lf_is_dirty ` set ls then Some True
      else if observed \<or> Some False \<in> lf_is_dirty ` set ls then Some False else None)"
  by (induction observed ls rule: any_dirty_loop.induct) (auto split: option.splits bool.splits)

lemma any_present_dirty_cong: "set ls' = set ls \<Longrightarrow> any_present_dirty ls' = any_present_dirty ls"
  by (simp add: any_present_dirty_def any_dirty_loop_is)

lemma max_present_cong: "set ls' = set ls \<Longrightarrow> max_present f ls' = max_present f ls"
  by (simp add: max_present_def foldl_max_opt)

lemma wire_row_cong:
  assumes "inj_on lf_id (set ls)" and "set ls' = set ls"
  shows "map_loaded_row windows db r ls' ids = map_loaded_row windows db r ls ids"
  by (simp only: map_loaded_row_def wire_row_def pick_primary_cong [OF assms]
      any_present_dirty_cong [OF assms(2)] max_present_cong [OF assms(2)])

section \<open>The tile and the page are one row\<close>

lemma map_location_keys:
  "map_location c = Inr l \<Longrightarrow> lf_id l = lc_id c \<and> lf_project l = lc_project c"
  by (auto simp: map_location_def split: sum.splits)

lemma fill_keys [simp]:
  "map lf_id (fill_display_paths db ls) = map lf_id ls"
  "filter (\<lambda>l. lf_project l = p) (fill_display_paths db ls)
     = fill_display_paths db (filter (\<lambda>l. lf_project l = p) ls)"
  by (induction ls) (auto simp: fill_display_paths_def split: option.splits)

lemma locations_by_project_at:
  assumes "locations_by_project db = Inr by_project"
  shows "locations_of db p = Inr (case by_project p of None \<Rightarrow> [] | Some ls \<Rightarrow> ls)"
proof -
  obtain ls where ls: "map map_location (db_locations db) = map Inr ls"
    and b: "by_project = group_by lf_project (\<lambda>l. l) (fill_display_paths db ls)"
    using assms by (auto simp: locations_by_project_def sequence_results_map split: sum.splits)
  have "map map_location (filter (\<lambda>c. lc_project c = p) (db_locations db))
      = map Inr (map (\<lambda>l. l) (filter (\<lambda>l. lf_project l = p) ls))"
    using ls by (rule map_eq_map_Inr) (auto dest: map_location_keys)
  then show ?thesis
    by (simp add: locations_of_def locations_for_def b group_by_at)
qed

lemma locations_of_ids:
  assumes "locations_of db p = Inr ls" and "keyed db"
  shows "inj_on lf_id (set ls)"
proof -
  obtain raw where raw: "map map_location (locations_for db p) = map Inr raw" and ls: "ls = fill_display_paths db raw"
    using assms(1) by (auto simp: locations_of_def sequence_results_map split: sum.splits)
  have ids: "map lf_id raw = map lc_id cs" if "map map_location cs = map Inr raw" for cs
    using that
  proof (induction cs arbitrary: raw)
    case (Cons c cs)
    then show ?case by (cases raw) (auto dest: map_location_keys)
  qed simp
  have "distinct (map lc_id (locations_for db p))"
    using assms(2) by (simp add: keyed_def locations_for_def distinct_map_filter)
  then have "distinct (map lf_id ls)" by (simp add: ls ids [OF raw])
  then show ?thesis by (simp add: distinct_map)
qed

lemma sorted_pairs_snd:
  fixes ms :: "(int \<times> int) list"
  shows "map snd (filter (\<lambda>m. fst m = p) (sort ms)) = sort (map snd (filter (\<lambda>m. fst m = p) ms))"
proof (rule properties_for_sort [symmetric])
  show "mset (map snd (filter (\<lambda>m. fst m = p) (sort ms))) = mset (map snd (filter (\<lambda>m. fst m = p) ms))"
    by (simp add: mset_filter)
  have "sorted (map snd xs)" if "sorted xs" "\<forall>m \<in> set xs. fst m = p" for xs :: "(int \<times> int) list"
    using that by (induction xs) (auto simp: less_eq_prod_def)
  moreover have "sorted (filter (\<lambda>m. fst m = p) (sort ms))"
    using sorted_filter [of "\<lambda>m. m" "sort ms"] by simp
  ultimately show "sorted (map snd (filter (\<lambda>m. fst m = p) (sort ms)))" by simp
qed

lemma project_of_member: "keyed db \<Longrightarrow> c \<in> set (db_projects db) \<Longrightarrow> project_of db (pc_id c) = Some c"
proof -
  have "distinct (map pc_id cs) \<Longrightarrow> c \<in> set cs \<Longrightarrow> find (\<lambda>d. pc_id d = pc_id c) cs = Some c" for cs
    by (induction cs) (auto simp: image_iff)
  then show "keyed db \<Longrightarrow> c \<in> set (db_projects db) \<Longrightarrow> project_of db (pc_id c) = Some c"
    by (simp add: project_of_def keyed_def)
qed

lemma keyed_projects_loaded:
  assumes "load_project_rows windows db = Inr rows"
  shows "map (pr_id \<circ> lr_row) rows = map pc_id (shelf_projects db)"
proof -
  obtain by_project health where rows: "map (\<lambda>c.
        case map_loaded_row windows db c (case by_project (pc_id c) of None \<Rightarrow> [] | Some ls \<Rightarrow> ls)
               (case collections_by_project db (pc_id c) of None \<Rightarrow> [] | Some ids \<Rightarrow> ids) of
          Inl e \<Rightarrow> Inl e
        | Inr l \<Rightarrow> Inr (case health (pc_id c) of None \<Rightarrow> l | Some h \<Rightarrow> with_health h l))
      (shelf_projects db) = map Inr rows"
    using assms by (auto simp: load_project_rows_def sequence_results_map split: sum.splits)
  have id: "map_loaded_row windows db c ls ids = Inr l \<Longrightarrow> pr_id (lr_row l) = pc_id c" for c ls ids l
    by (auto simp: map_loaded_row_def wire_row_def Let_def split: sum.splits)
  have "map (pr_id \<circ> lr_row) rows = map pc_id cs" if "map (\<lambda>c.
        case map_loaded_row windows db c (L c) (I c) of
          Inl e \<Rightarrow> Inl e
        | Inr l \<Rightarrow> Inr (case health (pc_id c) of None \<Rightarrow> l | Some h \<Rightarrow> with_health h l)) cs
      = map Inr rows" for cs L I
    using that
  proof (induction cs arbitrary: rows)
    case (Cons c cs)
    then show ?case by (cases rows) (auto simp: with_health_def dest!: id split: sum.splits option.splits)
  qed simp
  from this [OF rows] show ?thesis .
qed

lemma shelf_row_loads:
  assumes "keyed db" and "load_project_rows windows db = Inr rows"
  shows "(\<forall>l \<in> set rows. load_project_row windows db (pr_id (lr_row l)) = Inr l) \<and>
    set (map (pr_id \<circ> lr_row) rows) = {pc_id c | c. c \<in> set (db_projects db) \<and> pc_merged_into c = None}"
proof (intro conjI ballI)
  obtain by_project health where b: "locations_by_project db = Inr by_project"
    and h: "summaries_for_all db = Inr health" and rows: "map (\<lambda>c.
        case map_loaded_row windows db c (case by_project (pc_id c) of None \<Rightarrow> [] | Some ls \<Rightarrow> ls)
               (case collections_by_project db (pc_id c) of None \<Rightarrow> [] | Some ids \<Rightarrow> ids) of
          Inl e \<Rightarrow> Inl e
        | Inr l \<Rightarrow> Inr (case health (pc_id c) of None \<Rightarrow> l | Some h \<Rightarrow> with_health h l))
      (shelf_projects db) = map Inr rows"
    using assms(2) by (auto simp: load_project_rows_def sequence_results_map split: sum.splits)
  fix l assume "l \<in> set rows"
  then have "(Inr l :: projects_error + loaded_row) \<in> set (map Inr rows)" by simp
  then obtain c l0 ls where c: "c \<in> set (shelf_projects db)"
    and ls: "ls = (case by_project (pc_id c) of None \<Rightarrow> [] | Some ls \<Rightarrow> ls)"
    and l0: "map_loaded_row windows db c ls
               (case collections_by_project db (pc_id c) of None \<Rightarrow> [] | Some ids \<Rightarrow> ids) = Inr l0"
    and l: "l = (case health (pc_id c) of None \<Rightarrow> l0 | Some h \<Rightarrow> with_health h l0)"
    unfolding rows [symmetric] by (auto split: sum.splits)
  have project: "project_of db (pc_id c) = Some c"
    using c assms(1) by (auto simp: shelf_projects_def project_of_member)
  have copies: "locations_of db (pc_id c) = Inr ls" using locations_by_project_at [OF b] ls by simp
  have "summary_for db (pc_id c) \<noteq> Inl e" for e
  proof
    assume "summary_for db (pc_id c) = Inl e"
    then have "health (pc_id c) = None" using summaries_at [OF h, of "pc_id c"] by simp
    then show False
      using h project all_facts_at [of db _ "pc_id c"]
      by (auto simp: summaries_for_all_def map_of_map_snd split: sum.splits)
  qed
  then obtain s where s: "summary_for db (pc_id c) = Inr s" by (cases "summary_for db (pc_id c)") auto
  then have "health (pc_id c) = Some s" using summaries_at [OF h, of "pc_id c"] by simp
  moreover have "map_loaded_row windows db c (sort_key lf_id ls)
      (sort (map snd (filter (\<lambda>m. fst m = pc_id c) (db_members db)))) = Inr l0"
    using l0 wire_row_cong [OF locations_of_ids [OF copies assms(1)], of "sort_key lf_id ls"]
    by (simp add: collections_by_project_def group_by_at sorted_pairs_snd)
  moreover have "pr_id (lr_row l0) = pc_id c"
    using l0 by (auto simp: map_loaded_row_def wire_row_def Let_def split: sum.splits)
  ultimately show "load_project_row windows db (pr_id (lr_row l)) = Inr l"
    using l s project copies by (simp add: load_project_row_def with_health_def)
next
  show "set (map (pr_id \<circ> lr_row) rows) = {pc_id c | c. c \<in> set (db_projects db) \<and> pc_merged_into c = None}"
    unfolding keyed_projects_loaded [OF assms(2)] by (auto simp: shelf_projects_def)
qed

text \<open>
  C34: the opened page and the tile of the shelf are one row. When the shelf loads, each of its rows
  is what the page loads for that project, field for field: the primary copy and the folds over the
  copies, the collections, the health summary and the lifecycle, though the page reads its copies
  in another order and its health alone. The shelf has a row for each project that was not merged
  away, and no other.
\<close>

theorem tile_and_page_are_one_row:
  assumes "keyed db" and "load_project_rows windows db = Inr rows"
  shows "(\<forall>l \<in> set rows. load_project_row windows db (pr_id (lr_row l)) = Inr l) \<and>
    set (map (pr_id \<circ> lr_row) rows) = {pc_id c | c. c \<in> set (db_projects db) \<and> pc_merged_into c = None}"
  using assms by (rule shelf_row_loads)

section \<open>The two rules for the primary copy\<close>

lemma decoded_copy:
  assumes "map_location c = Inr l"
  shows "df_id (derive_facts_of c) = lf_id l" "df_kind (derive_facts_of c) = lf_kind l"
    "df_presence (derive_facts_of c) = lf_presence l"
    "df_newest_mtime (derive_facts_of c) = lf_worktree_newest_mtime l"
proof -
  have kind: "column kind_str ALL_KINDS_OF_PLACE (lc_kind c) n = Inr k \<Longrightarrow> kind_of (lc_kind c) = k" for n k
    by (auto simp: column_def enum_from_column_def ALL_KINDS_OF_PLACE_def kind_of_def parse_kind_def
        split: if_splits option.splits)
  have presence: "column presence_str ALL_PRESENCES (lc_presence c) n = Inr k \<Longrightarrow> presence_of (lc_presence c) = k"
    for n k
    by (auto simp: column_def enum_from_column_def ALL_PRESENCES_def presence_of_def
        split: if_splits option.splits)
  show "df_id (derive_facts_of c) = lf_id l" "df_kind (derive_facts_of c) = lf_kind l"
    "df_presence (derive_facts_of c) = lf_presence l"
    "df_newest_mtime (derive_facts_of c) = lf_worktree_newest_mtime l"
    using assms by (auto simp: map_location_def derive_facts_of_def kind presence split: sum.splits)
qed

text \<open>The rows' key, on copies that are here, orders them as the derived one does.\<close>

lemma keys_agree:
  assumes "lf_removed_at x = None" "lf_removed_at y = None" "lf_presence x = PPresent" "lf_presence y = PPresent"
    and "\<And>t. lf_worktree_newest_mtime x = Some t \<Longrightarrow> i64_min < t"
    and "\<And>t. lf_worktree_newest_mtime y = Some t \<Longrightarrow> i64_min < t"
    and "live_key windows x \<le> live_key windows y"
  shows "(lf_worktree_newest_mtime x, is_native windows (lf_kind x), - lf_id x)
      \<le> (lf_worktree_newest_mtime y, is_native windows (lf_kind y), - lf_id y)"
  using assms
  by (cases "lf_worktree_newest_mtime x"; cases "lf_worktree_newest_mtime y")
    (force simp: live_key_def less_eq_prod_def split: if_splits)+

definition copies_decode :: "index_db \<Rightarrow> int \<Rightarrow> location_facts list \<Rightarrow> bool" where
  "copies_decode db p ls \<longleftrightarrow>
     locations_of db p = Inr ls \<and>
     (\<forall>l \<in> set ls. lf_removed_at l = None \<and> (\<forall>t. lf_worktree_newest_mtime l = Some t \<longrightarrow> i64_min < t))"

text \<open>
  The two rules for a project's primary copy agree. As long as no copy was uninstalled and one
  is present, the copy the shelf, the page and the debt store act on is the copy the derived clocks
  name, though one rule ranks every copy with presence first and the other only looks at those
  that are present.
\<close>

theorem primary_rules_agree:
  assumes "keyed db" and "copies_decode db p ls" and "PPresent \<in> lf_presence ` set ls"
  shows "ag_primary (aggregate windows (load_location_facts db p) commit session)
    = map_option lf_id (pick_primary windows ls)"
proof -
  obtain raw where raw: "map map_location (locations_for db p) = map Inr raw"
    and ls: "ls = fill_display_paths db raw"
    using assms(2) by (auto simp: copies_decode_def locations_of_def sequence_results_map split: sum.splits)
  let ?t = "\<lambda>l. (lf_id l, lf_kind l, lf_presence l, lf_worktree_newest_mtime l)"
  let ?K = "\<lambda>l. (lf_worktree_newest_mtime l, is_native windows (lf_kind l), - lf_id l)"
  have "(\<lambda>d. (df_id d, df_kind d, df_presence d, df_newest_mtime d)) ` derive_facts_of ` set cs = ?t ` set rs"
    if "map map_location cs = map Inr rs" for cs rs
    using that
  proof (induction cs arbitrary: rs)
    case (Cons c cs)
    then show ?case by (cases rs) (auto simp: decoded_copy)
  qed simp
  from this [OF raw]
  have same: "(\<lambda>d. (df_id d, df_kind d, df_presence d, df_newest_mtime d)) ` set (load_location_facts db p) = ?t ` set ls"
    by (simp add: load_location_facts_def ls fill_display_paths_def image_image) (force split: option.splits)
  have "primary_key windows ` present_copies fs = (\<lambda>(i, k, pr, t). (t, is_native windows k, - i)) `
      {x \<in> (\<lambda>d. (df_id d, df_kind d, df_presence d, df_newest_mtime d)) ` set fs. fst (snd (snd x)) = PPresent}" for fs
    by (force simp: present_copies_def primary_key_def)
  moreover have "?K ` {l \<in> A. lf_presence l = PPresent} = (\<lambda>(i, k, pr, t). (t, is_native windows k, - i)) `
      {x \<in> ?t ` A. fst (snd (snd x)) = PPresent}" for A :: "location_facts set"
    by force
  ultimately have keys: "primary_key windows ` present_copies (load_location_facts db p)
      = ?K ` {l \<in> set ls. lf_presence l = PPresent}"
    by (simp only: same)
  obtain h where h: "h \<in> set ls" "lf_presence h = PPresent" using assms(3) by auto
  then obtain m where m: "pick_primary windows ls = Some m"
    by (cases "pick_primary windows ls") (auto simp: pick_primary_def)
  then have best: "m \<in> set ls" "\<forall>l \<in> set ls. live_key windows l \<le> live_key windows m"
    using max_by_key_Some [of "live_key windows" ls m] unfolding pick_primary_def by simp_all
  have ok: "lf_removed_at l = None" "lf_worktree_newest_mtime l = Some t \<Longrightarrow> i64_min < t" if "l \<in> set ls" for l t
    using that assms(2) by (auto simp: copies_decode_def)
  have "lf_presence m = PPresent"
    using best h ok(1) [OF h(1)] ok(1) [OF best(1)]
    by (force simp: live_key_def less_eq_prod_def split: if_splits)
  with best ok have "Max (?K ` {l \<in> set ls. lf_presence l = PPresent}) = ?K m"
    by (intro Max_eqI) (auto intro!: keys_agree [of _ m windows])
  then show ?thesis
    using h m keys by (auto simp: aggregate_primary present_copies_def)
qed

text \<open>After an uninstall they part: the rows demote the removed copy, the derived clocks still
  count it, though \<open>removed_at\<close> is said to take precedence over \<open>presence\<close> everywhere.\<close>

definition uninstalled_db :: index_db where
  "uninstalled_db = small_db\<lparr>db_locations :=
     [blank_location\<lparr>lc_is_dirty := Some 1, lc_worktree_newest_mtime := Some 900000, lc_removed_at := Some 950000\<rparr>,
      blank_location\<lparr>lc_id := 2, lc_worktree_newest_mtime := Some 5\<rparr>]\<rparr>"

lemma removed_copy_still_counts:
  "map_option (\<lambda>(r, _). (ag_primary (rc_aggregated r), ag_any_dirty (rc_aggregated r),
       ag_last_touched_at (rc_aggregated r), rc_signal r))
     (recompute False uninstalled_db 1 1000000) = Some (Some 1, Some True, Some 900000, Some CLive)"
  "(case load_project_row False uninstalled_db 1 of
      Inr l \<Rightarrow> map_option fst (pr_primary_location (lr_row l)) = Some 2 \<and> pr_is_dirty (lr_row l) = None
    | Inl _ \<Rightarrow> False)"
  by code_simp+

lemma tile_and_page_are_one_row_witness:
  "\<exists>rows. load_project_rows False done_db = Inr rows \<and>
     (\<forall>l \<in> set rows. load_project_row False done_db (pr_id (lr_row l)) = Inr l) \<and>
     set (map (pr_id \<circ> lr_row) rows) = {1}"
proof -
  have "(case load_project_rows False done_db of Inr _ \<Rightarrow> True | Inl _ \<Rightarrow> False)" by code_simp
  then obtain rows where rows: "load_project_rows False done_db = Inr rows" by (auto split: sum.splits)
  moreover have "keyed done_db" by (simp add: keyed_def done_db_def small_db_def blank_location_def)
  moreover have "{pc_id c | c. c \<in> set (db_projects done_db) \<and> pc_merged_into c = None} = {1}"
    by (simp add: done_db_def blank_project_def)
  ultimately show ?thesis using tile_and_page_are_one_row [of done_db False rows] by simp
qed

lemma primary_rules_agree_witness:
  "ag_primary (aggregate False (load_location_facts small_db 1) None None) = Some 1"
proof -
  have "(case locations_of small_db 1 of
      Inr ls \<Rightarrow> list_all (\<lambda>l. lf_removed_at l = None \<and>
          (case lf_worktree_newest_mtime l of None \<Rightarrow> True | Some t \<Rightarrow> i64_min < t)) ls \<and>
        map lf_presence ls = [PPresent, PPresent] \<and> map_option lf_id (pick_primary False ls) = Some 1
    | Inl _ \<Rightarrow> False)" by code_simp
  then obtain ls where ls: "locations_of small_db 1 = Inr ls" "list_all (\<lambda>l. lf_removed_at l = None \<and>
          (case lf_worktree_newest_mtime l of None \<Rightarrow> True | Some t \<Rightarrow> i64_min < t)) ls"
      "map lf_presence ls = [PPresent, PPresent]" "map_option lf_id (pick_primary False ls) = Some 1"
    by (auto split: sum.splits)
  have "copies_decode small_db 1 ls" using ls(1,2) by (auto simp: copies_decode_def list_all_iff)
  moreover have "PPresent \<in> set (map lf_presence ls)" using ls(3) by simp
  moreover have "keyed small_db" by (simp add: keyed_def small_db_def blank_location_def)
  ultimately show ?thesis using primary_rules_agree [of small_db 1 ls False None None] ls(4) by simp
qed

end
