(* ===== verification/Query_Execute.thy ===== *)
theory Query_Execute
  imports Query_Parse Shelf_Rows
begin

text \<open>
  The query executor (\<open>query/execute.rs\<close>): the three-valued answer of a term for a row, the
  domain rule for a project without a working copy, the base set, and the evaluation. Text is
  ASCII (see \<open>Prelude\<close>).
\<close>

section \<open>Truths\<close>

datatype term_truth = TTrue | TFalse | TUnknown

fun from_bool :: "bool option \<Rightarrow> term_truth" where
  "from_bool (Some True) = TTrue"
| "from_bool (Some False) = TFalse"
| "from_bool None = TUnknown"

definition known :: "bool \<Rightarrow> term_truth" where "known v = (if v then TTrue else TFalse)"

definition from_count :: "nat option \<Rightarrow> term_truth" where
  "from_count v = from_bool (map_option (\<lambda>n. n > 0) v)"

record exec_context =
  ec_now :: int
  ec_tz_offset_min :: int
  ec_first_run_completed_at :: "int option"
  ec_collection_ids_by_name :: "string \<Rightarrow> int option"
  ec_paths_are_case_sensitive :: bool
  ec_commit_subject_hits :: "int list option"

definition folded_contains :: "string option \<Rightarrow> string \<Rightarrow> bool" where
  "folded_contains haystack needle =
     (case haystack of None \<Rightarrow> False | Some h \<Rightarrow> contains_sub (to_lower h) (to_lower needle))"

definition bare_truth :: "project_row \<Rightarrow> string \<Rightarrow> exec_context \<Rightarrow> term_truth" where
  "bare_truth row needle ctx =
     (let path = map_option snd (pr_primary_location row)
      in known (folded_contains (Some (pr_name row)) needle \<or>
                folded_contains (pr_owner row) needle \<or>
                folded_contains (pr_description row) needle \<or>
                folded_contains path needle \<or>
                folded_contains (pr_last_commit_subject row) needle \<or>
                (case ec_commit_subject_hits ctx of None \<Rightarrow> False | Some hs \<Rightarrow> pr_id row \<in> set hs)))"

definition in_truth :: "loaded_row \<Rightarrow> string \<Rightarrow> bool \<Rightarrow> exec_context \<Rightarrow> term_truth" where
  "in_truth row val quoted ctx =
     (let wanted = to_lower val
      in if wanted = ''local'' \<or> wanted = ''wsl'' \<or> starts_with ''wsl:'' wanted
         then (case rf_location_kind (lr_facts row) of
                 None \<Rightarrow> TUnknown
               | Some kind \<Rightarrow>
                   (if wanted = ''local'' then known (kind \<noteq> KWsl)
                    else if wanted = ''wsl'' then known (kind = KWsl)
                    else known (kind = KWsl \<and>
                           eq_ignore_case (case rf_distro (lr_facts row) of Some d \<Rightarrow> d | None \<Rightarrow> [])
                             (case split_once CHR '':'' wanted of None \<Rightarrow> [] | Some (_, d) \<Rightarrow> d))))
         else (case map_option snd (pr_primary_location (lr_row row)) of
                 None \<Rightarrow> TUnknown
               | Some path \<Rightarrow>
                   known (if quoted \<and> ec_paths_are_case_sensitive ctx then starts_with val path
                          else starts_with (to_lower val) (to_lower path))))"

definition text_truth ::
  "loaded_row \<Rightarrow> text_field \<Rightarrow> string \<Rightarrow> bool \<Rightarrow> exec_context \<Rightarrow> term_truth" where
  "text_truth row field val quoted ctx =
     (let r = lr_row row
      in case field of
           FLang \<Rightarrow> from_bool (map_option (\<lambda>l. eq_ignore_case l val) (pr_primary_language r))
         | FOwner \<Rightarrow> from_bool (map_option (\<lambda>o'. eq_ignore_case o' val) (pr_owner r))
         | FCollection \<Rightarrow>
             (case ec_collection_ids_by_name ctx (to_lower val) of
                None \<Rightarrow> TFalse
              | Some i \<Rightarrow> known (i \<in> set (pr_collection_ids r)))
         | FIn \<Rightarrow> in_truth row val quoted ctx)"

definition flag_truth :: "loaded_row \<Rightarrow> is_flag \<Rightarrow> exec_context \<Rightarrow> term_truth" where
  "flag_truth row flag ctx =
     (let r = lr_row row
      in case flag of
           Dirty \<Rightarrow> from_bool (pr_is_dirty r)
         | Unpushed \<Rightarrow> from_count (pr_ahead r)
         | Behind \<Rightarrow> from_count (pr_behind r)
         | Interrupted \<Rightarrow>
             from_bool (map_option (\<lambda>_. pr_interrupted_op r \<noteq> None) (pr_refstate_observed_at r))
         | Archived \<Rightarrow> known (pr_is_archived r)
         | Pinned \<Rightarrow> known (pr_is_pinned r)
         | Hidden \<Rightarrow> known (pr_is_hidden r)
         | IsReference \<Rightarrow> known (pr_is_reference r)
         | Bare \<Rightarrow> known (pr_is_bare r)
         | Fork \<Rightarrow> known (pr_is_fork r)
         | Empty \<Rightarrow> from_bool (map_option (\<lambda>s. s = CEmpty) (pr_condition_signal r))
         | Shallow \<Rightarrow> known (pr_is_shallow r)
         | IsLocal \<Rightarrow> from_bool (map_option (\<lambda>k. k \<noteq> KWsl) (rf_location_kind (lr_facts row)))
         | Wsl \<Rightarrow> from_bool (map_option (\<lambda>k. k = KWsl) (rf_location_kind (lr_facts row)))
         | New \<Rightarrow>
             (case ec_first_run_completed_at ctx of
                None \<Rightarrow> TUnknown
              | Some stamp \<Rightarrow> known (pr_acknowledged_at r = None \<and> pr_created_at r > stamp))
         | Notcloned \<Rightarrow> known (pr_primary_location r = None))"

definition has_no_working_copy :: "loaded_row \<Rightarrow> bool" where
  "has_no_working_copy row \<longleftrightarrow> pr_primary_location (lr_row row) = None"

fun is_about_a_working_copy :: "is_flag \<Rightarrow> bool" where
  "is_about_a_working_copy Dirty = True"
| "is_about_a_working_copy Unpushed = True"
| "is_about_a_working_copy Behind = True"
| "is_about_a_working_copy Interrupted = True"
| "is_about_a_working_copy Empty = True"
| "is_about_a_working_copy Bare = True"
| "is_about_a_working_copy Shallow = True"
| "is_about_a_working_copy IsLocal = True"
| "is_about_a_working_copy Wsl = True"
| "is_about_a_working_copy Archived = False"
| "is_about_a_working_copy Pinned = False"
| "is_about_a_working_copy Hidden = False"
| "is_about_a_working_copy IsReference = False"
| "is_about_a_working_copy Fork = False"
| "is_about_a_working_copy New = False"
| "is_about_a_working_copy Notcloned = False"

fun outside_working_copy_domain :: "query_term \<Rightarrow> bool" where
  "outside_working_copy_domain (HasTerm _ _) = True"
| "outside_working_copy_domain (TouchedAge _ _ _) = True"
| "outside_working_copy_domain (TouchedYear _ _) = True"
| "outside_working_copy_domain (FlagTerm _ flag) = is_about_a_working_copy flag"
| "outside_working_copy_domain (BareTerm _ _) = False"
| "outside_working_copy_domain (TextTerm _ _ _ _) = False"
| "outside_working_copy_domain (SizeTerm _ _ _) = False"
| "outside_working_copy_domain (CompletionTerm _ _ _) = False"

definition presence_truth :: "loaded_row \<Rightarrow> (presence_answers \<Rightarrow> presence_state) \<Rightarrow> term_truth" where
  "presence_truth row pick =
     (case map_option pick (rf_content_presence (lr_facts row)) of
        None \<Rightarrow> TUnknown
      | Some SNotRead \<Rightarrow> TUnknown
      | Some SPresent \<Rightarrow> known True
      | Some SAbsent \<Rightarrow> known False)"

fun has_truth :: "loaded_row \<Rightarrow> has_attribute \<Rightarrow> term_truth" where
  "has_truth row Stash = from_count (pr_stash_count (lr_row row))"
| "has_truth row HasRemote = known (rf_has_remote (lr_facts row))"
| "has_truth row Submodules = known (rf_has_submodules (lr_facts row))"
| "has_truth row Readme = presence_truth row pa_readme"
| "has_truth row License = presence_truth row pa_license"
| "has_truth row Tests = presence_truth row pa_tests"
| "has_truth row Ci = presence_truth row pa_ci"

definition term_truth :: "loaded_row \<Rightarrow> query_term \<Rightarrow> exec_context \<Rightarrow> term_truth" where
  "term_truth row t ctx =
     (if has_no_working_copy row \<and> outside_working_copy_domain t then TUnknown
      else let r = lr_row row
           in case t of
                BareTerm _ needle \<Rightarrow> bare_truth r needle ctx
              | TextTerm _ field val quoted \<Rightarrow> text_truth row field val quoted ctx
              | FlagTerm _ flag \<Rightarrow> flag_truth row flag ctx
              | HasTerm _ attribute \<Rightarrow> has_truth row attribute
              | SizeTerm _ op bytes \<Rightarrow>
                  (case pr_size_tracked_bytes r of
                     None \<Rightarrow> TUnknown
                   | Some n \<Rightarrow>
                       (let held = (if n \<ge> 0 then nat n else 0)
                        in known (case op of Gt \<Rightarrow> held > bytes | Lt \<Rightarrow> held < bytes)))
              | TouchedAge _ op days \<Rightarrow>
                  (let age = wrap_i64 (ec_now ctx - pr_last_touched_at r);
                       bound = int days * 86400
                   in known (case op of Gt \<Rightarrow> age > bound | Lt \<Rightarrow> age < bound))
              | TouchedYear _ year \<Rightarrow>
                  known (int year \<le> 2147483647 \<and>
                         local_year (pr_last_touched_at r) (ec_tz_offset_min ctx) = int year)
              | CompletionTerm _ op val \<Rightarrow>
                  (case pr_completion_lit r of
                     None \<Rightarrow> TUnknown
                   | Some lit \<Rightarrow> known (case op of Gt \<Rightarrow> lit > val | Lt \<Rightarrow> lit < val)))"

section \<open>Evaluation\<close>

definition answerable :: "query_term \<Rightarrow> bool" where "answerable _ = True"

definition render_term :: "query_term \<Rightarrow> string" where
  "render_term t =
     (case t of
        HasTerm neg attribute \<Rightarrow> (if neg then ''-'' else []) @ ''has:'' @ attribute_name attribute
      | _ \<Rightarrow> [])"

definition partition_answerable :: "query_ast \<Rightarrow> query_term list \<times> ignored_term list" where
  "partition_answerable ast =
     (filter answerable (qa_terms ast),
      map (\<lambda>t. \<lparr>ig_text = render_term t, ig_reason = NotComputed\<rparr>)
        (filter (\<lambda>t. \<not> answerable t) (qa_terms ast)))"

definition asks_for :: "query_ast \<Rightarrow> is_flag \<Rightarrow> bool" where
  "asks_for ast wanted \<longleftrightarrow> list_ex (\<lambda>t. t = FlagTerm False wanted) (qa_terms ast)"

definition in_base_set :: "project_row \<Rightarrow> query_ast \<Rightarrow> bool" where
  "in_base_set row ast =
     (if pr_is_reference row \<and> \<not> asks_for ast IsReference then False
      else if pr_is_hidden row \<and> \<not> asks_for ast Hidden then False
      else True)"

definition matches :: "loaded_row \<Rightarrow> exec_context \<Rightarrow> query_term \<Rightarrow> bool" where
  "matches row ctx t =
     (case term_truth row t ctx of
        TUnknown \<Rightarrow> False
      | TTrue \<Rightarrow> \<not> negated t
      | TFalse \<Rightarrow> negated t)"

record executed =
  ex_rows :: "loaded_row list"
  ex_ignored :: "ignored_term list"

definition evaluate_query :: "loaded_row list \<Rightarrow> query_ast \<Rightarrow> exec_context \<Rightarrow> executed" where
  "evaluate_query rows ast ctx =
     (let (runnable, ignored) = partition_answerable ast;
          matched = filter (\<lambda>row. list_all (matches row ctx) runnable)
                      (filter (\<lambda>row. in_base_set (lr_row row) ast) rows)
      in \<lparr>ex_rows = matched, ex_ignored = qa_ignored ast @ ignored\<rparr>)"

section \<open>Polarity\<close>

text \<open>The same term with the other sign.\<close>

fun negate_term :: "query_term \<Rightarrow> query_term" where
  "negate_term (BareTerm n v) = BareTerm (\<not> n) v"
| "negate_term (TextTerm n f v q) = TextTerm (\<not> n) f v q"
| "negate_term (FlagTerm n f) = FlagTerm (\<not> n) f"
| "negate_term (HasTerm n a) = HasTerm (\<not> n) a"
| "negate_term (SizeTerm n op b) = SizeTerm (\<not> n) op b"
| "negate_term (TouchedAge n op d) = TouchedAge (\<not> n) op d"
| "negate_term (TouchedYear n y) = TouchedYear (\<not> n) y"
| "negate_term (CompletionTerm n op v) = CompletionTerm (\<not> n) op v"

lemma negated_negate [simp]: "negated (negate_term t) = (\<not> negated t)"
  by (cases t) simp_all

lemma negate_negate [simp]: "negate_term (negate_term t) = t"
  by (cases t) simp_all

lemma truth_ignores_sign [simp]: "term_truth row (negate_term t) ctx = term_truth row t ctx"
  by (cases t) (simp_all add: term_truth_def)

lemma evaluate_query_rows:
  "ex_rows (evaluate_query rows ast ctx) =
     filter (\<lambda>row. in_base_set (lr_row row) ast \<and> list_all (matches row ctx) (qa_terms ast)) rows"
  by (simp add: evaluate_query_def partition_answerable_def answerable_def filter_filter conj_commute)

text \<open>
  C37: unknown matches neither polarity. A row is a match for a term or for its negation exactly
  when the term has a known answer for the row, and never for both; so the rows a query adds by
  negating a term are never those nobody looked at. A project with no working copy has no answer to
  a term about one. A hidden row, or a reference row, is in a result only if the query asks for
  such rows by a term that is not negated; and what is returned is a selection of the rows given,
  in their order.
\<close>

theorem unknown_matches_neither_polarity:
  "(matches row ctx t \<or> matches row ctx (negate_term t)) = (term_truth row t ctx \<noteq> TUnknown) \<and>
   \<not> (matches row ctx t \<and> matches row ctx (negate_term t)) \<and>
   (has_no_working_copy row \<and> outside_working_copy_domain t \<longrightarrow> term_truth row t ctx = TUnknown) \<and>
   (row \<in> set (ex_rows (evaluate_query rows ast ctx)) \<and> pr_is_hidden (lr_row row)
      \<longrightarrow> FlagTerm False Hidden \<in> set (qa_terms ast)) \<and>
   (row \<in> set (ex_rows (evaluate_query rows ast ctx)) \<and> pr_is_reference (lr_row row)
      \<longrightarrow> FlagTerm False IsReference \<in> set (qa_terms ast)) \<and>
   subseq (ex_rows (evaluate_query rows ast ctx)) rows"
proof -
  have "subseq (ex_rows (evaluate_query rows ast ctx)) rows"
    unfolding evaluate_query_rows by (rule subseq_filter_left)
  moreover have "FlagTerm False Hidden \<in> set (qa_terms ast)"
    if "in_base_set (lr_row row) ast" "pr_is_hidden (lr_row row)"
    using that by (auto simp: in_base_set_def asks_for_def list_ex_iff split: if_splits)
  moreover have "FlagTerm False IsReference \<in> set (qa_terms ast)"
    if "in_base_set (lr_row row) ast" "pr_is_reference (lr_row row)"
    using that by (auto simp: in_base_set_def asks_for_def list_ex_iff split: if_splits)
  moreover have "term_truth row t ctx = TUnknown" if "has_no_working_copy row" "outside_working_copy_domain t"
    using that by (simp add: term_truth_def)
  ultimately show ?thesis
    by (cases "term_truth row t ctx") (auto simp: matches_def evaluate_query_rows)
qed

definition quiet_context :: exec_context where
  "quiet_context = \<lparr>ec_now = 1000000, ec_tz_offset_min = 0, ec_first_run_completed_at = None,
     ec_collection_ids_by_name = (\<lambda>_. None), ec_paths_are_case_sensitive = True,
     ec_commit_subject_hits = None\<rparr>"

text \<open>A hidden project without a copy: \<open>-has:remote is:hidden\<close> does not find it, \<open>is:hidden\<close> does.\<close>

definition hidden_db :: index_db where
  "hidden_db = small_db\<lparr>db_projects := [blank_project\<lparr>pc_is_hidden := 1\<rparr>], db_locations := []\<rparr>"

lemma unknown_matches_neither_polarity_witness:
  "\<exists>row. load_project_row False hidden_db 1 = Inr row \<and>
     term_truth row (HasTerm True HasRemote) quiet_context = TUnknown \<and>
     ex_rows (evaluate_query [row] (parse_query ''is:hidden'') quiet_context) = [row] \<and>
     FlagTerm False Hidden \<in> set (qa_terms (parse_query ''is:hidden''))"
proof -
  have "(case load_project_row False hidden_db 1 of
      Inr row \<Rightarrow> has_no_working_copy row \<and> pr_is_hidden (lr_row row) \<and> \<not> pr_is_reference (lr_row row)
    | Inl _ \<Rightarrow> False)" by code_simp
  then obtain row where row: "load_project_row False hidden_db 1 = Inr row" "has_no_working_copy row"
    "pr_is_hidden (lr_row row)" "\<not> pr_is_reference (lr_row row)" by (auto split: sum.splits)
  have terms: "qa_terms (parse_query ''is:hidden'') = [FlagTerm False Hidden]" by code_simp
  have found: "ex_rows (evaluate_query [row] (parse_query ''is:hidden'') quiet_context) = [row]"
    using row by (simp add: evaluate_query_rows terms in_base_set_def asks_for_def matches_def
        term_truth_def flag_truth_def known_def Let_def)
  show ?thesis
    using unknown_matches_neither_polarity [of row quiet_context "HasTerm True HasRemote" "[row]"
        "parse_query ''is:hidden''"] row found by simp
qed

end
