(* ===== verification/Shelf_Page.thy ===== *)
theory Shelf_Page
  imports Query_Execute Ordered_Map "HOL-Library.Word"
begin

text \<open>
  The page of the shelf (\<open>projects/list.rs\<close>): the era section of a row, the order of the
  sections, their aggregates, the four sort keys, the window and the cursor, and the command that
  composes the loader, the parser and the executor into a page.
\<close>

unbundle bit_operations_syntax

section \<open>Sections\<close>

definition ERA_LIVE_DAYS :: int where "ERA_LIVE_DAYS = 7"
definition ERA_MONTH_DAYS :: int where "ERA_MONTH_DAYS = 30"
definition ERA_QUARTER_DAYS :: int where "ERA_QUARTER_DAYS = 90"
definition ERA_NAMED_YEARS :: int where "ERA_NAMED_YEARS = 10"

text \<open>The plain operators of an \<open>i32\<close>.\<close>

definition wrap_i32 :: "int \<Rightarrow> int" where
  "wrap_i32 x = (x + 2147483648) mod 4294967296 - 2147483648"

definition parse_i32 :: "string \<Rightarrow> int option" where
  "parse_i32 s = Option.bind (parse_i64 s) (\<lambda>n. if - 2147483648 \<le> n \<and> n \<le> 2147483647 then Some n else None)"

definition era_section_id_for :: "project_row \<Rightarrow> int \<Rightarrow> int \<Rightarrow> string" where
  "era_section_id_for row now tz_offset_min =
     (if pr_primary_location row = None then ''era:notcloned''
      else if pr_is_archived row then ''era:archived''
      else if pr_is_submodule row then ''era:submodules''
      else let age_days = wrap_i64 (now - pr_last_touched_at row) sdiv DAY
           in if age_days \<le> ERA_LIVE_DAYS then ''era:live''
              else if age_days \<le> ERA_MONTH_DAYS then ''era:month''
              else if age_days \<le> ERA_QUARTER_DAYS then ''era:q''
              else let cut_year = local_year now tz_offset_min;
                       touched = local_year (pr_last_touched_at row) tz_offset_min
                   in if touched \<ge> cut_year then ''era:year''
                      else if touched \<ge> wrap_i32 (cut_year - ERA_NAMED_YEARS) then ''era:'' @ show_int touched
                      else ''era:tail'')"

definition era_section_order :: "string \<Rightarrow> int \<Rightarrow> nat" where
  "era_section_order i cut_against_year =
     (if i = ''era:live'' then 0
      else if i = ''era:month'' then 1
      else if i = ''era:q'' then 2
      else if i = ''era:year'' then 3
      else if i = ''era:tail'' then 90
      else if i = ''era:archived'' then 92
      else if i = ''era:submodules'' then 94
      else if i = ''era:notcloned'' then 98
      else case Option.bind (Option.bind (strip_prefix ''era:'' i) parse_i32)
                  (\<lambda>year. u32_try (wrap_i32 (10 + wrap_i32 (cut_against_year - year)))) of
             Some n \<Rightarrow> n
           | None \<Rightarrow> 99)"

definition year_of :: "string \<Rightarrow> nat option" where
  "year_of i = Option.bind (strip_prefix ''era:'' i) (parse_unsigned u32_max)"

record era_aggregate =
  ea_tracked_bytes :: int
  ea_indexed_count :: nat
  ea_unpushed :: nat
  ea_uncommitted :: nat
  ea_interrupted :: nat
  ea_unchecked :: nat

definition add_u32 :: "nat \<Rightarrow> nat \<Rightarrow> nat" where "add_u32 so_far one = sat_u32 (so_far + one)"

definition aggregate_row :: "era_aggregate \<Rightarrow> loaded_row \<Rightarrow> era_aggregate" where
  "aggregate_row agg row =
     (let r = lr_row row;
          agg = (case pr_size_tracked_bytes r of
                   None \<Rightarrow> agg
                 | Some bytes \<Rightarrow> agg\<lparr>ea_tracked_bytes := sat_i64 (ea_tracked_bytes agg + bytes),
                                     ea_indexed_count := add_u32 (ea_indexed_count agg) 1\<rparr>);
          agg = (if (case pr_ahead r of Some n \<Rightarrow> n | None \<Rightarrow> 0) > 0
                 then agg\<lparr>ea_unpushed := add_u32 (ea_unpushed agg) 1\<rparr> else agg);
          agg = (if pr_is_dirty r = Some True
                 then agg\<lparr>ea_uncommitted := add_u32 (ea_uncommitted agg) 1\<rparr> else agg);
          agg = (if pr_interrupted_op r \<noteq> None
                 then agg\<lparr>ea_interrupted := add_u32 (ea_interrupted agg) 1\<rparr> else agg)
      in if pr_primary_location r \<noteq> None \<and> pr_refstate_observed_at r = None
         then agg\<lparr>ea_unchecked := add_u32 (ea_unchecked agg) 1\<rparr> else agg)"

definition aggregate_era :: "loaded_row list \<Rightarrow> era_aggregate" where
  "aggregate_era rows =
     foldl aggregate_row \<lparr>ea_tracked_bytes = 0, ea_indexed_count = 0, ea_unpushed = 0,
       ea_uncommitted = 0, ea_interrupted = 0, ea_unchecked = 0\<rparr> rows"

section \<open>Order\<close>

datatype sort_by = SortLastTouched | SortName | SortSize | SortNeedsAttention

definition rank_of :: "project_row \<Rightarrow> nat option" where
  "rank_of row =
     (case hs_state (pr_health_summary row) of
        HLive \<Rightarrow> hs_scored_open (pr_health_summary row)
      | HFrozen \<Rightarrow> hs_scored_open (pr_health_summary row)
      | HAbsent \<Rightarrow> None
      | HSuppressed \<Rightarrow> None)"

text \<open>A comparator that ends in the row id is a key: descending is the negation, and a row with
  nothing to compare is after every row that has.\<close>

definition default_key :: "loaded_row \<Rightarrow> int \<times> int" where
  "default_key l = (- pr_last_touched_at (lr_row l), pr_id (lr_row l))"

definition size_key :: "loaded_row \<Rightarrow> nat \<times> int \<times> int" where
  "size_key l =
     (case pr_size_tracked_bytes (lr_row l) of
        None \<Rightarrow> (1, 0, pr_id (lr_row l))
      | Some x \<Rightarrow> (0, - x, pr_id (lr_row l)))"

definition attention_key :: "loaded_row \<Rightarrow> nat \<times> int \<times> int \<times> int" where
  "attention_key l =
     (case rank_of (lr_row l) of
        None \<Rightarrow> (1, 0, default_key l)
      | Some n \<Rightarrow> (0, - int n, default_key l))"

definition name_key :: "loaded_row \<Rightarrow> string \<times> int" where
  "name_key l = (to_lower (pr_name (lr_row l)), pr_id (lr_row l))"

definition sort_rows :: "loaded_row list \<Rightarrow> sort_by \<Rightarrow> loaded_row list" where
  "sort_rows rows by_key =
     (case by_key of
        SortName \<Rightarrow> sort_key name_key rows
      | SortSize \<Rightarrow> sort_key size_key rows
      | SortLastTouched \<Rightarrow> sort_key default_key rows
      | SortNeedsAttention \<Rightarrow> sort_key attention_key rows)"

definition fnv_byte :: "32 word \<Rightarrow> 8 word \<Rightarrow> 32 word" where
  "fnv_byte hash byte = (hash XOR ucast byte) * 0x01000193"

definition le_bytes :: "32 word \<Rightarrow> 8 word list" where
  "le_bytes w = map (\<lambda>k. ucast (drop_bit (8 * k) w)) [0, 1, 2, 3]"

definition hex8 :: "32 word \<Rightarrow> string" where
  "hex8 w = map (\<lambda>k. hex_digit (unat (drop_bit (4 * k) w AND 15))) [7, 6, 5, 4, 3, 2, 1, 0]"

definition order_key_of :: "int list \<Rightarrow> string" where
  "order_key_of ids =
     hex8 (foldl (\<lambda>hash i. foldl fnv_byte hash (le_bytes (word_of_int \<bar>i\<bar>))) 0x811c9dc5 ids)"

section \<open>The page\<close>

record era_section =
  es_id :: string
  es_order :: nat
  es_year :: "nat option"
  es_cut_against_year :: nat
  es_count :: nat
  es_agg :: era_aggregate

record project_page =
  pg_sections :: "era_section list"
  pg_rows :: "project_row list"
  pg_window :: "nat \<times> nat"
  pg_order_key :: string
  pg_generation :: nat

definition stamp :: "int \<Rightarrow> int \<Rightarrow> loaded_row \<Rightarrow> project_row" where
  "stamp now tz l = (lr_row l)\<lparr>pr_era_section_id := era_section_id_for (lr_row l) now tz\<rparr>"

definition file_row ::
  "int \<Rightarrow> int \<Rightarrow> (string, loaded_row list) btree \<Rightarrow> loaded_row \<Rightarrow> (string, loaded_row list) btree" where
  "file_row now tz buckets l =
     (let i = era_section_id_for (lr_row l) now tz
      in bt_insert i ((case map_of buckets i of None \<Rightarrow> [] | Some ls \<Rightarrow> ls) @ [l]) buckets)"

definition section_of :: "int \<Rightarrow> string \<times> loaded_row list \<Rightarrow> era_section" where
  "section_of cut_year = (\<lambda>(i, ls).
     \<lparr>es_id = i, es_order = era_section_order i cut_year, es_year = year_of i,
      es_cut_against_year = (case u32_try cut_year of Some n \<Rightarrow> n | None \<Rightarrow> 0),
      es_count = min u32_max (length ls), es_agg = aggregate_era ls\<rparr>)"

definition build_project_page ::
  "int \<Rightarrow> int \<Rightarrow> loaded_row list \<Rightarrow> query_ast \<Rightarrow> sort_by \<Rightarrow> (nat \<times> nat) option \<Rightarrow> int
   \<Rightarrow> exec_context \<Rightarrow> project_page" where
  "build_project_page now tz rows ast by_key window generation exec =
     (let ordered = sort_rows (ex_rows (evaluate_query rows ast exec)) by_key;
          cut_year = local_year now tz;
          buckets = foldl (file_row now tz) [] ordered;
          stamped = map (stamp now tz) ordered;
          sections = sort_key es_order (map (section_of cut_year) buckets);
          count = min u32_max (length stamped);
          (asked_from, asked_to) = (case window of None \<Rightarrow> (0, count) | Some w \<Rightarrow> w);
          from_at = min asked_from count;
          to_at = max from_at (min asked_to count)
      in \<lparr>pg_sections = sections, pg_rows = take (to_at - from_at) (drop from_at stamped),
          pg_window = (from_at, to_at), pg_order_key = order_key_of (map pr_id stamped),
          pg_generation = (case u32_try generation of Some n \<Rightarrow> n | None \<Rightarrow> 0)\<rparr>)"

section \<open>The command\<close>

text \<open>The collections by lower-cased name, the commits whose subject holds a needle and the scan
  generation are read from tables the model leaves out, and are parameters.\<close>

record list_args =
  la_query :: "string option"
  la_sort :: "sort_by option"
  la_window :: "(nat \<times> nat) option"

definition subject_needle :: "query_ast \<Rightarrow> string option" where
  "subject_needle ast =
     (case List.map_filter (\<lambda>t. case t of BareTerm _ s \<Rightarrow> if length s \<ge> 3 then Some s else None | _ \<Rightarrow> None)
             (qa_terms ast) of
        [] \<Rightarrow> None
      | s # _ \<Rightarrow> Some s)"

definition projects_list ::
  "bool \<Rightarrow> (string \<Rightarrow> int option) \<Rightarrow> (string \<Rightarrow> int list) \<Rightarrow> int \<Rightarrow> index_db \<Rightarrow> int \<Rightarrow> int \<Rightarrow> list_args
   \<Rightarrow> projects_error + project_page" where
  "projects_list windows names subjects generation db now tz args =
     (case load_project_rows windows db of
        Inl e \<Rightarrow> Inl e
      | Inr rows \<Rightarrow>
          (let ast = parse_query (case la_query args of Some q \<Rightarrow> q | None \<Rightarrow> []);
               exec = \<lparr>ec_now = now, ec_tz_offset_min = tz,
                       ec_first_run_completed_at = Option.bind (db_meta db ''first_run_completed_at'') parse_i64,
                       ec_collection_ids_by_name = names, ec_paths_are_case_sensitive = (\<not> windows),
                       ec_commit_subject_hits = map_option subjects (subject_needle ast)\<rparr>
           in Inr (build_project_page now tz rows ast
                     (case la_sort args of Some s \<Rightarrow> s | None \<Rightarrow> SortLastTouched)
                     (la_window args) generation exec)))"

section \<open>Filing\<close>

abbreviation section_id :: "int \<Rightarrow> int \<Rightarrow> loaded_row \<Rightarrow> string" where
  "section_id now tz l \<equiv> era_section_id_for (lr_row l) now tz"

lemma buckets_ok: "bt_ok (foldl (file_row now tz) [] ls)"
  by (induction ls rule: rev_induct) (simp_all add: file_row_def Let_def)

text \<open>A bucket holds exactly the rows of its section, in their order.\<close>

lemma bucket_at:
  "map_of (foldl (file_row now tz) [] ls) i =
     (let filed = filter (\<lambda>l. section_id now tz l = i) ls in if filed = [] then None else Some filed)"
proof (induction ls rule: rev_induct)
  case (snoc l ls)
  then show ?case by (auto simp: file_row_def Let_def split: if_splits)
qed simp

lemma bucket_entries:
  "(i, filed) \<in> set (foldl (file_row now tz) [] ls) \<longleftrightarrow>
     filed = filter (\<lambda>l. section_id now tz l = i) ls \<and> filed \<noteq> []"
proof -
  have "distinct (map fst (foldl (file_row now tz) [] ls))" by (rule bt_ok_distinct [OF buckets_ok])
  from map_of_eq_Some_iff [OF this, of i filed] show ?thesis
    by (simp add: bucket_at Let_def split: if_splits) blast
qed

lemma bucket_keys: "fst ` set (foldl (file_row now tz) [] ls) = section_id now tz ` set ls"
proof (intro equalityI subsetI)
  fix i assume "i \<in> fst ` set (foldl (file_row now tz) [] ls)"
  then obtain filed where "(i, filed) \<in> set (foldl (file_row now tz) [] ls)" by force
  then show "i \<in> section_id now tz ` set ls" by (auto simp: bucket_entries filter_empty_conv)
next
  fix i assume "i \<in> section_id now tz ` set ls"
  then have "(i, filter (\<lambda>l. section_id now tz l = i) ls) \<in> set (foldl (file_row now tz) [] ls)"
    by (auto simp: bucket_entries filter_empty_conv)
  then show "i \<in> fst ` set (foldl (file_row now tz) [] ls)" by force
qed

lemma bucket_sizes: "sum_list (map (length \<circ> snd) (foldl (file_row now tz) [] ls)) = length ls"
proof -
  have "sum_list (map (length \<circ> snd) m) = (\<Sum>i \<in> fst ` set m. length (the (map_of m i)))"
    if "distinct (map fst m)" for m :: "(string, loaded_row list) btree"
    using that
  proof (induction m)
    case (Cons e m)
    have "(\<Sum>i \<in> fst ` set m. length (the (map_of (e # m) i))) = (\<Sum>i \<in> fst ` set m. length (the (map_of m i)))"
    proof (rule sum.cong [OF refl])
      fix i assume "i \<in> fst ` set m"
      moreover have "fst e \<notin> fst ` set m" using Cons.prems by simp
      ultimately have "i \<noteq> fst e" by blast
      then show "length (the (map_of (e # m) i)) = length (the (map_of m i))" by (cases e) simp
    qed
    with Cons show ?case by (cases e) simp
  qed simp
  from this [OF bt_ok_distinct [OF buckets_ok]]
  have "sum_list (map (length \<circ> snd) (foldl (file_row now tz) [] ls))
      = (\<Sum>i \<in> section_id now tz ` set ls. length (filter (\<lambda>l. section_id now tz l = i) ls))"
    unfolding bucket_keys by (simp add: bucket_at Let_def filter_empty_conv cong: sum.cong)
      (intro sum.cong; auto)
  also have "\<dots> = length ls"
  proof (induction ls)
    case (Cons l ls)
    have "(\<Sum>i \<in> section_id now tz ` set (l # ls). length (filter (\<lambda>x. section_id now tz x = i) (l # ls)))
        = (\<Sum>i \<in> section_id now tz ` set (l # ls). (if section_id now tz l = i then 1 else 0))
        + (\<Sum>i \<in> section_id now tz ` set (l # ls). length (filter (\<lambda>x. section_id now tz x = i) ls))"
      unfolding sum.distrib [symmetric] by (rule sum.cong) auto
    moreover have "(\<Sum>i \<in> section_id now tz ` set (l # ls). length (filter (\<lambda>x. section_id now tz x = i) ls))
        = (\<Sum>i \<in> section_id now tz ` set ls. length (filter (\<lambda>x. section_id now tz x = i) ls))"
      by (rule sum.mono_neutral_right) (auto simp: filter_empty_conv)
    moreover have "(\<Sum>i \<in> insert a A. (if a = i then 1 else 0)) = (1 :: nat)" if "finite A" for a :: string and A
      using that by (simp add: sum.delta')
    then have "(\<Sum>i \<in> section_id now tz ` set (l # ls). (if section_id now tz l = i then 1 else 0)) = (1 :: nat)"
      by simp
    ultimately show ?case using Cons by (simp only: list.size)
  qed simp
  finally show ?thesis .
qed

lemma sort_rows_mset: "mset (sort_rows rows k) = mset rows"
  by (cases k) (simp_all add: sort_rows_def)

lemma sort_rows_filter_length:
  "length (filter P (sort_rows rows k)) = length (filter P rows)"
  by (metis sort_rows_mset mset_filter size_mset)

lemma sort_rows_set [simp]: "set (sort_rows rows k) = set rows"
  using sort_rows_mset [of rows k] by (rule mset_eq_setD)

lemma sort_rows_length [simp]: "length (sort_rows rows k) = length rows"
  using sort_rows_mset [of rows k] by (rule mset_eq_length)

abbreviation matched_rows :: "loaded_row list \<Rightarrow> query_ast \<Rightarrow> exec_context \<Rightarrow> loaded_row list" where
  "matched_rows rows ast exec \<equiv> ex_rows (evaluate_query rows ast exec)"

lemma page_sections:
  "pg_sections (build_project_page now tz rows ast k window gen exec) =
     sort_key es_order (map (section_of (local_year now tz))
       (foldl (file_row now tz) [] (sort_rows (matched_rows rows ast exec) k)))"
  by (simp add: build_project_page_def Let_def split: prod.splits)


section \<open>The page does not depend on how the rows were stored\<close>

definition ids_distinct :: "loaded_row list \<Rightarrow> bool" where
  "ids_distinct rows \<longleftrightarrow> distinct (map (pr_id \<circ> lr_row) rows)"

lemma equal_keys_equal_ids:
  "name_key l = name_key m \<Longrightarrow> pr_id (lr_row l) = pr_id (lr_row m)"
  "default_key l = default_key m \<Longrightarrow> pr_id (lr_row l) = pr_id (lr_row m)"
  "size_key l = size_key m \<Longrightarrow> pr_id (lr_row l) = pr_id (lr_row m)"
  "attention_key l = attention_key m \<Longrightarrow> pr_id (lr_row l) = pr_id (lr_row m)"
  subgoal by (simp add: name_key_def)
  subgoal by (simp add: default_key_def)
  subgoal by (cases "pr_size_tracked_bytes (lr_row l)"; cases "pr_size_tracked_bytes (lr_row m)") (simp_all add: size_key_def)
  subgoal by (cases "rank_of (lr_row l)"; cases "rank_of (lr_row m)") (simp_all add: attention_key_def default_key_def)
  done

lemma key_tells_rows_apart:
  assumes "inj_on (pr_id \<circ> lr_row) A" and "\<And>l m. f l = f m \<Longrightarrow> pr_id (lr_row l) = pr_id (lr_row m)"
  shows "inj_on f A"
proof (rule inj_onI)
  fix l m assume "l \<in> A" "m \<in> A" "f l = f m"
  then show "l = m" using inj_onD [OF assms(1)] assms(2) [of l m] by simp
qed

lemmas keys_tell_rows_apart =
  key_tells_rows_apart [OF _ equal_keys_equal_ids(1)] key_tells_rows_apart [OF _ equal_keys_equal_ids(2)]
  key_tells_rows_apart [OF _ equal_keys_equal_ids(3)] key_tells_rows_apart [OF _ equal_keys_equal_ids(4)]

lemma sort_key_mset:
  assumes "mset ys = mset xs" and "inj_on f (set xs)"
  shows "sort_key f ys = sort_key f xs"
proof (rule sort_key_inj_key_eq)
  show "inj_on f (set ys)" using assms(2) mset_eq_setD [OF assms(1)] by simp
qed (simp_all add: assms(1))

lemma sort_rows_perm:
  assumes "mset ys = mset xs" and "inj_on (pr_id \<circ> lr_row) (set xs)"
  shows "sort_rows ys k = sort_rows xs k"
  unfolding sort_rows_def
  by (cases k) (simp_all only: sort_by.case sort_key_mset [OF assms(1)] keys_tell_rows_apart [OF assms(2)])

text \<open>
  Every sort key ends in a total tiebreak. Whatever order the rows were loaded in, the page is
  the same, its sections, its rows, its window and its cursor: so two reads of an unchanged library
  never differ, and the cursor moves only when the order of the projects does.
\<close>

theorem page_ignores_stored_order:
  assumes "mset rows' = mset rows" and "ids_distinct rows"
  shows "build_project_page now tz rows' ast k window gen exec = build_project_page now tz rows ast k window gen exec"
proof -
  have "mset (matched_rows rows' ast exec) = mset (matched_rows rows ast exec)"
    using assms(1) by (simp add: evaluate_query_rows)
  moreover have "inj_on (pr_id \<circ> lr_row) (set (matched_rows rows ast exec))"
    using assms(2) unfolding ids_distinct_def distinct_map
    by (elim conjE, elim inj_on_subset) (simp add: evaluate_query_rows)
  ultimately have "sort_rows (matched_rows rows' ast exec) k = sort_rows (matched_rows rows ast exec) k"
    by (rule sort_rows_perm)
  then show ?thesis by (simp add: build_project_page_def)
qed

lemma page_rows:
  "pg_rows (build_project_page now tz rows ast k (Some (a, b)) gen exec) =
     (let stamped = map (stamp now tz) (sort_rows (matched_rows rows ast exec) k);
          n = min u32_max (length stamped); f = min a n; t = max f (min b n)
      in take (t - f) (drop f stamped))"
  by (simp add: build_project_page_def Let_def)

lemma stamped_id [simp]: "pr_id (stamp now tz l) = pr_id (lr_row l)"
  by (simp add: stamp_def)

lemma page_rows_from:
  "set (pg_rows (build_project_page now tz rows ast k window gen exec)) \<subseteq> stamp now tz ` set rows"
proof -
  have "set (matched_rows rows ast exec) \<subseteq> set rows" by (auto simp: evaluate_query_rows)
  then have "set (map (stamp now tz) (sort_rows (matched_rows rows ast exec) k)) \<subseteq> stamp now tz ` set rows" by auto
  then show ?thesis
    by (auto simp: build_project_page_def Let_def split: prod.splits option.splits
        dest!: in_set_takeD in_set_dropD)
qed

lemma windows_meet:
  fixes a b c n :: nat
  assumes "a \<le> b" "b \<le> c"
  shows "take (max (min a n) (min b n) - min a n) (drop (min a n) xs) @
      take (max (min b n) (min c n) - min b n) (drop (min b n) xs)
    = take (max (min a n) (min c n) - min a n) (drop (min a n) xs)"
proof -
  define f t u where "f = min a n" and "t = min b n" and "u = min c n"
  then have le: "f \<le> t" "t \<le> u" using assms by auto
  have "take (u - f) (drop f xs) = take (t - f + (u - t)) (drop f xs)" using le by simp
  also have "\<dots> = take (t - f) (drop f xs) @ take (u - t) (drop (t - f) (drop f xs))" by (rule take_add)
  finally show ?thesis
    unfolding f_def [symmetric] t_def [symmetric] u_def [symmetric] using le by (simp add: max_def)
qed

text \<open>
  C36: the rows of a page are the projects' own. Each row the command answers is the row the opened
  page of that project loads, with nothing changed but the section it was filed under; and two
  windows that meet answer together what the window over both answers.
\<close>

theorem page_rows_are_the_projects_own:
  assumes "keyed db" and "projects_list windows names subjects gen db now tz args = Inr page"
    and "a \<le> b" and "b \<le> c"
  shows "(\<forall>r \<in> set (pg_rows page). \<exists>l. load_project_row windows db (pr_id r) = Inr l \<and> r = stamp now tz l) \<and>
    (\<exists>left right whole.
       projects_list windows names subjects gen db now tz (args\<lparr>la_window := Some (a, b)\<rparr>) = Inr left \<and>
       projects_list windows names subjects gen db now tz (args\<lparr>la_window := Some (b, c)\<rparr>) = Inr right \<and>
       projects_list windows names subjects gen db now tz (args\<lparr>la_window := Some (a, c)\<rparr>) = Inr whole \<and>
       pg_rows left @ pg_rows right = pg_rows whole)"
proof -
  obtain rows where rows: "load_project_rows windows db = Inr rows"
    using assms(2) by (auto simp: projects_list_def split: sum.splits)
  define page_of where "page_of = (\<lambda>w. build_project_page now tz rows
      (parse_query (case la_query args of Some q \<Rightarrow> q | None \<Rightarrow> []))
      (case la_sort args of Some s \<Rightarrow> s | None \<Rightarrow> SortLastTouched) w gen
      \<lparr>ec_now = now, ec_tz_offset_min = tz,
       ec_first_run_completed_at = Option.bind (db_meta db ''first_run_completed_at'') parse_i64,
       ec_collection_ids_by_name = names, ec_paths_are_case_sensitive = (\<not> windows),
       ec_commit_subject_hits = map_option subjects (subject_needle
         (parse_query (case la_query args of Some q \<Rightarrow> q | None \<Rightarrow> [])))\<rparr>)"
  have list: "projects_list windows names subjects gen db now tz (args\<lparr>la_window := w\<rparr>) = Inr (page_of w)" for w
    using rows by (simp add: projects_list_def page_of_def Let_def)
  have page: "page = page_of (la_window args)"
    using assms(2) rows by (simp add: projects_list_def page_of_def Let_def)
  have "\<exists>l. load_project_row windows db (pr_id r) = Inr l \<and> r = stamp now tz l" if "r \<in> set (pg_rows page)" for r
  proof -
    have "r \<in> stamp now tz ` set rows"
      using that unfolding page page_of_def by (rule subsetD [OF page_rows_from])
    then obtain l where "l \<in> set rows" "r = stamp now tz l" by (rule imageE) simp
    with shelf_row_loads [OF assms(1) rows] show ?thesis by auto
  qed
  moreover have "pg_rows (page_of (Some (a, b))) @ pg_rows (page_of (Some (b, c))) = pg_rows (page_of (Some (a, c)))"
    unfolding page_of_def page_rows Let_def by (rule windows_meet [OF assms(3,4)])
  ultimately show ?thesis using list by blast
qed

section \<open>The theorems at work\<close>

text \<open>Two projects, one with copies: the first was touched eleven days ago and the
  second is not cloned.\<close>

definition shelf_db :: index_db where
  "shelf_db = done_db\<lparr>db_projects := db_projects done_db @ [blank_project\<lparr>pc_id := 2\<rparr>]\<rparr>"

lemma shelf_db_loads:
  "\<exists>rows. load_project_rows False shelf_db = Inr rows \<and> map (pr_id \<circ> lr_row) rows = [1, 2] \<and>
     map (section_id 1000000 0) rows = [''era:month'', ''era:notcloned''] \<and> list_all (\<lambda>l. in_base_set (lr_row l) (parse_query [])) rows"
proof -
  have "(case load_project_rows False shelf_db of Inr rows \<Rightarrow> map (pr_id \<circ> lr_row) rows = [1, 2] \<and>
      map (section_id 1000000 0) rows = [''era:month'', ''era:notcloned''] \<and>
      list_all (\<lambda>l. in_base_set (lr_row l) (parse_query [])) rows | Inl _ \<Rightarrow> False)" by code_simp
  then show ?thesis by (auto split: sum.splits)
qed

lemma shelf_db_matches:
  assumes "list_all (\<lambda>l. in_base_set (lr_row l) (parse_query [])) rows"
  shows "matched_rows rows (parse_query []) quiet_context = rows"
proof -
  have "qa_terms (parse_query []) = []" by code_simp
  then show ?thesis using assms by (simp add: evaluate_query_rows list_all_iff)
qed


lemma page_ignores_stored_order_witness:
  "\<exists>rows. load_project_rows False shelf_db = Inr rows \<and> length rows = 2 \<and>
     build_project_page 1000000 0 (rev rows) (parse_query []) SortSize None 1 quiet_context
       = build_project_page 1000000 0 rows (parse_query []) SortSize None 1 quiet_context"
proof -
  obtain rows where rows: "load_project_rows False shelf_db = Inr rows" "map (pr_id \<circ> lr_row) rows = [1, 2]"
    using shelf_db_loads by (elim exE conjE) (rule that)
  have "length rows = 2" using arg_cong [OF rows(2), of length] by simp
  moreover have "ids_distinct rows" unfolding ids_distinct_def rows(2) by simp
  moreover have "mset (rev rows) = mset rows" by simp
  ultimately show ?thesis using rows(1) page_ignores_stored_order by blast
qed

definition all_of_it :: list_args where
  "all_of_it = \<lparr>la_query = None, la_sort = None, la_window = None\<rparr>"

lemma page_rows_are_the_projects_own_witness:
  "\<exists>page left right whole.
     projects_list False (\<lambda>_. None) (\<lambda>_. []) 1 shelf_db 1000000 0 all_of_it = Inr page \<and>
     (\<forall>r \<in> set (pg_rows page). \<exists>l. load_project_row False shelf_db (pr_id r) = Inr l \<and> r = stamp 1000000 0 l) \<and>
     projects_list False (\<lambda>_. None) (\<lambda>_. []) 1 shelf_db 1000000 0 (all_of_it\<lparr>la_window := Some (0, 1)\<rparr>) = Inr left \<and>
     projects_list False (\<lambda>_. None) (\<lambda>_. []) 1 shelf_db 1000000 0 (all_of_it\<lparr>la_window := Some (1, 9)\<rparr>) = Inr right \<and>
     projects_list False (\<lambda>_. None) (\<lambda>_. []) 1 shelf_db 1000000 0 (all_of_it\<lparr>la_window := Some (0, 9)\<rparr>) = Inr whole \<and>
     pg_rows left @ pg_rows right = pg_rows whole"
proof -
  have "keyed shelf_db"
    by (simp add: keyed_def shelf_db_def done_db_def small_db_def blank_location_def blank_project_def)
  moreover obtain page where page: "projects_list False (\<lambda>_. None) (\<lambda>_. []) 1 shelf_db 1000000 0 all_of_it = Inr page"
    using shelf_db_loads by (auto simp: projects_list_def Let_def)
  moreover have "(0 :: nat) \<le> 1" "(1 :: nat) \<le> 9" by simp_all
  ultimately show ?thesis using page_rows_are_the_projects_own [of shelf_db False _ _ 1 1000000 0 all_of_it page 0 1 9] by blast
qed

end
