(* ===== verification/Subject.thy ===== *)
theory Subject
  imports Project_Tables
begin

text \<open>
  What recognises a project across a rebuild that reassigns every id (\<open>index/subject.rs\<close>): its
  lineage and canonical remote, or where it has no commits the place of its first copy. The key of
  a subject is the string the debt items, the ledger and the sidecar hold.
\<close>

section \<open>Subjects and their keys\<close>

datatype project_subject =
    LineageSubject string "string option"
  | PathSubject string string "nat list"

definition to_hex :: "nat list \<Rightarrow> string" where
  "to_hex bytes = concat (map (\<lambda>b. [hex_digit (b div 16), hex_digit (b mod 16)]) bytes)"

fun to_key :: "project_subject \<Rightarrow> string" where
  "to_key (LineageSubject lineage remote) =
     ''lineage:'' @ lineage @ ''|remote:'' @ (case remote of None \<Rightarrow> [] | Some r \<Rightarrow> r)"
| "to_key (PathSubject kind distro path_key) = ''path:'' @ kind @ '':'' @ distro @ '':'' @ to_hex path_key"

definition hex_value :: "char \<Rightarrow> nat option" where
  "hex_value c =
     (let n = char_code c
      in if 48 \<le> n \<and> n \<le> 57 then Some (n - 48)
         else if 97 \<le> n \<and> n \<le> 102 then Some (n - 87)
         else if 65 \<le> n \<and> n \<le> 70 then Some (n - 55)
         else None)"

text \<open>\<open>u8::from_str_radix\<close> on two characters, which takes a plus sign for the first.\<close>

definition hex_byte :: "char \<Rightarrow> char \<Rightarrow> nat option" where
  "hex_byte a b =
     (if a = CHR ''+'' then hex_value b
      else case (hex_value a, hex_value b) of
             (Some x, Some y) \<Rightarrow> Some (16 * x + y)
           | _ \<Rightarrow> None)"

fun hex_pairs :: "string \<Rightarrow> nat list option" where
  "hex_pairs (a # b # s) =
     (case hex_byte a b of None \<Rightarrow> None | Some v \<Rightarrow> map_option (\<lambda>vs. v # vs) (hex_pairs s))"
| "hex_pairs _ = Some []"

definition from_hex :: "string \<Rightarrow> nat list option" where
  "from_hex hex = (if length hex mod 2 \<noteq> 0 then None else hex_pairs hex)"

definition parse_subject :: "string \<Rightarrow> project_subject option" where
  "parse_subject key =
     (case strip_prefix ''lineage:'' key of
        Some rest \<Rightarrow>
          (case split_once_str ''|remote:'' rest of
             None \<Rightarrow> None
           | Some (lineage, remote) \<Rightarrow>
               Some (LineageSubject lineage (if remote = [] then None else Some remote)))
      | None \<Rightarrow>
     (case strip_prefix ''path:'' key of
        None \<Rightarrow> None
      | Some rest \<Rightarrow>
     (case split_once CHR '':'' rest of
        None \<Rightarrow> None
      | Some (kind, rest) \<Rightarrow>
     (case split_once CHR '':'' rest of
        None \<Rightarrow> None
      | Some (distro, hex) \<Rightarrow> map_option (PathSubject kind distro) (from_hex hex)))))"

section \<open>Subjects of projects\<close>

definition first_location :: "index_db \<Rightarrow> int \<Rightarrow> location_cols option" where
  "first_location db p =
     (case sort_key lc_id (locations_for db p) of [] \<Rightarrow> None | l # _ \<Rightarrow> Some l)"

definition subject_for_project :: "index_db \<Rightarrow> int \<Rightarrow> project_subject option" where
  "subject_for_project db p =
     (case project_of db p of
        None \<Rightarrow> None
      | Some c \<Rightarrow>
          (case pc_lineage_key c of
             Some lineage \<Rightarrow> Some (LineageSubject lineage (pc_remote_key c))
           | None \<Rightarrow>
               map_option (\<lambda>l. PathSubject (lc_kind l) (lc_distro l) (lc_path_key l))
                 (first_location db p)))"

text \<open>\<open>subject.map(to_key).unwrap_or_default()\<close>, as every producer of items asks for it.\<close>

definition subject_key_of :: "index_db \<Rightarrow> int \<Rightarrow> string" where
  "subject_key_of db p = (case subject_for_project db p of None \<Rightarrow> [] | Some s \<Rightarrow> to_key s)"

definition names_project :: "index_db \<Rightarrow> project_subject \<Rightarrow> project_cols \<Rightarrow> bool" where
  "names_project db s c =
     (pc_merged_into c = None \<and>
      (case s of
         LineageSubject lineage remote \<Rightarrow> pc_lineage_key c = Some lineage \<and> pc_remote_key c = remote
       | PathSubject kind distro path_key \<Rightarrow>
           list_ex (\<lambda>l. lc_kind l = kind \<and> lc_distro l = distro \<and> lc_path_key l = path_key)
             (locations_for db (pc_id c))))"

definition resolve_subject :: "index_db \<Rightarrow> project_subject \<Rightarrow> int option" where
  "resolve_subject db s =
     (case sort (map pc_id (filter (names_project db s) (db_projects db))) of [] \<Rightarrow> None | p # _ \<Rightarrow> Some p)"

section \<open>Keys are read back\<close>

text \<open>A lineage is a digest, a remote is not the empty string, a kind and a distribution hold no
  colon, a path key is bytes.\<close>

fun subject_ok :: "project_subject \<Rightarrow> bool" where
  "subject_ok (LineageSubject lineage remote) = (CHR ''|'' \<notin> set lineage \<and> remote \<noteq> Some [])"
| "subject_ok (PathSubject kind distro path_key) =
     (CHR '':'' \<notin> set kind \<and> CHR '':'' \<notin> set distro \<and> list_all (\<lambda>b. b < 256) path_key)"

lemma hex_digit_read: "n < 16 \<Longrightarrow> hex_value (hex_digit n) = Some n \<and> hex_digit n \<noteq> CHR ''+''"
proof -
  assume n: "n < 16"
  have "char_code (hex_digit n) = (if n < 10 then 48 + n else 87 + n)"
    using n by (simp add: hex_digit_def char_code_def)
  moreover have "char_code (CHR ''+'') = 43" by (simp add: char_code_def)
  ultimately have "hex_value (hex_digit n) = Some n" "char_code (hex_digit n) \<noteq> char_code (CHR ''+'')"
    using n by (auto simp: hex_value_def Let_def)
  then show ?thesis by metis
qed

lemma hex_byte_read: "b < 256 \<Longrightarrow> hex_byte (hex_digit (b div 16)) (hex_digit (b mod 16)) = Some b"
  using hex_digit_read [of "b div 16"] hex_digit_read [of "b mod 16"] by (simp add: hex_byte_def)

lemma from_to_hex: "list_all (\<lambda>b. b < 256) bytes \<Longrightarrow> from_hex (to_hex bytes) = Some bytes"
proof -
  have "length (to_hex bytes) = 2 * length bytes" by (induction bytes) (auto simp: to_hex_def)
  moreover have "list_all (\<lambda>b. b < 256) bytes \<Longrightarrow> hex_pairs (to_hex bytes) = Some bytes"
    by (induction bytes) (auto simp: to_hex_def hex_byte_read)
  ultimately show "list_all (\<lambda>b. b < 256) bytes \<Longrightarrow> from_hex (to_hex bytes) = Some bytes"
    by (simp add: from_hex_def)
qed

lemma split_once_at: "c \<notin> set a \<Longrightarrow> split_once c (a @ c # b) = Some (a, b)"
  by (induction a) auto

lemma split_once_str_at: "c \<notin> set a \<Longrightarrow> split_once_str (c # p) (a @ c # p @ b) = Some (a, b)"
  by (induction a) (auto simp: starts_with_def)

text \<open>
  A subject's key names it alone. Reading back the key of a well-formed subject gives that
  subject, so two projects share a key only if they share a subject.
\<close>

theorem subject_keys_round_trip:
  assumes "subject_ok s"
  shows "parse_subject (to_key s) = Some s \<and> (\<forall>s'. subject_ok s' \<and> to_key s' = to_key s \<longrightarrow> s' = s)"
proof -
  have reads: "parse_subject (to_key s) = Some s" if "subject_ok s" for s
  proof (cases s)
    case (LineageSubject lineage remote)
    then show ?thesis
      using that split_once_str_at [of "CHR ''|''" lineage "''remote:''"]
      by (auto simp: parse_subject_def strip_prefix_def split: option.splits)
  next
    case (PathSubject kind distro path_key)
    then show ?thesis
      using that split_once_at [of "CHR '':''" kind] split_once_at [of "CHR '':''" distro]
      by (simp add: parse_subject_def strip_prefix_def from_to_hex)
  qed
  then show ?thesis using assms by (metis option.inject)
qed

theorem subject_keys_round_trip_witness:
  "parse_subject (to_key (PathSubject ''wsl'' ''Ubuntu'' [47, 255])) = Some (PathSubject ''wsl'' ''Ubuntu'' [47, 255]) \<and>
   to_key (PathSubject ''wsl'' ''Ubuntu'' [47, 255]) = ''path:wsl:Ubuntu:2fff''"
proof -
  have "to_key (PathSubject ''wsl'' ''Ubuntu'' [47, 255]) = ''path:wsl:Ubuntu:2fff''" by code_simp
  then show ?thesis using subject_keys_round_trip [of "PathSubject ''wsl'' ''Ubuntu'' [47, 255]"] by simp
qed

section \<open>A subject finds its project\<close>

lemma resolve_is_least:
  "resolve_subject db s = Some p \<longleftrightarrow>
     (\<exists>c \<in> set (db_projects db). names_project db s c \<and> pc_id c = p) \<and>
     (\<forall>c \<in> set (db_projects db). names_project db s c \<longrightarrow> p \<le> pc_id c)"
proof -
  let ?ids = "sort (map pc_id (filter (names_project db s) (db_projects db)))"
  have ids: "set ?ids = pc_id ` {c \<in> set (db_projects db). names_project db s c}" by auto
  have least: "sorted (x # xs) \<Longrightarrow> y \<in> set (x # xs) \<Longrightarrow> x \<le> y" for x y :: int and xs by auto
  show ?thesis
  proof (cases ?ids)
    case Nil
    then have "{c \<in> set (db_projects db). names_project db s c} = {}" using ids by (metis image_is_empty list.set(1))
    then show ?thesis using Nil by (auto simp: resolve_subject_def)
  next
    case (Cons x xs)
    have "sorted (x # xs)" using sorted_sort [of "map pc_id (filter (names_project db s) (db_projects db))"]
      unfolding Cons .
    then have low: "x \<le> y" if "y \<in> set ?ids" for y using that least unfolding Cons by blast
    have "x \<in> set ?ids" unfolding Cons by simp
    then have "(\<exists>c \<in> set (db_projects db). names_project db s c \<and> pc_id c = x)" using ids by auto
    moreover have "\<forall>c \<in> set (db_projects db). names_project db s c \<longrightarrow> x \<le> pc_id c"
      using low ids by auto
    moreover have "resolve_subject db s = Some x" using Cons by (simp add: resolve_subject_def)
    ultimately show ?thesis by (metis antisym option.inject)
  qed
qed

end
