(* ===== verification/Debt_Store.thy ===== *)
theory Debt_Store
  imports Shelf_Rows Subject
begin

text \<open>
  The debt items (\<open>debt/mod.rs\<close>, \<open>identity.rs\<close>, \<open>sweep.rs\<close>, \<open>store.rs\<close>): the registry of the
  sources, an item's identity, the sweep record with its four rules, and the store that opens,
  refreshes, closes, withdraws and reaps the items of one source. A transaction SQLite refuses is
  an error, and its writes are the caller's to roll back.
\<close>

section \<open>The registry\<close>

datatype identity_shape = Singleton | Content | External
datatype decay_layer = Dust | Cobwebs | Rust | Cracks | Overgrowth

record source_row =
  sr_source :: debt_source
  sr_shape :: identity_shape
  sr_layer :: decay_layer
  sr_scoring :: scoring
  sr_basis :: "basis option"

fun registry_for :: "debt_source \<Rightarrow> source_row" where
  "registry_for TodoMarker = \<lparr>sr_source = TodoMarker, sr_shape = Content, sr_layer = Overgrowth,
     sr_scoring = Scored, sr_basis = Some BHead\<rparr>"
| "registry_for MissingReadme = \<lparr>sr_source = MissingReadme, sr_shape = Singleton, sr_layer = Dust,
     sr_scoring = Scored, sr_basis = Some BHead\<rparr>"
| "registry_for MissingLicense = \<lparr>sr_source = MissingLicense, sr_shape = Singleton, sr_layer = Dust,
     sr_scoring = Scored, sr_basis = Some BHead\<rparr>"
| "registry_for MissingTests = \<lparr>sr_source = MissingTests, sr_shape = Singleton, sr_layer = Overgrowth,
     sr_scoring = Scored, sr_basis = Some BHead\<rparr>"
| "registry_for NoRelease = \<lparr>sr_source = NoRelease, sr_shape = Singleton, sr_layer = Dust,
     sr_scoring = Scored, sr_basis = Some BRefs\<rparr>"
| "registry_for UnpushedCommits = \<lparr>sr_source = UnpushedCommits, sr_shape = Singleton, sr_layer = Overgrowth,
     sr_scoring = Scored, sr_basis = Some BRefs\<rparr>"
| "registry_for CiRed = \<lparr>sr_source = CiRed, sr_shape = Singleton, sr_layer = Cracks,
     sr_scoring = Scored, sr_basis = Some BRemote\<rparr>"
| "registry_for DependencyAdvisory = \<lparr>sr_source = DependencyAdvisory, sr_shape = External, sr_layer = Rust,
     sr_scoring = Scored, sr_basis = Some BWorktree\<rparr>"
| "registry_for AbandonedWithDebt = \<lparr>sr_source = AbandonedWithDebt, sr_shape = Singleton, sr_layer = Cobwebs,
     sr_scoring = ShownOnly, sr_basis = None\<rparr>"

section \<open>Identity\<close>

definition singleton_key :: "string \<Rightarrow> debt_source \<Rightarrow> debt_key" where
  "singleton_key subject source = \<lparr>dk_subject = subject, dk_source = source, dk_fingerprint = []\<rparr>"

definition content_key :: "string \<Rightarrow> string \<Rightarrow> nat \<Rightarrow> debt_key" where
  "content_key subject sha ordinal =
     \<lparr>dk_subject = subject, dk_source = TodoMarker, dk_fingerprint = sha @ '':'' @ show_nat ordinal\<rparr>"

definition external_key :: "string \<Rightarrow> string \<Rightarrow> string \<Rightarrow> string \<Rightarrow> debt_key" where
  "external_key subject ecosystem package advisory =
     \<lparr>dk_subject = subject, dk_source = DependencyAdvisory,
      dk_fingerprint = ecosystem @ '':'' @ package @ '':'' @ advisory\<rparr>"

section \<open>Sweeps\<close>

record sweep_obs =
  so_project :: int
  so_source :: debt_source
  so_outcome :: sweep_outcome
  so_location :: "int option"
  so_generation :: "int option"
  so_basis :: "basis option"
  so_item_count :: "nat option"
  so_observed_at :: int

record observed_item =
  oi_key :: debt_key
  oi_scoring :: scoring
  oi_location :: "int option"
  oi_basis :: "basis option"
  oi_place :: item_place

text \<open>What SQLite refuses (a CHECK, a UNIQUE, a row that is not there) and what does not decode.\<close>

datatype debt_error = DebtRefused | DebtCodec projects_error

definition observes :: "sweep_outcome \<Rightarrow> bool" where
  "observes out \<longleftrightarrow> out = SwComplete \<or> out = SwPartial"

definition comparable :: "debt_row \<Rightarrow> sweep_obs \<Rightarrow> bool" where
  "comparable item obs \<longleftrightarrow> di_location item = so_location obs \<and> di_basis item = so_basis obs"

definition may_close :: "debt_row \<Rightarrow> sweep_obs \<Rightarrow> bool" where
  "may_close item obs \<longleftrightarrow> so_outcome obs = SwComplete \<and> comparable item obs"

definition root_is_observable :: "index_db \<Rightarrow> int \<Rightarrow> bool" where
  "root_is_observable db location \<longleftrightarrow>
     list_ex (\<lambda>l. lc_id l = location \<and> lc_presence l = ''present'' \<and> lc_removed_at l = None) (db_locations db)"

definition outcome_at_root :: "index_db \<Rightarrow> int option \<Rightarrow> sweep_outcome \<Rightarrow> sweep_outcome" where
  "outcome_at_root db location proposed =
     (case location of
        None \<Rightarrow> proposed
      | Some l \<Rightarrow> if root_is_observable db l then proposed else SwUnobservable)"

definition stored_outcome :: "index_db \<Rightarrow> int \<Rightarrow> debt_source \<Rightarrow> sweep_outcome option" where
  "stored_outcome db p source = map_option sw_outcome (db_sweeps db p source)"

definition upsert_sweep :: "index_db \<Rightarrow> sweep_obs \<Rightarrow> debt_error + index_db" where
  "upsert_sweep db obs =
     (if observes (so_outcome obs) = (so_item_count obs \<noteq> None)
      then Inr (db\<lparr>db_sweeps := (db_sweeps db)(so_project obs :=
             (db_sweeps db (so_project obs))(so_source obs \<mapsto>
               \<lparr>sw_outcome = so_outcome obs, sw_location = so_location obs,
                sw_generation = so_generation obs, sw_basis = so_basis obs,
                sw_item_count = so_item_count obs, sw_observed_at = so_observed_at obs\<rparr>))\<rparr>)
      else Inl DebtRefused)"

definition latest_sweep :: "index_db \<Rightarrow> int \<Rightarrow> debt_source \<Rightarrow> sweep_obs option" where
  "latest_sweep db p source = map_option (\<lambda>s.
     \<lparr>so_project = p, so_source = source, so_outcome = sw_outcome s, so_location = sw_location s,
      so_generation = sw_generation s, so_basis = sw_basis s, so_item_count = sw_item_count s,
      so_observed_at = sw_observed_at s\<rparr>) (db_sweeps db p source)"

section \<open>The store\<close>

datatype close_reason = Fixed | Invalidated

record debt_closure =
  cl_key :: debt_key
  cl_reason :: close_reason
  cl_scoring :: scoring

record sweep_effect =
  ef_opened :: "debt_key list"
  ef_closed :: "debt_closure list"
  ef_refreshed :: nat
  ef_unverified :: nat

definition no_effect :: sweep_effect where
  "no_effect = \<lparr>ef_opened = [], ef_closed = [], ef_refreshed = 0, ef_unverified = 0\<rparr>"

definition stored_items :: "index_db \<Rightarrow> int \<Rightarrow> debt_source \<Rightarrow> debt_row list" where
  "stored_items db p source =
     sort_key di_id (filter (\<lambda>r. di_project r = p \<and> dk_source (di_key r) = source) (db_items db))"

definition open_item :: "index_db \<Rightarrow> int \<Rightarrow> observed_item \<Rightarrow> int \<Rightarrow> debt_error + index_db" where
  "open_item db p item now =
     (if oi_key item \<in> di_key ` set (db_items db) then Inl DebtRefused
      else Inr (db\<lparr>db_items := db_items db @
             [\<lparr>di_id = db_next_item db, di_project = p, di_key = oi_key item, di_state = ItemOpen,
               di_scoring = oi_scoring item, di_location = oi_location item, di_basis = oi_basis item,
               di_place = oi_place item, di_first_seen = now, di_last_seen = now\<rparr>],
             db_next_item := db_next_item db + 1\<rparr>))"

text \<open>The row is found by its project, its source and its fingerprint.\<close>

definition refreshed :: "int \<Rightarrow> observed_item \<Rightarrow> int \<Rightarrow> debt_row \<Rightarrow> debt_row" where
  "refreshed p item now r =
     (if di_project r = p \<and> dk_source (di_key r) = dk_source (oi_key item) \<and>
         dk_fingerprint (di_key r) = dk_fingerprint (oi_key item)
      then r\<lparr>di_state := ItemOpen, di_scoring := oi_scoring item, di_location := oi_location item,
             di_basis := oi_basis item, di_place := oi_place item, di_last_seen := now\<rparr>
      else r)"

definition refresh_item :: "index_db \<Rightarrow> int \<Rightarrow> observed_item \<Rightarrow> int \<Rightarrow> index_db" where
  "refresh_item db p item now = db\<lparr>db_items := map (refreshed p item now) (db_items db)\<rparr>"

definition delete_item :: "index_db \<Rightarrow> int \<Rightarrow> index_db" where
  "delete_item db i = db\<lparr>db_items := filter (\<lambda>r. di_id r \<noteq> i) (db_items db)\<rparr>"

definition withdraw_item :: "index_db \<Rightarrow> int \<Rightarrow> index_db" where
  "withdraw_item db i =
     db\<lparr>db_items := map (\<lambda>r. if di_id r = i then r\<lparr>di_state := ItemUnverified\<rparr> else r) (db_items db)\<rparr>"

fun see_all ::
  "sweep_obs \<Rightarrow> debt_row list \<Rightarrow> observed_item list \<Rightarrow> sweep_effect \<times> index_db
   \<Rightarrow> debt_error + (sweep_effect \<times> index_db)" where
  "see_all obs stored [] st = Inr st"
| "see_all obs stored (item # items) (eff, db) =
     (if list_ex (\<lambda>s. di_key s = oi_key item) stored
      then see_all obs stored items
             (eff\<lparr>ef_refreshed := sat_u32 (ef_refreshed eff + 1)\<rparr>,
              refresh_item db (so_project obs) item (so_observed_at obs))
      else case open_item db (so_project obs) item (so_observed_at obs) of
             Inl e \<Rightarrow> Inl e
           | Inr db' \<Rightarrow> see_all obs stored items (eff\<lparr>ef_opened := ef_opened eff @ [oi_key item]\<rparr>, db'))"

definition miss_one :: "sweep_obs \<Rightarrow> debt_row \<Rightarrow> sweep_effect \<times> index_db \<Rightarrow> sweep_effect \<times> index_db" where
  "miss_one obs item = (\<lambda>(eff, db).
     (if may_close item obs
      then (eff\<lparr>ef_closed := ef_closed eff @
               [\<lparr>cl_key = di_key item, cl_reason = Fixed, cl_scoring = di_scoring item\<rparr>]\<rparr>,
            delete_item db (di_id item))
      else if comparable item obs \<and> so_outcome obs = SwPartial then (eff, db)
      else if di_state item = ItemOpen
      then (eff\<lparr>ef_unverified := sat_u32 (ef_unverified eff + 1)\<rparr>, withdraw_item db (di_id item))
      else (eff, db)))"

fun miss_all :: "sweep_obs \<Rightarrow> debt_key set \<Rightarrow> debt_row list \<Rightarrow> sweep_effect \<times> index_db \<Rightarrow> sweep_effect \<times> index_db" where
  "miss_all obs seen [] st = st"
| "miss_all obs seen (item # items) st =
     miss_all obs seen items (if di_key item \<in> seen then st else miss_one obs item st)"

definition debt_observe ::
  "index_db \<Rightarrow> sweep_obs \<Rightarrow> observed_item list \<Rightarrow> debt_error + (sweep_effect \<times> index_db)" where
  "debt_observe db obs seen =
     (case upsert_sweep db obs of
        Inl e \<Rightarrow> Inl e
      | Inr db \<Rightarrow>
          (let stored = stored_items db (so_project obs) (so_source obs)
           in case see_all obs stored seen (no_effect, db) of
                Inl e \<Rightarrow> Inl e
              | Inr st \<Rightarrow> Inr (miss_all obs (oi_key ` set seen) stored st)))"

definition anchor_gone :: "index_db \<Rightarrow> int \<Rightarrow> bool" where
  "anchor_gone db location \<longleftrightarrow>
     \<not> list_ex (\<lambda>l. lc_id l = location \<and> lc_removed_at l = None) (db_locations db)"

definition stranded :: "index_db \<Rightarrow> int \<Rightarrow> int \<Rightarrow> debt_row \<Rightarrow> bool" where
  "stranded db p primary r \<longleftrightarrow>
     di_project r = p \<and> di_state r = ItemUnverified \<and>
     (case di_location r of None \<Rightarrow> False | Some l \<Rightarrow> l \<noteq> primary \<and> anchor_gone db l)"

definition reap :: "bool \<Rightarrow> index_db \<Rightarrow> int \<Rightarrow> sweep_obs \<Rightarrow> debt_error + (nat \<times> index_db)" where
  "reap windows db p obs =
     (if so_outcome obs \<noteq> SwComplete then Inr (0, db)
      else case locations_of db p of
             Inl e \<Rightarrow> Inl (DebtCodec e)
           | Inr locations \<Rightarrow>
          (case map_option lf_id (pick_primary windows locations) of
             None \<Rightarrow> Inr (0, db)
           | Some primary \<Rightarrow>
               (if so_location obs \<noteq> Some primary then Inr (0, db)
                else Inr (sat_u32 (length (filter (stranded db p primary) (db_items db))),
                          db\<lparr>db_items := filter (\<lambda>r. \<not> stranded db p primary r) (db_items db)\<rparr>))))"

definition withdraw_where :: "(debt_row \<Rightarrow> bool) \<Rightarrow> debt_row \<Rightarrow> debt_row" where
  "withdraw_where P r = (if P r \<and> di_state r = ItemOpen then r\<lparr>di_state := ItemUnverified\<rparr> else r)"

definition mark_unverified :: "index_db \<Rightarrow> int \<Rightarrow> nat \<times> index_db" where
  "mark_unverified db p =
     (sat_u32 (length (filter (\<lambda>r. di_project r = p \<and> di_state r = ItemOpen) (db_items db))),
      db\<lparr>db_items := map (withdraw_where (\<lambda>r. di_project r = p)) (db_items db)\<rparr>)"

text \<open>The counts of the sweeps and the items withdrawn are printed by tests alone; the number of
  items is kept here.\<close>

definition mark_root_unobserved :: "index_db \<Rightarrow> int \<Rightarrow> int \<Rightarrow> nat \<times> index_db" where
  "mark_root_unobserved db location now =
     (sat_u32 (length (filter (\<lambda>r. di_location r = Some location \<and> di_state r = ItemOpen) (db_items db))),
      db\<lparr>db_sweeps := (\<lambda>p s. map_option (\<lambda>w.
             if sw_location w = Some location \<and> observes (sw_outcome w)
             then w\<lparr>sw_outcome := SwUnobservable, sw_item_count := None, sw_observed_at := now\<rparr>
             else w) (db_sweeps db p s)),
         db_items := map (withdraw_where (\<lambda>r. di_location r = Some location)) (db_items db)\<rparr>)"

section \<open>What a sweep does\<close>

text \<open>The rows the items' constraints allow: keys and ids are unique, ids come from the
  autoincrement, and a sweep has a count exactly when it observed.\<close>

definition debt_wf :: "index_db \<Rightarrow> bool" where
  "debt_wf db \<longleftrightarrow>
     distinct (map di_key (db_items db)) \<and> distinct (map di_id (db_items db)) \<and>
     list_all (\<lambda>r. di_id r < db_next_item db) (db_items db) \<and>
     (\<forall>p s w. db_sweeps db p s = Some w \<longrightarrow> observes (sw_outcome w) = (sw_item_count w \<noteq> None))"

abbreviation mine :: "sweep_obs \<Rightarrow> debt_row \<Rightarrow> bool" where
  "mine obs r \<equiv> di_project r = so_project obs \<and> dk_source (di_key r) = so_source obs"

text \<open>The project's items of the source are keyed on one subject, and what the producer saw is
  keyed on it too, each thing once.\<close>

definition settled_subject :: "string \<Rightarrow> index_db \<Rightarrow> sweep_obs \<Rightarrow> bool" where
  "settled_subject k db obs \<longleftrightarrow> list_all (\<lambda>r. mine obs r \<longrightarrow> dk_subject (di_key r) = k) (db_items db)"

definition producer_ok :: "string \<Rightarrow> sweep_obs \<Rightarrow> observed_item list \<Rightarrow> bool" where
  "producer_ok k obs seen \<longleftrightarrow>
     list_all (\<lambda>x. dk_subject (oi_key x) = k \<and> dk_source (oi_key x) = so_source obs) seen \<and>
     distinct (map oi_key seen)"

text \<open>What becomes of a row: nothing if it is not the sweep's, refreshed if it was seen, closed if
  it may be, left if the sweep was cut off at its anchor, and otherwise withdrawn.\<close>

definition after_sweep :: "sweep_obs \<Rightarrow> observed_item list \<Rightarrow> debt_row \<Rightarrow> debt_row option" where
  "after_sweep obs seen r =
     (if \<not> mine obs r then Some r
      else case find (\<lambda>x. oi_key x = di_key r) seen of
             Some x \<Rightarrow> Some (refreshed (so_project obs) x (so_observed_at obs) r)
           | None \<Rightarrow>
               (if may_close r obs then None
                else if comparable r obs \<and> so_outcome obs = SwPartial then Some r
                else Some (r\<lparr>di_state := ItemUnverified\<rparr>)))"

definition new_row :: "sweep_obs \<Rightarrow> int \<Rightarrow> observed_item \<Rightarrow> debt_row" where
  "new_row obs i x =
     \<lparr>di_id = i, di_project = so_project obs, di_key = oi_key x, di_state = ItemOpen,
      di_scoring = oi_scoring x, di_location = oi_location x, di_basis = oi_basis x,
      di_place = oi_place x, di_first_seen = so_observed_at obs, di_last_seen = so_observed_at obs\<rparr>"

fun new_rows :: "sweep_obs \<Rightarrow> int \<Rightarrow> observed_item list \<Rightarrow> debt_row list" where
  "new_rows obs i [] = []"
| "new_rows obs i (x # os) = new_row obs i x # new_rows obs (i + 1) os"

definition known :: "debt_row list \<Rightarrow> observed_item \<Rightarrow> bool" where
  "known stored x \<longleftrightarrow> oi_key x \<in> di_key ` set stored"

lemma refreshed_keeps [simp]:
  "di_id (refreshed p x t r) = di_id r" "di_project (refreshed p x t r) = di_project r"
  "di_key (refreshed p x t r) = di_key r" "di_first_seen (refreshed p x t r) = di_first_seen r"
  by (simp_all add: refreshed_def)

lemma new_row_simps [simp]:
  "di_id (new_row obs i x) = i" "di_key (new_row obs i x) = oi_key x"
  "di_project (new_row obs i x) = so_project obs" "di_first_seen (new_row obs i x) = so_observed_at obs"
  by (simp_all add: new_row_def)

lemma new_rows_ids: "r \<in> set (new_rows obs i os) \<Longrightarrow> i \<le> di_id r \<and> di_id r < i + int (length os)"
  by (induction os arbitrary: i) fastforce+

lemma new_rows_keys: "map di_key (new_rows obs i os) = map oi_key os"
  by (induction os arbitrary: i) simp_all

lemma new_rows_distinct: "distinct (map di_id (new_rows obs i os))"
  by (induction os arbitrary: i) (auto dest: new_rows_ids)

definition refresh_known :: "sweep_obs \<Rightarrow> debt_row list \<Rightarrow> observed_item list \<Rightarrow> debt_row \<Rightarrow> debt_row" where
  "refresh_known obs stored seen r =
     foldl (\<lambda>r x. refreshed (so_project obs) x (so_observed_at obs) r) r (filter (known stored) seen)"

lemma refresh_known_keeps [simp]:
  "di_id (refresh_known obs stored seen r) = di_id r"
  "di_key (refresh_known obs stored seen r) = di_key r"
proof -
  have "di_id (foldl (\<lambda>r x. refreshed p x t r) r os) = di_id r \<and>
        di_key (foldl (\<lambda>r x. refreshed p x t r) r os) = di_key r" for p t os
    by (induction os arbitrary: r) auto
  then show "di_id (refresh_known obs stored seen r) = di_id r"
    "di_key (refresh_known obs stored seen r) = di_key r" by (simp_all add: refresh_known_def)
qed

lemma refreshed_other:
  "dk_source (di_key r) = dk_source (oi_key x) \<Longrightarrow> dk_subject (di_key r) = dk_subject (oi_key x) \<Longrightarrow>
     di_key r \<noteq> oi_key x \<Longrightarrow> refreshed p x t r = r"
  by (cases "di_key r"; cases "oi_key x") (auto simp: refreshed_def)

lemma refresh_known_none:
  assumes "\<And>x. x \<in> set seen \<Longrightarrow> known stored x \<Longrightarrow> refreshed (so_project obs) x (so_observed_at obs) r = r"
  shows "refresh_known obs stored seen r = r"
  using assms unfolding refresh_known_def by (induction seen) auto

lemma see_all_rows:
  assumes "see_all obs stored seen (eff, db) = Inr (eff', db')" and "producer_ok k obs seen"
  shows "db' = db\<lparr>db_items := map (refresh_known obs stored seen) (db_items db)
                     @ new_rows obs (db_next_item db) (filter (\<lambda>x. \<not> known stored x) seen),
                  db_next_item := db_next_item db + int (length (filter (\<lambda>x. \<not> known stored x) seen))\<rparr>
    \<and> ef_opened eff' = ef_opened eff @ map oi_key (filter (\<lambda>x. \<not> known stored x) seen)
    \<and> ef_closed eff' = ef_closed eff \<and> ef_unverified eff' = ef_unverified eff"
  using assms
proof (induction seen arbitrary: eff db)
  case Nil
  then show ?case by (simp add: refresh_known_def)
next
  case (Cons x seen)
  have ok: "producer_ok k obs seen" using Cons.prems(2) by (simp add: producer_ok_def)
  have found: "list_ex (\<lambda>s. di_key s = oi_key x) stored \<longleftrightarrow> known stored x"
    by (auto simp: known_def list_ex_iff image_iff intro: sym)
  show ?case
  proof (cases "known stored x")
    case True
    then have rest: "see_all obs stored seen
        (eff\<lparr>ef_refreshed := sat_u32 (ef_refreshed eff + 1)\<rparr>,
         refresh_item db (so_project obs) x (so_observed_at obs)) = Inr (eff', db')"
      using Cons.prems(1) found by simp
    have "refresh_known obs stored seen \<circ> refreshed (so_project obs) x (so_observed_at obs)
        = refresh_known obs stored (x # seen)"
      using True by (intro ext) (simp add: refresh_known_def)
    then show ?thesis using Cons.IH [OF rest ok] True by (simp add: refresh_item_def)
  next
    case False
    then obtain db1 where x: "open_item db (so_project obs) x (so_observed_at obs) = Inr db1"
      and rest: "see_all obs stored seen (eff\<lparr>ef_opened := ef_opened eff @ [oi_key x]\<rparr>, db1) = Inr (eff', db')"
      using Cons.prems(1) found by (auto split: sum.splits)
    have db1: "db1 = db\<lparr>db_items := db_items db @ [new_row obs (db_next_item db) x],
        db_next_item := db_next_item db + 1\<rparr>"
      using x by (auto simp: open_item_def new_row_def split: if_splits)
    have "refresh_known obs stored seen (new_row obs (db_next_item db) x) = new_row obs (db_next_item db) x"
      using Cons.prems(2)
      by (intro refresh_known_none refreshed_other) (auto simp: producer_ok_def list_all_iff)
    then show ?thesis
      using Cons.IH [OF rest ok] False by (simp add: db1 refresh_known_def)
  qed
qed

definition missed_row :: "sweep_obs \<Rightarrow> debt_key set \<Rightarrow> debt_row list \<Rightarrow> debt_row \<Rightarrow> debt_row option" where
  "missed_row obs seen items r =
     (case find (\<lambda>i. di_id i = di_id r) items of
        None \<Rightarrow> Some r
      | Some i \<Rightarrow>
          (if di_key i \<in> seen then Some r
           else if may_close i obs then None
           else if comparable i obs \<and> so_outcome obs = SwPartial then Some r
           else if di_state i = ItemOpen then Some (r\<lparr>di_state := ItemUnverified\<rparr>)
           else Some r))"

lemma missed_row_None:
  assumes "di_id r \<notin> di_id ` set items"
  shows "missed_row obs seen items r = Some r"
proof -
  have "find (\<lambda>i. di_id i = di_id r) items = None" using assms by (simp add: find_None_iff image_iff) metis
  then show ?thesis by (simp add: missed_row_def)
qed

lemma map_filter_simple:
  "List.map_filter f (map g xs) = List.map_filter (f \<circ> g) xs"
  "List.map_filter f (filter P xs) = List.map_filter (\<lambda>x. if P x then f x else None) xs"
  "List.map_filter f (xs @ ys) = List.map_filter f xs @ List.map_filter f ys"
  by (induction xs) (auto simp: List.map_filter_def)

lemma map_filter_cong_on:
  "(\<And>x. x \<in> set xs \<Longrightarrow> f x = g x) \<Longrightarrow> List.map_filter f xs = List.map_filter g xs"
  by (induction xs) (auto simp: List.map_filter_def)

lemma map_filter_member: "y \<in> set (List.map_filter f xs) \<longleftrightarrow> (\<exists>x \<in> set xs. f x = Some y)"
  by (induction xs) (auto simp: List.map_filter_def)

lemma map_filter_all: "(\<And>x. x \<in> set xs \<Longrightarrow> f x = Some x) \<Longrightarrow> List.map_filter f xs = xs"
  by (induction xs) (auto simp: List.map_filter_def)

definition closes :: "sweep_obs \<Rightarrow> debt_key set \<Rightarrow> debt_row \<Rightarrow> bool" where
  "closes obs seen i \<longleftrightarrow> di_key i \<notin> seen \<and> may_close i obs"

definition closure_of :: "debt_row \<Rightarrow> debt_closure" where
  "closure_of i = \<lparr>cl_key = di_key i, cl_reason = Fixed, cl_scoring = di_scoring i\<rparr>"

lemma miss_one_rows:
  "snd (if di_key i \<in> seen then (eff, db) else miss_one obs i (eff, db)) =
     db\<lparr>db_items := List.map_filter (missed_row obs seen [i]) (db_items db)\<rparr>"
proof -
  have same: "db\<lparr>db_items := List.map_filter f (db_items db)\<rparr> = db" if "\<And>r. f r = Some r" for f
    using map_filter_all [of "db_items db" f] that by simp
  have row: "missed_row obs seen [i] r =
      (if di_id i \<noteq> di_id r \<or> di_key i \<in> seen then Some r
       else if may_close i obs then None
       else if comparable i obs \<and> so_outcome obs = SwPartial then Some r
       else if di_state i = ItemOpen then Some (r\<lparr>di_state := ItemUnverified\<rparr>)
       else Some r)" for r
    by (simp add: missed_row_def)
  have del: "filter (\<lambda>r. di_id r \<noteq> di_id i) xs
      = List.map_filter (\<lambda>r. if di_id i \<noteq> di_id r then Some r else None) xs" for xs
    by (induction xs) (auto simp: List.map_filter_def)
  have upd: "map (\<lambda>r. if di_id r = di_id i then r\<lparr>di_state := ItemUnverified\<rparr> else r) xs
      = List.map_filter (\<lambda>r. if di_id i \<noteq> di_id r then Some r else Some (r\<lparr>di_state := ItemUnverified\<rparr>)) xs" for xs
    by (induction xs) (auto simp: List.map_filter_def)
  consider "di_key i \<in> seen" | "di_key i \<notin> seen" "may_close i obs"
    | "di_key i \<notin> seen" "\<not> may_close i obs" "comparable i obs \<and> so_outcome obs = SwPartial"
    | "di_key i \<notin> seen" "\<not> may_close i obs" "\<not> (comparable i obs \<and> so_outcome obs = SwPartial)" "di_state i = ItemOpen"
    | "di_key i \<notin> seen" "\<not> may_close i obs" "\<not> (comparable i obs \<and> so_outcome obs = SwPartial)" "di_state i \<noteq> ItemOpen"
    by blast
  then show ?thesis
  proof cases
    case 2
    then show ?thesis by (simp add: row [abs_def] miss_one_def delete_item_def del cong: if_cong)
  next
    case 4
    then have "missed_row obs seen [i]
        = (\<lambda>r. if di_id i \<noteq> di_id r then Some r else Some (r\<lparr>di_state := ItemUnverified\<rparr>))"
      by (intro ext) (auto simp: row)
    moreover have "miss_one obs i (eff, db) =
        (eff\<lparr>ef_unverified := sat_u32 (ef_unverified eff + 1)\<rparr>, withdraw_item db (di_id i))"
      using 4 by (auto simp: miss_one_def)
    ultimately show ?thesis using 4(1) by (simp add: withdraw_item_def upd)
  qed (simp_all add: row [abs_def] miss_one_def same cong: if_cong)
qed

lemma miss_one_closed:
  "ef_closed (fst (if di_key i \<in> seen then (eff, db) else miss_one obs i (eff, db))) =
     ef_closed eff @ (if closes obs seen i then [closure_of i] else [])"
  "ef_opened (fst (if di_key i \<in> seen then (eff, db) else miss_one obs i (eff, db))) = ef_opened eff"
  by (auto simp: miss_one_def closes_def closure_of_def)

lemma missed_row_step:
  assumes "di_id i \<notin> di_id ` set items"
  shows "Option.bind (missed_row obs seen [i] r) (missed_row obs seen items) = missed_row obs seen (i # items) r"
proof (cases "di_id i = di_id r")
  case True
  then have "missed_row obs seen (i # items) r = missed_row obs seen [i] r" by (simp add: missed_row_def)
  moreover have "di_id r' = di_id i" if "missed_row obs seen [i] r = Some r'" for r'
    using that True by (auto simp: missed_row_def split: if_splits)
  then have "missed_row obs seen items r' = Some r'" if "missed_row obs seen [i] r = Some r'" for r'
    using that assms by (intro missed_row_None) simp
  ultimately show ?thesis by (cases "missed_row obs seen [i] r") simp_all
qed (simp add: missed_row_def)

lemma map_filter_bind:
  "List.map_filter g (List.map_filter f xs) = List.map_filter (\<lambda>x. Option.bind (f x) g) xs"
  by (induction xs) (auto simp: List.map_filter_def)

lemma miss_all_rows:
  assumes "distinct (map di_id items)"
  shows "snd (miss_all obs seen items (eff, db)) =
      db\<lparr>db_items := List.map_filter (missed_row obs seen items) (db_items db)\<rparr> \<and>
    ef_closed (fst (miss_all obs seen items (eff, db))) =
      ef_closed eff @ map closure_of (filter (closes obs seen) items) \<and>
    ef_opened (fst (miss_all obs seen items (eff, db))) = ef_opened eff"
  using assms
proof (induction items arbitrary: eff db)
  case Nil
  have "List.map_filter (missed_row obs seen []) (db_items db) = db_items db"
    by (rule map_filter_all) (simp add: missed_row_def)
  then show ?case by simp
next
  case (Cons i items)
  obtain eff1 db1 where st: "(if di_key i \<in> seen then (eff, db) else miss_one obs i (eff, db)) = (eff1, db1)"
    by (cases "if di_key i \<in> seen then (eff, db) else miss_one obs i (eff, db)")
  have db1: "db1 = db\<lparr>db_items := List.map_filter (missed_row obs seen [i]) (db_items db)\<rparr>"
    using miss_one_rows [where i = i and seen = seen and eff = eff and db = db and obs = obs] unfolding st by simp
  have eff1: "ef_closed eff1 = ef_closed eff @ (if closes obs seen i then [closure_of i] else [])"
    "ef_opened eff1 = ef_opened eff"
    using miss_one_closed [where i = i and seen = seen and eff = eff and db = db and obs = obs] unfolding st by simp_all
  have fresh: "di_id i \<notin> di_id ` set items" and d: "distinct (map di_id items)" using Cons.prems by simp_all
  have rows: "List.map_filter (missed_row obs seen items) (db_items db1)
      = List.map_filter (missed_row obs seen (i # items)) (db_items db)"
    unfolding db1 by (simp add: map_filter_bind missed_row_step [OF fresh])
  show ?case using Cons.IH [OF d, of eff1 db1] rows by (simp add: st eff1 db1)
qed

lemma see_all_fresh:
  assumes "see_all obs stored seen (eff, db) = Inr st" and "x \<in> set seen" and "\<not> known stored x"
  shows "oi_key x \<notin> di_key ` set (db_items db)"
  using assms
proof (induction seen arbitrary: eff db)
  case (Cons y seen)
  have found: "list_ex (\<lambda>s. di_key s = oi_key y) stored \<longleftrightarrow> known stored y"
    by (auto simp: known_def list_ex_iff image_iff intro: sym)
  show ?case
  proof (cases "known stored y")
    case True
    then have "oi_key x \<notin> di_key ` set (db_items (refresh_item db (so_project obs) y (so_observed_at obs)))"
      using Cons found by (intro Cons.IH) auto
    then show ?thesis by (auto simp: refresh_item_def image_iff)
  next
    case False
    then obtain db1 where y: "open_item db (so_project obs) y (so_observed_at obs) = Inr db1"
      and rest: "see_all obs stored seen (eff\<lparr>ef_opened := ef_opened eff @ [oi_key y]\<rparr>, db1) = Inr st"
      using Cons.prems(1) found by (auto split: sum.splits)
    show ?thesis
      using y Cons.IH [OF rest _ Cons.prems(3)] Cons.prems(2) by (auto simp: open_item_def split: if_splits)
  qed
qed simp

lemma stored_items_set [simp]:
  "set (stored_items db p s) = {r \<in> set (db_items db). di_project r = p \<and> dk_source (di_key r) = s}"
  by (auto simp: stored_items_def)

lemma stored_items_ids: "distinct (map di_id (db_items db)) \<Longrightarrow> distinct (map di_id (stored_items db p s))"
  unfolding stored_items_def by (auto simp: distinct_map intro: inj_on_subset)

lemma stored_items_upsert: "upsert_sweep db obs = Inr db1 \<Longrightarrow>
    db_items db1 = db_items db \<and> db_next_item db1 = db_next_item db \<and>
    stored_items db1 = stored_items db \<and>
    db1\<lparr>db_sweeps := db_sweeps db\<rparr> = db \<and> observes (so_outcome obs) = (so_item_count obs \<noteq> None)"
  by (auto simp: upsert_sweep_def stored_items_def [abs_def] split: if_splits)

text \<open>Seen and unseen rows of the sweep, row by row.\<close>

lemma same_subject_key:
  assumes "settled_subject k db obs" and "r \<in> set (db_items db)" and "mine obs r"
  shows "dk_subject (di_key r) = k"
  using assms by (simp add: settled_subject_def list_all_iff)

lemma row_after:
  assumes wf: "distinct (map di_id (db_items db))" and sub: "settled_subject k db obs"
    and seen: "producer_ok k obs seen" and r: "r \<in> set (db_items db)"
    and stored: "set stored = {r \<in> set (db_items db). mine obs r}" "distinct (map di_id stored)"
  shows "missed_row obs (oi_key ` set seen) stored (refresh_known obs stored seen r) = after_sweep obs seen r"
proof (cases "mine obs r")
  case False
  have "refresh_known obs stored seen r = r"
    using False seen by (intro refresh_known_none) (auto simp: producer_ok_def list_all_iff refreshed_def)
  moreover have "di_id r \<notin> di_id ` set stored"
  proof
    assume "di_id r \<in> di_id ` set stored"
    then obtain r' where "r' \<in> set (db_items db)" "mine obs r'" "di_id r' = di_id r" using stored(1) by auto
    then have "r' = r" using wf r by (auto simp: distinct_map dest: inj_onD)
    then show False using False \<open>mine obs r'\<close> by simp
  qed
  ultimately show ?thesis using False missed_row_None by (auto simp: after_sweep_def)
next
  case True
  then have "r \<in> set stored" using stored(1) r by simp
  then have found: "find (\<lambda>i. di_id i = di_id r) stored = Some r"
    using stored(2) by (induction stored) (auto simp: image_iff)
  have keyed: "refreshed (so_project obs) x t r = r" if "x \<in> set seen" "oi_key x \<noteq> di_key r" for x t
    using that True seen same_subject_key [OF sub r] by (intro refreshed_other) (auto simp: producer_ok_def list_all_iff)
  show ?thesis
  proof (cases "find (\<lambda>x. oi_key x = di_key r) seen")
    case None
    then have unseen: "di_key r \<notin> oi_key ` set seen" by (auto simp: find_None_iff)
    then have "refresh_known obs stored seen r = r" by (intro refresh_known_none keyed) (auto simp: image_iff)
    then show ?thesis
      using True found None unseen
      by (cases "di_state r") (auto simp: missed_row_def after_sweep_def)
  next
    case (Some x)
    then obtain before rest where split: "seen = before @ x # rest" "oi_key x = di_key r"
      by (auto simp: find_Some_iff intro: id_take_nth_drop)
    have "distinct (map oi_key seen)" using seen by (simp add: producer_ok_def)
    then have "di_key r \<notin> oi_key ` (set before \<union> set rest)" using split by auto
    then have others: "oi_key y \<noteq> di_key r" if "y \<in> set before \<union> set rest" for y
      using that by (metis image_eqI)
    have skip: "foldl (\<lambda>r y. refreshed (so_project obs) y (so_observed_at obs) r) r' ys = r'"
      if "\<And>y. y \<in> set ys \<Longrightarrow> refreshed (so_project obs) y (so_observed_at obs) r' = r'" for r' ys
      using that by (induction ys) auto
    let ?r = "refreshed (so_project obs) x (so_observed_at obs) r"
    have "refreshed (so_project obs) y (so_observed_at obs) ?r = ?r" if "y \<in> set rest" for y
      using that others [of y] split True seen same_subject_key [OF sub r]
      by (intro refreshed_other) (auto simp: producer_ok_def list_all_iff)
    moreover have "refreshed (so_project obs) y (so_observed_at obs) r = r" if "y \<in> set before" for y
      using that others [of y] split by (intro keyed) auto
    moreover have "known stored x" using \<open>r \<in> set stored\<close> split(2) by (auto simp: known_def)
    ultimately have "foldl (\<lambda>r y. refreshed (so_project obs) y (so_observed_at obs) r) r (filter (known stored) before) = r"
      "foldl (\<lambda>r y. refreshed (so_project obs) y (so_observed_at obs) r) ?r (filter (known stored) rest) = ?r"
      "known stored x"
      by (auto intro!: skip)
    then have "refresh_known obs stored seen r = ?r" by (simp add: refresh_known_def split(1))
    moreover have "di_key r \<in> oi_key ` set seen" using split by force
    ultimately show ?thesis using True found Some by (simp add: missed_row_def after_sweep_def)
  qed
qed

lemma after_sweep_keeps:
  "after_sweep obs seen r = Some r' \<Longrightarrow>
     di_id r' = di_id r \<and> di_key r' = di_key r \<and> di_project r' = di_project r \<and> di_first_seen r' = di_first_seen r"
  by (auto simp: after_sweep_def split: if_splits option.splits)

lemma map_filter_distinct:
  assumes "distinct (map f xs)" and "\<And>x y. g x = Some y \<Longrightarrow> f y = f x"
  shows "distinct (map f (List.map_filter g xs)) \<and> f ` set (List.map_filter g xs) \<subseteq> f ` set xs"
  using assms by (induction xs) (auto simp: List.map_filter_def split: option.splits)

lemma sweep_never_codec: "debt_observe db obs seen \<noteq> Inl (DebtCodec e)"
proof -
  have "see_all obs stored items (eff, d) \<noteq> Inl (DebtCodec e)" for stored items eff d
    by (induction items arbitrary: eff d) (auto simp: open_item_def split: sum.splits)
  then show ?thesis by (auto simp: debt_observe_def Let_def upsert_sweep_def split: sum.splits if_splits)
qed

lemma sweep_accepted: "debt_observe db obs seen = Inl DebtRefused \<or> (\<exists>eff db'. debt_observe db obs seen = Inr (eff, db'))"
proof (cases "debt_observe db obs seen")
  case (Inl e)
  then show ?thesis using sweep_never_codec [of db obs seen] by (cases e) auto
qed auto

lemma sweep_refused:
  assumes "producer_ok k obs seen" and "distinct (map di_key (db_items db))"
  shows "(debt_observe db obs seen = Inl DebtRefused) =
    (observes (so_outcome obs) = (so_item_count obs = None) \<or>
     (\<exists>x \<in> set seen. \<exists>r \<in> set (db_items db). di_key r = oi_key x \<and> di_project r \<noteq> so_project obs))"
proof -
  let ?stored = "stored_items db (so_project obs) (so_source obs)"
  have see: "(\<exists>st. see_all obs ?stored seen (eff, db1) = Inr st) \<longleftrightarrow>
       (\<forall>x \<in> set seen. \<not> known ?stored x \<longrightarrow> oi_key x \<notin> di_key ` set (db_items db1))"
    if "producer_ok k obs seen" for eff db1 seen
    using that
  proof (induction seen arbitrary: eff db1)
    case (Cons y seen)
    have ok: "producer_ok k obs seen" using Cons.prems by (simp add: producer_ok_def)
    have found: "list_ex (\<lambda>s. di_key s = oi_key y) ?stored \<longleftrightarrow> known ?stored y"
      by (simp add: known_def list_ex_iff image_iff) metis
    have later: "x \<in> set seen \<Longrightarrow> oi_key x \<noteq> oi_key y" for x
      using Cons.prems by (auto simp: producer_ok_def image_iff)
    show ?case
    proof (cases "known ?stored y")
      case True
      have "di_key ` set (db_items (refresh_item db1 (so_project obs) y (so_observed_at obs))) = di_key ` set (db_items db1)"
        by (simp add: refresh_item_def image_image)
      then show ?thesis using True found Cons.IH [OF ok] by simp
    next
      case False
      then show ?thesis
        using found Cons.IH [OF ok] later
        by (cases "oi_key y \<in> di_key ` set (db_items db1)") (auto simp: open_item_def)
    qed
  qed simp
  have "(debt_observe db obs seen = Inl DebtRefused) = (\<nexists>st. debt_observe db obs seen = Inr st)"
    using sweep_accepted [of db obs seen] by auto
  also have "\<dots> = (observes (so_outcome obs) = (so_item_count obs = None) \<or>
      \<not> (\<forall>x \<in> set seen. \<not> known ?stored x \<longrightarrow> oi_key x \<notin> di_key ` set (db_items db)))"
  proof (cases "upsert_sweep db obs")
    case (Inl e)
    then show ?thesis by (auto simp: debt_observe_def upsert_sweep_def split: if_splits)
  next
    case (Inr db1)
    note up = stored_items_upsert [OF Inr]
    have "(\<exists>st. debt_observe db obs seen = Inr st) = (\<exists>st. see_all obs ?stored seen (no_effect, db1) = Inr st)"
      using Inr up by (auto simp: debt_observe_def Let_def split: sum.splits)
    then show ?thesis unfolding see [OF assms(1), of no_effect db1] using up by (cases "so_item_count obs") simp_all
  qed
  also have "(\<not> (\<forall>x \<in> set seen. \<not> known ?stored x \<longrightarrow> oi_key x \<notin> di_key ` set (db_items db))) =
      (\<exists>x \<in> set seen. \<exists>r \<in> set (db_items db). di_key r = oi_key x \<and> di_project r \<noteq> so_project obs)"
  proof -
    have each: "(oi_key x \<in> di_key ` set (db_items db) \<and> \<not> known ?stored x) =
        (\<exists>r \<in> set (db_items db). di_key r = oi_key x \<and> di_project r \<noteq> so_project obs)" if x: "x \<in> set seen" for x
    proof (cases "oi_key x \<in> di_key ` set (db_items db)")
      case True
      then obtain r where r: "r \<in> set (db_items db)" "oi_key x = di_key r" by (rule imageE) simp
      have only: "r' = r" if "r' \<in> set (db_items db)" "di_key r' = di_key r" for r'
        using assms(2) r(1) that by (auto simp: distinct_map dest: inj_onD)
      have "dk_source (di_key r) = so_source obs"
        using assms(1) x r(2) by (auto simp: producer_ok_def list_all_iff)
      moreover have "known ?stored x \<longleftrightarrow> (\<exists>r' \<in> set (db_items db). mine obs r' \<and> di_key r' = di_key r)"
        unfolding known_def r(2) stored_items_set image_iff by (auto intro: sym)
      ultimately have "known ?stored x \<longleftrightarrow> di_project r = so_project obs"
        using r(1) only by metis
      moreover have "(\<exists>r' \<in> set (db_items db). di_key r' = oi_key x \<and> di_project r' \<noteq> so_project obs)
          \<longleftrightarrow> di_project r \<noteq> so_project obs" using r only by metis
      ultimately show ?thesis using True by simp
    next
      case False
      then show ?thesis by (metis image_eqI)
    qed
    have "(\<not> (\<forall>x \<in> set seen. \<not> known ?stored x \<longrightarrow> oi_key x \<notin> di_key ` set (db_items db))) =
        (\<exists>x \<in> set seen. oi_key x \<in> di_key ` set (db_items db) \<and> \<not> known ?stored x)" by blast
    also have "\<dots> = (\<exists>x \<in> set seen. \<exists>r \<in> set (db_items db). di_key r = oi_key x \<and> di_project r \<noteq> so_project obs)"
      by (rule bex_cong [OF refl each])
    finally show ?thesis .
  qed
  finally show ?thesis .
qed

lemma sweep_exact:
  assumes "debt_wf db" and "settled_subject k db obs" and "producer_ok k obs seen"
    and "debt_observe db obs seen = Inr (eff, db')"
  shows "db_items db' = List.map_filter (after_sweep obs seen) (db_items db) @
      new_rows obs (db_next_item db) (filter (\<lambda>x. oi_key x \<notin> di_key ` set (db_items db)) seen) \<and>
    ef_opened eff = map oi_key (filter (\<lambda>x. oi_key x \<notin> di_key ` set (db_items db)) seen) \<and>
    ef_closed eff = map closure_of (filter (\<lambda>r. di_key r \<notin> oi_key ` set seen \<and> may_close r obs)
      (stored_items db (so_project obs) (so_source obs))) \<and>
    latest_sweep db' (so_project obs) (so_source obs) = Some obs \<and>
    db'\<lparr>db_items := db_items db, db_next_item := db_next_item db, db_sweeps := db_sweeps db\<rparr> = db \<and>
    debt_wf db' \<and> settled_subject k db' obs"
proof -
  let ?stored = "stored_items db (so_project obs) (so_source obs)"
  let ?new = "filter (\<lambda>x. oi_key x \<notin> di_key ` set (db_items db)) seen"
  obtain db1 st where u: "upsert_sweep db obs = Inr db1"
    and see: "see_all obs ?stored seen (no_effect, db1) = Inr st"
    and miss: "(eff, db') = miss_all obs (oi_key ` set seen) ?stored st"
    using assms(4) stored_items_upsert by (auto simp: debt_observe_def Let_def split: sum.splits)
  obtain eff2 db2 where st: "st = (eff2, db2)" by (cases st)
  note up = stored_items_upsert [OF u]
  have new: "filter (\<lambda>x. \<not> known ?stored x) seen = ?new"
  proof (rule filter_cong [OF refl])
    fix x assume "x \<in> set seen"
    then show "(\<not> known ?stored x) = (oi_key x \<notin> di_key ` set (db_items db))"
      using see_all_fresh [OF see [unfolded st] \<open>x \<in> set seen\<close>] up by (auto simp: known_def)
  qed
  note seen2 = see_all_rows [OF see [unfolded st] assms(3), unfolded new]
  have ids: "distinct (map di_id (db_items db))" and keys: "distinct (map di_key (db_items db))"
    and low: "list_all (\<lambda>r. di_id r < db_next_item db) (db_items db)"
    using assms(1) by (simp_all add: debt_wf_def)
  note missed = miss_all_rows [OF stored_items_ids [OF ids], where obs = obs and seen = "oi_key ` set seen"
      and eff = eff2 and db = db2]
  have new_kept: "missed_row obs (oi_key ` set seen) ?stored r = Some r"
    if "r \<in> set (new_rows obs (db_next_item db) ?new)" for r
    using new_rows_ids [OF that] low by (intro missed_row_None) (auto simp: list_all_iff)
  have "db' = snd (miss_all obs (oi_key ` set seen) ?stored (eff2, db2))"
    and "eff = fst (miss_all obs (oi_key ` set seen) ?stored (eff2, db2))"
    using miss [symmetric] st by simp_all
  then have db': "db' = db2\<lparr>db_items := List.map_filter (missed_row obs (oi_key ` set seen) ?stored) (db_items db2)\<rparr>"
    and eff: "ef_closed eff = ef_closed eff2 @ map closure_of (filter (closes obs (oi_key ` set seen)) ?stored)"
      "ef_opened eff = ef_opened eff2"
    using missed by simp_all
  have items: "db_items db' = List.map_filter (after_sweep obs seen) (db_items db) @ new_rows obs (db_next_item db) ?new"
  proof -
    have "db_items db' = List.map_filter (missed_row obs (oi_key ` set seen) ?stored) (db_items db2)"
      by (simp add: db')
    also have "\<dots> = List.map_filter (missed_row obs (oi_key ` set seen) ?stored \<circ> refresh_known obs ?stored seen) (db_items db)
        @ List.map_filter (missed_row obs (oi_key ` set seen) ?stored) (new_rows obs (db_next_item db) ?new)"
      using seen2 up by (simp add: map_filter_simple)
    also have "List.map_filter (missed_row obs (oi_key ` set seen) ?stored \<circ> refresh_known obs ?stored seen) (db_items db)
        = List.map_filter (after_sweep obs seen) (db_items db)"
      by (rule map_filter_cong_on) (simp add: row_after [OF ids assms(2,3) _ _ stored_items_ids [OF ids]])
    finally show ?thesis by (simp add: map_filter_all new_kept)
  qed
  let ?old = "List.map_filter (after_sweep obs seen) (db_items db)"
  have old_keys: "distinct (map di_key ?old)" "di_key ` set ?old \<subseteq> di_key ` set (db_items db)"
    and old_ids: "distinct (map di_id ?old)" "di_id ` set ?old \<subseteq> di_id ` set (db_items db)"
    using map_filter_distinct [OF keys, of "after_sweep obs seen"] map_filter_distinct [OF ids, of "after_sweep obs seen"]
      after_sweep_keeps [of obs seen] by blast+
  have next_id: "db_next_item db' = db_next_item db + int (length ?new)" using seen2 up db' by simp
  have bounds: "di_id r < db_next_item db'" if "r \<in> set ?old" for r
    using that old_ids(2) low next_id by (fastforce simp: list_all_iff)
  have "distinct (map di_key (db_items db'))"
  proof -
    have "distinct (map oi_key ?new)" using assms(3) by (simp add: producer_ok_def distinct_map_filter)
    moreover have "set (map oi_key ?new) \<inter> di_key ` set (db_items db) = {}" by auto
    then have "set (map di_key ?old) \<inter> set (map oi_key ?new) = {}" using old_keys(2) unfolding set_map by blast
    ultimately show ?thesis using old_keys(1) unfolding items map_append distinct_append new_rows_keys by blast
  qed
  moreover have "distinct (map di_id (db_items db'))"
    using old_ids new_rows_distinct low unfolding items map_append distinct_append
    by (fastforce simp: list_all_iff dest: new_rows_ids)
  moreover have "list_all (\<lambda>r. di_id r < db_next_item db') (db_items db')"
    using bounds next_id unfolding items by (auto simp: list_all_iff dest: new_rows_ids)
  moreover have "db_sweeps db' = db_sweeps db1" using seen2 db' by simp
  moreover have "\<forall>p s w. db_sweeps db1 p s = Some w \<longrightarrow> observes (sw_outcome w) = (sw_item_count w \<noteq> None)"
    using assms(1) u by (auto simp: debt_wf_def upsert_sweep_def split: if_splits)
  ultimately have wf: "debt_wf db'" by (simp add: debt_wf_def)
  have old_sub: "dk_subject (di_key r) = k" if "r \<in> set ?old" "mine obs r" for r
  proof -
    from that(1) have "\<exists>r0 \<in> set (db_items db). after_sweep obs seen r0 = Some r"
      by (simp add: map_filter_member)
    then obtain r0 where "r0 \<in> set (db_items db)" "after_sweep obs seen r0 = Some r" by blast
    then show ?thesis using that(2) assms(2) after_sweep_keeps [of obs seen r0 r]
      by (simp add: settled_subject_def list_all_iff)
  qed
  have new_sub: "dk_subject (di_key r) = k" if "r \<in> set (new_rows obs (db_next_item db) ?new)" for r
  proof -
    have "di_key r \<in> set (map di_key (new_rows obs (db_next_item db) ?new))" using that by simp
    then show ?thesis using assms(3) unfolding new_rows_keys by (auto simp: producer_ok_def list_all_iff)
  qed
  have "settled_subject k db' obs"
    unfolding settled_subject_def list_all_iff items set_append using old_sub new_sub by blast
  moreover have "latest_sweep db' (so_project obs) (so_source obs) = Some obs"
    using u \<open>db_sweeps db' = db_sweeps db1\<close>
    by (auto simp: latest_sweep_def upsert_sweep_def split: if_splits)
  moreover have "db'\<lparr>db_items := db_items db, db_next_item := db_next_item db, db_sweeps := db_sweeps db\<rparr> = db"
  proof -
    obtain w where "db1 = db\<lparr>db_sweeps := w\<rparr>" using u by (auto simp: upsert_sweep_def split: if_splits)
    then show ?thesis using seen2 db' by simp
  qed
  moreover have "ef_opened eff = map oi_key ?new" using seen2 eff by (simp add: no_effect_def)
  moreover have "ef_closed eff = map closure_of (filter (\<lambda>r. di_key r \<notin> oi_key ` set seen \<and> may_close r obs) ?stored)"
    using seen2 eff by (simp add: no_effect_def closes_def [abs_def])
  ultimately show ?thesis using items wf by blast
qed


text \<open>
  A sweep is refused exactly when its count does not go with its outcome, or when it saw
  something whose key an item of another project already holds. Two live projects can share a
  subject, and then what both of them lack can be stored for one of them only.
\<close>

theorem sweep_refused_iff:
  assumes "producer_ok k obs seen" and "distinct (map di_key (db_items db))"
  shows "(debt_observe db obs seen = Inl DebtRefused) =
    (observes (so_outcome obs) = (so_item_count obs = None) \<or>
     (\<exists>x \<in> set seen. \<exists>r \<in> set (db_items db). di_key r = oi_key x \<and> di_project r \<noteq> so_project obs))"
  using assms by (rule sweep_refused)

definition no_place :: item_place where
  "no_place = \<lparr>ip_path_bytes = None, ip_path_display = None, ip_line = None, ip_column = None, ip_salient = None\<rparr>"

definition sample_sweep :: sweep_obs where
  "sample_sweep = \<lparr>so_project = 1, so_source = TodoMarker, so_outcome = SwComplete, so_location = Some 1,
     so_generation = None, so_basis = Some BHead, so_item_count = Some 1, so_observed_at = 70\<rparr>"

definition marker :: "string \<Rightarrow> string \<Rightarrow> observed_item" where
  "marker subject sha = \<lparr>oi_key = content_key subject sha 0, oi_scoring = Scored, oi_location = Some 1,
     oi_basis = Some BHead, oi_place = no_place\<rparr>"

definition marker_row :: "int \<Rightarrow> string \<Rightarrow> string \<Rightarrow> debt_row" where
  "marker_row i subject sha = \<lparr>di_id = i, di_project = 1, di_key = content_key subject sha 0,
     di_state = ItemOpen, di_scoring = Scored, di_location = Some 1, di_basis = Some BHead,
     di_place = no_place, di_first_seen = 5, di_last_seen = 5\<rparr>"

definition marked_db :: index_db where
  "marked_db = small_db\<lparr>db_items := [marker_row 1 ''s'' ''aa'', marker_row 2 ''s'' ''bb''], db_next_item := 3\<rparr>"

lemma marked_db_keys: "distinct (map di_key (db_items marked_db))" by code_simp


section \<open>Items over time\<close>

text \<open>One well-formed state after another: ids are not used again, and a row that survives keeps its
  key, its project and its first sighting.\<close>

definition evolves :: "index_db \<Rightarrow> index_db \<Rightarrow> bool" where
  "evolves db db' \<longleftrightarrow>
     (debt_wf db \<longrightarrow> debt_wf db') \<and> db_next_item db \<le> db_next_item db' \<and>
     (\<forall>r' \<in> set (db_items db'). di_id r' < db_next_item db \<longrightarrow>
        (\<exists>r \<in> set (db_items db). di_id r' = di_id r \<and> di_key r' = di_key r \<and>
           di_project r' = di_project r \<and> di_first_seen r' = di_first_seen r))"

lemma evolves_refl: "evolves db db"
  by (auto simp: evolves_def)

lemma evolves_trans: "evolves a b \<Longrightarrow> evolves b c \<Longrightarrow> evolves a c"
proof -
  assume ab: "evolves a b" and bc: "evolves b c"
  have "\<exists>r \<in> set (db_items a). di_id r'' = di_id r \<and> di_key r'' = di_key r \<and>
      di_project r'' = di_project r \<and> di_first_seen r'' = di_first_seen r"
    if r: "r'' \<in> set (db_items c)" "di_id r'' < db_next_item a" for r''
  proof -
    have "di_id r'' < db_next_item b" using r(2) ab by (simp add: evolves_def)
    then obtain r' where "r' \<in> set (db_items b)" "di_id r'' = di_id r'" "di_key r'' = di_key r'"
      "di_project r'' = di_project r'" "di_first_seen r'' = di_first_seen r'"
      using bc r(1) unfolding evolves_def by blast
    then show ?thesis using ab r(2) unfolding evolves_def by metis
  qed
  then show "evolves a c" using ab bc unfolding evolves_def by (meson order.trans)
qed

lemma evolves_filter:
  assumes "db_items db' = filter P (db_items db)" and "db_next_item db' = db_next_item db"
    and "\<And>p s. db_sweeps db' p s \<in> {None, db_sweeps db p s}"
  shows "evolves db db'"
proof -
  have "\<forall>p s w. db_sweeps db' p s = Some w \<longrightarrow> observes (sw_outcome w) = (sw_item_count w \<noteq> None)" if "debt_wf db"
    using assms(3) that by (metis debt_wf_def empty_iff insert_iff option.distinct(1))
  then show ?thesis
    using assms(1,2) by (auto simp: evolves_def debt_wf_def list_all_iff distinct_map_filter)
qed

lemma evolves_map:
  assumes "db_items db' = map f (db_items db)" and "db_next_item db' = db_next_item db"
    and "\<And>r. di_id (f r) = di_id r \<and> di_key (f r) = di_key r \<and> di_project (f r) = di_project r \<and>
           di_first_seen (f r) = di_first_seen r"
    and "\<And>p s w. db_sweeps db' p s = Some w \<Longrightarrow> db_sweeps db p s \<noteq> Some w \<Longrightarrow>
           observes (sw_outcome w) = (sw_item_count w \<noteq> None)"
  shows "evolves db db'"
  using assms by (auto simp: evolves_def debt_wf_def list_all_iff comp_def) blast+

lemma evolves_open: "open_item db p x t = Inr db' \<Longrightarrow> evolves db db'"
  by (fastforce simp: open_item_def evolves_def debt_wf_def list_all_iff split: if_splits)

lemma evolves_see:
  "see_all obs stored seen (eff, db) = Inr (eff', db') \<Longrightarrow> evolves db db'"
proof (induction seen arbitrary: eff db)
  case (Cons x seen)
  have "evolves db (refresh_item db (so_project obs) x (so_observed_at obs))"
    by (rule evolves_map [where f = "refreshed (so_project obs) x (so_observed_at obs)"])
      (simp_all add: refresh_item_def)
  then show ?case
    using Cons.IH Cons.prems evolves_open evolves_trans by (auto split: if_splits sum.splits) blast+
qed (simp add: evolves_refl)

lemma evolves_miss: "evolves db (snd (miss_all obs keys items (eff, db)))"
proof (induction items arbitrary: eff db)
  case (Cons i items)
  have "evolves db (delete_item db j)" "evolves db (withdraw_item db j)" for j
    by (rule evolves_filter, simp_all add: delete_item_def)
      (rule evolves_map [where f = "\<lambda>r. if di_id r = j then r\<lparr>di_state := ItemUnverified\<rparr> else r"],
        simp_all add: withdraw_item_def)
  then have one: "evolves db (snd (miss_one obs i (eff, db)))" by (simp add: miss_one_def evolves_refl)
  obtain eff1 db1 where m: "miss_one obs i (eff, db) = (eff1, db1)" by (cases "miss_one obs i (eff, db)")
  show ?case using one Cons.IH [of db eff] evolves_trans [OF _ Cons.IH [of db1 eff1]] by (simp add: m)
qed (simp add: evolves_refl)

lemma evolves_observe:
  assumes "debt_observe db obs seen = Inr (eff, db')"
  shows "evolves db db'"
proof -
  obtain db1 eff2 db2 where u: "upsert_sweep db obs = Inr db1"
    and see: "see_all obs (stored_items db1 (so_project obs) (so_source obs)) seen (no_effect, db1) = Inr (eff2, db2)"
    and miss: "db' = snd (miss_all obs (oi_key ` set seen) (stored_items db1 (so_project obs) (so_source obs)) (eff2, db2))"
    using assms by (auto simp: debt_observe_def Let_def split: sum.splits)
  have "evolves db db1"
    by (rule evolves_map [where f = id]) (use u in \<open>auto simp: upsert_sweep_def split: if_splits\<close>)
  with see miss evolves_see evolves_miss evolves_trans show ?thesis by metis
qed

text \<open>The writers of the items: a sweep, a reap, the two withdrawals, a merge or a deletion of
  projects, which takes their rows along, and everything else, which writes neither table but for
  the sweeps a switch takes away.\<close>

inductive debt_step :: "bool \<Rightarrow> index_db \<Rightarrow> index_db \<Rightarrow> bool" for windows where
  step_observe: "debt_observe db obs seen = Inr (eff, db') \<Longrightarrow> debt_step windows db db'"
| step_reap: "reap windows db p obs = Inr (n, db') \<Longrightarrow> debt_step windows db db'"
| step_mark: "debt_step windows db (snd (mark_unverified db p))"
| step_return: "debt_step windows db (snd (mark_root_unobserved db l now))"
| step_forget: "debt_step windows db (db\<lparr>db_items := filter (\<lambda>r. di_project r \<notin> ps) (db_items db),
      db_sweeps := (\<lambda>p s. if p \<in> ps then None else db_sweeps db p s)\<rparr>)"
| step_elsewhere: "db_items db' = db_items db \<Longrightarrow> db_next_item db' = db_next_item db \<Longrightarrow>
      \<forall>p s. db_sweeps db' p s = None \<or> db_sweeps db' p s = db_sweeps db p s \<Longrightarrow> debt_step windows db db'"

lemma evolves_step: "debt_step windows db db' \<Longrightarrow> evolves db db'"
proof (induction rule: debt_step.induct)
  case (step_reap db p obs n db')
  then show ?case
    by (auto simp: reap_def evolves_refl split: if_splits sum.splits option.splits intro!: evolves_filter)
next
  case (step_mark db p)
  show ?case
    by (rule evolves_map [where f = "withdraw_where (\<lambda>r. di_project r = p)"])
      (simp_all add: mark_unverified_def withdraw_where_def)
next
  case (step_return db l now)
  show ?case
    by (rule evolves_map [where f = "withdraw_where (\<lambda>r. di_location r = Some l)"])
      (auto simp: mark_root_unobserved_def withdraw_where_def observes_def split: if_splits)
next
  case (step_forget db ps)
  show ?case by (rule evolves_filter [where P = "\<lambda>r. di_project r \<notin> ps"]) simp_all
next
  case (step_elsewhere db' db)
  then show ?case by (intro evolves_filter [where P = "\<lambda>_. True"]) auto
qed (auto intro: evolves_observe evolves_filter)

text \<open>
  C26: identity outlives everything but the item. Through any sequence of sweeps, reaps,
  withdrawals, merges and whatever else happens to the index, the items stay well-formed (one per
  key, one per id, a count on exactly the sweeps that observed), an id is never used again, and an
  item still there has the key, the project and the first sighting it was opened with.
\<close>

theorem items_keep_identity:
  assumes "(debt_step windows)\<^sup>*\<^sup>* db db'" and "debt_wf db"
  shows "debt_wf db' \<and> db_next_item db \<le> db_next_item db' \<and>
    (\<forall>r' \<in> set (db_items db'). di_id r' < db_next_item db \<longrightarrow>
       (\<exists>r \<in> set (db_items db). di_id r' = di_id r \<and> di_key r' = di_key r \<and>
          di_project r' = di_project r \<and> di_first_seen r' = di_first_seen r))"
proof -
  have "evolves db db'"
    using assms(1) by (induction rule: rtranclp_induct) (auto intro: evolves_refl evolves_trans evolves_step)
  then show ?thesis using assms(2) by (simp add: evolves_def)
qed

lemma marked_db_wf: "debt_wf marked_db"
  by (simp add: debt_wf_def marked_db_def small_db_def marker_row_def content_key_def)

theorem sweep_refused_iff_witness:
  "debt_observe (marked_db\<lparr>db_items := [(marker_row 1 ''s'' ''aa'')\<lparr>di_project := 2\<rparr>]\<rparr>) sample_sweep
     [marker ''s'' ''aa''] = Inl DebtRefused"
proof -
  have "producer_ok ''s'' sample_sweep [marker ''s'' ''aa'']" by code_simp
  moreover have "di_key ((marker_row 1 ''s'' ''aa'')\<lparr>di_project := 2\<rparr>) = oi_key (marker ''s'' ''aa'')" by code_simp
  moreover have "di_project ((marker_row 1 ''s'' ''aa'')\<lparr>di_project := 2\<rparr>) \<noteq> so_project sample_sweep" by code_simp
  ultimately show ?thesis by (subst sweep_refused_iff) auto
qed

theorem items_keep_identity_witness:
  "\<exists>db'. (debt_step False)\<^sup>*\<^sup>* marked_db db' \<and> debt_wf db' \<and> db_next_item db' \<ge> 3 \<and>
     map di_state (db_items db') = [ItemUnverified, ItemUnverified]"
proof -
  let ?db = "snd (mark_unverified marked_db 1)"
  have "(debt_step False)\<^sup>*\<^sup>* marked_db ?db" by (intro r_into_rtranclp step_mark)
  moreover have "map di_state (db_items ?db) = [ItemUnverified, ItemUnverified]"
    by (simp add: mark_unverified_def marked_db_def withdraw_where_def marker_row_def)
  moreover have "db_next_item marked_db = 3" by code_simp
  ultimately show ?thesis using items_keep_identity [of False marked_db ?db] marked_db_wf by auto
qed

section \<open>A subject that moves\<close>

text \<open>
  The store finds what a sweep missed by the key, and a key holds the subject. A project without a
  lineage (a shallow clone, or no commits) is keyed on the path of its first copy, so when that
  copy is relocated, or at a first commit, the next complete sweep finds nothing under the old key:
  a thing that is still there is opened under the new one and closed as fixed under the old.
\<close>

lemma moved_subject_closes_as_fixed:
  assumes "db_items db = [r]" and "mine obs r" and "comparable r obs" and "so_outcome obs = SwComplete"
    and "so_item_count obs = Some 1" and "dk_source (oi_key x) = so_source obs"
    and "dk_fingerprint (oi_key x) = dk_fingerprint (di_key r)" and "dk_subject (oi_key x) \<noteq> dk_subject (di_key r)"
    and "di_id r < db_next_item db"
  shows "\<exists>eff db'. debt_observe db obs [x] = Inr (eff, db') \<and>
    ef_closed eff = [\<lparr>cl_key = di_key r, cl_reason = Fixed, cl_scoring = di_scoring r\<rparr>] \<and>
    ef_opened eff = [oi_key x] \<and> map di_key (db_items db') = [oi_key x]"
proof -
  have differ: "di_key r \<noteq> oi_key x" using assms(8) by auto
  have close: "may_close r obs" using assms(3,4) by (simp add: may_close_def)
  obtain db1 where u: "upsert_sweep db obs = Inr db1"
    using assms(4,5) by (simp add: upsert_sweep_def observes_def)
  note up = stored_items_upsert [OF u]
  have stored: "stored_items db1 (so_project obs) (so_source obs) = [r]"
    using up assms(1,2) by (simp add: stored_items_def)
  obtain db2 where opened: "open_item db1 (so_project obs) x (so_observed_at obs) = Inr db2"
    and db2: "db_items db2 = [r, new_row obs (db_next_item db) x]"
    using up assms(1) differ by (simp add: open_item_def new_row_def)
  have "debt_observe db obs [x] = Inr (miss_one obs r (no_effect\<lparr>ef_opened := [oi_key x]\<rparr>, db2))"
    using u stored opened differ by (simp add: debt_observe_def Let_def no_effect_def)
  moreover have "db_items (delete_item db2 (di_id r)) = [new_row obs (db_next_item db) x]"
    using db2 assms(9) by (simp add: delete_item_def)
  ultimately show ?thesis using close by (simp add: miss_one_def no_effect_def)
qed

end
