(* ===== verification/Debt_Arms.thy ===== *)
theory Debt_Arms
  imports Debt_Store
begin

text \<open>
  The producers of the debt items. \<open>debt/singletons.rs\<close> and \<open>abandoned.rs\<close>: the seven singleton
  arms, each a predicate over stored facts with three answers, and the evaluator that sweeps them
  in one transaction. The rows of \<open>remote_ci_run\<close> are an argument of what reads them.
\<close>

section \<open>The arms\<close>

datatype arm_reading = PredicateFalse observed_item | PredicateTrue | Unobservable

text \<open>A row of \<open>remote_ci_run\<close>, as the reader of the project's repository sees it.\<close>

record ci_run =
  cr_id :: int
  cr_conclusion :: "string option"
  cr_branch :: string
  cr_started_at :: "int option"

type_synonym ci_runs = "int \<Rightarrow> ci_run list"

definition primary_of :: "bool \<Rightarrow> index_db \<Rightarrow> int \<Rightarrow> debt_error + int option" where
  "primary_of windows db p =
     (case locations_of db p of
        Inl e \<Rightarrow> Inl (DebtCodec e)
      | Inr locations \<Rightarrow> Inr (map_option lf_id (pick_primary windows locations)))"

definition anchor_for :: "bool \<Rightarrow> index_db \<Rightarrow> int \<Rightarrow> source_row \<Rightarrow> debt_error + int option" where
  "anchor_for windows db p row = (if sr_basis row = None then Inr None else primary_of windows db p)"

definition item_for :: "string \<Rightarrow> source_row \<Rightarrow> observed_item" where
  "item_for subject row =
     \<lparr>oi_key = singleton_key subject (sr_source row), oi_scoring = sr_scoring row,
      oi_location = None, oi_basis = sr_basis row, oi_place = no_place\<rparr>"

definition presence_arm ::
  "(presence_answers \<Rightarrow> presence_state) \<Rightarrow> debt_source \<Rightarrow> index_db \<Rightarrow> int \<Rightarrow> debt_error + arm_reading" where
  "presence_arm which source db p =
     (case content_presence (db_scans db p) of
        None \<Rightarrow> Inr Unobservable
      | Some answers \<Rightarrow> Inr
          (case which answers of
             SPresent \<Rightarrow> PredicateTrue
           | SAbsent \<Rightarrow> PredicateFalse (item_for [] (registry_for source))
           | SNotRead \<Rightarrow> Unobservable))"

definition unpushed_arm :: "bool \<Rightarrow> index_db \<Rightarrow> int \<Rightarrow> debt_error + arm_reading" where
  "unpushed_arm windows db p =
     (case locations_of db p of
        Inl e \<Rightarrow> Inl (DebtCodec e)
      | Inr locations \<Rightarrow>
     (case pick_primary windows locations of
        None \<Rightarrow> Inr Unobservable
      | Some primary \<Rightarrow>
     (case lf_ahead primary of
        None \<Rightarrow> Inr Unobservable
      | Some ahead \<Rightarrow>
          Inr (if ahead > 0 then PredicateFalse (item_for [] (registry_for UnpushedCommits))
               else PredicateTrue))))"

definition latest_conclusion :: "ci_run list \<Rightarrow> string \<Rightarrow> string option" where
  "latest_conclusion rows branch =
     Option.bind
       (max_by_key (\<lambda>r. (cr_started_at r, cr_id r))
          (filter (\<lambda>r. cr_branch r = branch \<and> cr_conclusion r \<noteq> None) rows))
       cr_conclusion"

definition ci_red_arm :: "bool \<Rightarrow> ci_runs \<Rightarrow> index_db \<Rightarrow> int \<Rightarrow> debt_error + arm_reading" where
  "ci_red_arm windows runs db p =
     (case locations_of db p of
        Inl e \<Rightarrow> Inl (DebtCodec e)
      | Inr locations \<Rightarrow>
     (case Option.bind (pick_primary windows locations) lf_branch of
        None \<Rightarrow> Inr Unobservable
      | Some branch \<Rightarrow>
     (case latest_conclusion (runs p) branch of
        None \<Rightarrow> Inr Unobservable
      | Some conclusion \<Rightarrow>
          Inr (if conclusion = ''success'' then PredicateTrue
               else PredicateFalse (item_for [] (registry_for CiRed))))))"

text \<open>The two-table read; a copy whose project is missing answers no row, which is an error.\<close>

definition no_release_arm :: "bool \<Rightarrow> index_db \<Rightarrow> int \<Rightarrow> debt_error + arm_reading" where
  "no_release_arm windows db p =
     (case primary_of windows db p of
        Inl e \<Rightarrow> Inl e
      | Inr None \<Rightarrow> Inr Unobservable
      | Inr (Some primary) \<Rightarrow>
     (case find (\<lambda>l. lc_id l = primary) (db_locations db) of
        None \<Rightarrow> Inl DebtRefused
      | Some l \<Rightarrow>
     (case project_of db (lc_project l) of
        None \<Rightarrow> Inl DebtRefused
      | Some c \<Rightarrow>
     (case lc_tag_count l of
        None \<Rightarrow> Inr Unobservable
      | Some tags \<Rightarrow>
          Inr (if tags \<ge> 1 then PredicateTrue
               else if pc_is_shallow c \<noteq> 0 then Unobservable
               else PredicateFalse (item_for [] (registry_for NoRelease)))))))"

definition set_aside_sources :: "index_db \<Rightarrow> int \<Rightarrow> projects_error + debt_source list" where
  "set_aside_sources db p =
     (case reading_and_hidden db p of Inl e \<Rightarrow> Inl e | Inr (_, hidden) \<Rightarrow> Inr hidden)"

definition abandoned_conjunct :: "index_db \<Rightarrow> int \<Rightarrow> debt_error + bool" where
  "abandoned_conjunct db p =
     (case project_of db p of
        None \<Rightarrow> Inl DebtRefused
      | Some c \<Rightarrow>
          (if pc_condition_signal c \<noteq> Some ''abandoned'' then Inr False
           else case set_aside_sources db p of
                  Inl e \<Rightarrow> Inl (DebtCodec e)
                | Inr set_aside \<Rightarrow>
                    Inr (list_ex (\<lambda>r. di_project r = p \<and> di_state r = ItemOpen \<and> di_scoring r = Scored \<and>
                               dk_source (di_key r) \<noteq> AbandonedWithDebt \<and>
                               dk_source (di_key r) \<notin> set set_aside) (db_items db))))"

definition abandoned_arm :: "index_db \<Rightarrow> int \<Rightarrow> debt_error + arm_reading" where
  "abandoned_arm db p =
     (case abandoned_conjunct db p of
        Inl e \<Rightarrow> Inl e
      | Inr True \<Rightarrow>
          Inr (PredicateFalse
                 \<lparr>oi_key = singleton_key [] AbandonedWithDebt,
                  oi_scoring = sr_scoring (registry_for AbandonedWithDebt), oi_location = None,
                  oi_basis = None, oi_place = no_place\<rparr>)
      | Inr False \<Rightarrow> Inr PredicateTrue)"

definition SINGLETON_ARMS :: "debt_source list" where
  "SINGLETON_ARMS = [MissingReadme, MissingLicense, MissingTests, NoRelease, UnpushedCommits, CiRed,
     AbandonedWithDebt]"

text \<open>The arm of a source; the two sources that are not singletons have none.\<close>

fun observe_arm :: "bool \<Rightarrow> ci_runs \<Rightarrow> index_db \<Rightarrow> int \<Rightarrow> debt_source \<Rightarrow> debt_error + arm_reading" where
  "observe_arm windows runs db p MissingReadme = presence_arm pa_readme MissingReadme db p"
| "observe_arm windows runs db p MissingLicense = presence_arm pa_license MissingLicense db p"
| "observe_arm windows runs db p MissingTests = presence_arm pa_tests MissingTests db p"
| "observe_arm windows runs db p NoRelease = no_release_arm windows db p"
| "observe_arm windows runs db p UnpushedCommits = unpushed_arm windows db p"
| "observe_arm windows runs db p CiRed = ci_red_arm windows runs db p"
| "observe_arm windows runs db p AbandonedWithDebt = abandoned_arm db p"
| "observe_arm windows runs db p TodoMarker = Inr Unobservable"
| "observe_arm windows runs db p DependencyAdvisory = Inr Unobservable"

section \<open>The evaluator\<close>

definition not_applicable_sources :: "index_db \<Rightarrow> int \<Rightarrow> debt_source list" where
  "not_applicable_sources db p =
     filter (\<lambda>s. source_not_applicable s (Option.bind (project_of db p) pc_archetype) (stored_user_na db p))
       ALL_SOURCES"

definition content_scan_enabled :: "index_db \<Rightarrow> bool" where
  "content_scan_enabled db \<longleftrightarrow> db_meta db ''content_scan_enabled'' = Some ''1''"

definition extend_effect :: "sweep_effect \<Rightarrow> sweep_effect \<Rightarrow> sweep_effect" where
  "extend_effect acc eff =
     \<lparr>ef_opened = ef_opened acc @ ef_opened eff, ef_closed = ef_closed acc @ ef_closed eff,
      ef_refreshed = sat_u32 (ef_refreshed acc + ef_refreshed eff),
      ef_unverified = sat_u32 (ef_unverified acc + ef_unverified eff)\<rparr>"

text \<open>What an arm's answer proposes, and the sweep that is written for it.\<close>

fun proposal :: "string \<Rightarrow> debt_source \<Rightarrow> int option \<Rightarrow> arm_reading \<Rightarrow> sweep_outcome \<times> observed_item list" where
  "proposal subject source anchor (PredicateFalse item) =
     (SwComplete, [item\<lparr>oi_key := singleton_key subject source, oi_location := anchor,
                        oi_basis := sr_basis (registry_for source)\<rparr>])"
| "proposal subject source anchor PredicateTrue = (SwComplete, [])"
| "proposal subject source anchor Unobservable = (SwUnobservable, [])"

definition arm_sweep ::
  "index_db \<Rightarrow> int \<Rightarrow> int \<Rightarrow> debt_source \<Rightarrow> int option \<Rightarrow> sweep_outcome \<Rightarrow> observed_item list \<Rightarrow> sweep_obs" where
  "arm_sweep db p now source anchor proposed seen =
     (let out = outcome_at_root db anchor proposed;
          count = (if proposed = SwComplete then Some (sat_u32 (length seen)) else None)
      in \<lparr>so_project = p, so_source = source, so_outcome = out, so_location = anchor,
          so_generation = None, so_basis = sr_basis (registry_for source),
          so_item_count = (if out \<noteq> SwComplete \<and> out \<noteq> SwPartial then None else count),
          so_observed_at = now\<rparr>)"

definition sweep_arm ::
  "bool \<Rightarrow> ci_runs \<Rightarrow> int \<Rightarrow> int \<Rightarrow> string \<Rightarrow> debt_source \<Rightarrow> index_db \<Rightarrow> debt_error + (sweep_effect \<times> index_db)" where
  "sweep_arm windows runs p now subject source db =
     (case anchor_for windows db p (registry_for source) of
        Inl e \<Rightarrow> Inl e
      | Inr anchor \<Rightarrow>
     (case observe_arm windows runs db p source of
        Inl e \<Rightarrow> Inl e
      | Inr reading \<Rightarrow>
          (let (proposed, seen) = proposal subject source anchor reading
           in debt_observe db (arm_sweep db p now source anchor proposed seen) seen)))"

fun run_arms ::
  "bool \<Rightarrow> ci_runs \<Rightarrow> int \<Rightarrow> int \<Rightarrow> string \<Rightarrow> debt_source list \<Rightarrow> debt_source list \<Rightarrow> sweep_effect \<times> index_db
   \<Rightarrow> debt_error + (sweep_effect \<times> index_db)" where
  "run_arms windows runs p now subject skipped [] st = Inr st"
| "run_arms windows runs p now subject skipped (s # ss) (acc, db) =
     (if s \<in> set skipped then run_arms windows runs p now subject skipped ss (acc, db)
      else case sweep_arm windows runs p now subject s db of
             Inl e \<Rightarrow> Inl e
           | Inr (eff, db') \<Rightarrow> run_arms windows runs p now subject skipped ss (extend_effect acc eff, db'))"

definition skipped_sources :: "index_db \<Rightarrow> int \<Rightarrow> debt_source list" where
  "skipped_sources db p =
     off_sources (read_switches db) (content_scan_enabled db) @ not_applicable_sources db p"

definition evaluate_singletons ::
  "bool \<Rightarrow> ci_runs \<Rightarrow> index_db \<Rightarrow> int \<Rightarrow> int \<Rightarrow> debt_error + (sweep_effect \<times> index_db)" where
  "evaluate_singletons windows runs db p now =
     run_arms windows runs p now (subject_key_of db p) (skipped_sources db p) SINGLETON_ARMS (no_effect, db)"

section \<open>What the arms read\<close>

text \<open>A sweep writes the items, their autoincrement and the sweeps: every other fact stands.\<close>

definition same_facts :: "index_db \<Rightarrow> index_db \<Rightarrow> bool" where
  "same_facts db db' \<longleftrightarrow>
     db'\<lparr>db_items := db_items db, db_next_item := db_next_item db, db_sweeps := db_sweeps db\<rparr> = db"

lemma same_facts_refl [simp]: "same_facts db db"
  by (simp add: same_facts_def)

lemma same_facts_fields:
  assumes "same_facts db db'"
  shows "db_projects db' = db_projects db" "db_locations db' = db_locations db"
    "db_scans db' = db_scans db" "db_checks db' = db_checks db" "db_meta db' = db_meta db"
    "db_accounts db' = db_accounts db"
  using assms by (cases db; cases db'; simp add: same_facts_def)+

lemma same_facts_trans: "same_facts a b \<Longrightarrow> same_facts b c \<Longrightarrow> same_facts a c"
  by (cases a; cases b; cases c) (simp add: same_facts_def)

lemma same_facts_reads:
  assumes "same_facts db db'"
  shows "project_of db' p = project_of db p" "locations_of db' p = locations_of db p"
    "primary_of windows db' p = primary_of windows db p"
    "anchor_for windows db' p row = anchor_for windows db p row"
    "root_is_observable db' l = root_is_observable db l"
    "subject_key_of db' p = subject_key_of db p"
    "check_on db' p s = check_on db p s"
    "outcome_at_root db' anchor out = outcome_at_root db anchor out"
  unfolding project_of_def locations_of_def locations_for_def fill_display_paths_def primary_of_def
    anchor_for_def root_is_observable_def subject_key_of_def subject_for_project_def first_location_def
    check_on_def stored_user_na_def outcome_at_root_def same_facts_fields [OF assms]
  by (rule refl)+

text \<open>The sources a reading sets aside are those of the checks that are not on; no item and no sweep
  has a say.\<close>

lemma set_aside_on:
  assumes "set_aside_sources db p = Inr hidden"
  shows "set hidden = {s. \<not> check_on db p s}"
proof -
  obtain pp where pp: "per_project_for db p = Inr pp"
    and hidden: "hidden = snd (reading_from (load_shared db) pp)"
    using assms by (auto simp: set_aside_sources_def reading_and_hidden_def split: sum.splits prod.splits)
  have "snd (reading_from (load_shared db) pp) = map cs_check (filter
      (\<lambda>sw. \<not> in_eligible (hc_outcome (co_check (observe_check (load_shared db) pp sw)))) (read_switches db))"
    by (simp add: reading_from_def observe_checks_def Let_def filter_map comp_def load_shared_def)
  also have "\<dots> = map cs_check (filter (\<lambda>sw. \<not> check_on db p (cs_check sw)) (read_switches db))"
    by (simp add: check_on_switch [OF pp] cong: filter_cong)
  also have "\<dots> = filter (\<lambda>s. \<not> check_on db p s) (map cs_check (read_switches db))"
    by (simp add: filter_map comp_def)
  finally show ?thesis unfolding hidden switches_cover by auto
qed

lemma set_aside_fails:
  assumes "same_facts db db'"
  shows "(case set_aside_sources db' p of Inl e \<Rightarrow> Some e | Inr _ \<Rightarrow> None) =
    (case set_aside_sources db p of Inl e \<Rightarrow> Some e | Inr _ \<Rightarrow> None)"
  unfolding set_aside_sources_def reading_and_hidden_def per_project_for_def project_facts_for_def
    location_presences_def locations_for_def project_of_def same_facts_fields [OF assms]
  by (simp split: sum.splits prod.splits)

text \<open>An item the abandoned conjunct counts: open, scored, of another source that is on.\<close>

definition other_work :: "index_db \<Rightarrow> int \<Rightarrow> bool" where
  "other_work db p \<longleftrightarrow> (\<exists>r \<in> set (db_items db). di_project r = p \<and> di_state r = ItemOpen \<and>
     di_scoring r = Scored \<and> dk_source (di_key r) \<noteq> AbandonedWithDebt \<and> check_on db p (dk_source (di_key r)))"

lemma conjunct_reads:
  "abandoned_conjunct db p = Inr b \<Longrightarrow>
     b = (\<exists>c. project_of db p = Some c \<and> pc_condition_signal c = Some ''abandoned'' \<and> other_work db p)"
  by (auto simp: abandoned_conjunct_def other_work_def list_ex_iff dest: set_aside_on split: option.splits if_splits sum.splits)

lemma conjunct_stable:
  assumes facts: "same_facts db db'"
    and rows: "\<And>r. \<not> (di_project r = p \<and> dk_source (di_key r) = AbandonedWithDebt) \<Longrightarrow>
      r \<in> set (db_items db') \<longleftrightarrow> r \<in> set (db_items db)"
  shows "abandoned_conjunct db' p = abandoned_conjunct db p"
proof -
  have on: "check_on db' p s = check_on db p s" for s by (rule same_facts_reads(7) [OF facts])
  have work: "list_ex (\<lambda>r. di_project r = p \<and> di_state r = ItemOpen \<and> di_scoring r = Scored \<and>
        dk_source (di_key r) \<noteq> AbandonedWithDebt \<and> dk_source (di_key r) \<notin> set h) (db_items db') =
      list_ex (\<lambda>r. di_project r = p \<and> di_state r = ItemOpen \<and> di_scoring r = Scored \<and>
        dk_source (di_key r) \<noteq> AbandonedWithDebt \<and> dk_source (di_key r) \<notin> set h) (db_items db)" for h
    unfolding list_ex_iff using rows by blast
  consider (bad) e where "set_aside_sources db' p = Inl e" "set_aside_sources db p = Inl e"
    | (good) h' h where "set_aside_sources db' p = Inr h'" "set_aside_sources db p = Inr h" "set h' = set h"
    using set_aside_fails [OF facts, of p] set_aside_on [of db p] set_aside_on [of db' p] on
    by (cases "set_aside_sources db' p"; cases "set_aside_sources db p") auto
  then show ?thesis
    by cases (simp_all add: abandoned_conjunct_def same_facts_reads [OF facts] work split: option.split)
qed

lemma arm_stable:
  assumes "same_facts db db'" and "s \<noteq> AbandonedWithDebt \<or>
      (\<forall>r. \<not> (di_project r = p \<and> dk_source (di_key r) = AbandonedWithDebt) \<longrightarrow>
        r \<in> set (db_items db') \<longleftrightarrow> r \<in> set (db_items db))"
  shows "observe_arm windows runs db' p s = observe_arm windows runs db p s"
proof -
  have "abandoned_arm db' p = abandoned_arm db p" if "s = AbandonedWithDebt"
    using assms(2) that conjunct_stable [OF assms(1)] by (simp add: abandoned_arm_def)
  moreover have "s \<noteq> AbandonedWithDebt \<Longrightarrow> ?thesis"
    by (cases s; simp only: observe_arm.simps presence_arm_def no_release_arm_def unpushed_arm_def ci_red_arm_def)
      (unfold same_facts_reads [OF assms(1)] same_facts_fields [OF assms(1)], (rule refl | simp)+)
  ultimately show ?thesis by (cases "s = AbandonedWithDebt") simp_all
qed

lemma skipped_is_off: "s \<in> set (skipped_sources db p) \<longleftrightarrow> \<not> check_on db p s"
proof -
  have "s \<in> set (off_sources (read_switches db) (content_scan_enabled db)) \<longleftrightarrow>
      \<not> ((case db_meta db (switch_key s) of None \<Rightarrow> True | Some v \<Rightarrow> v = ''1'') \<and>
         (needs_grant s \<longrightarrow> content_scan_enabled db))"
    by (auto simp: off_sources_def read_switches_def image_iff)
  then show ?thesis
    by (auto simp: skipped_sources_def not_applicable_sources_def check_on_def content_scan_enabled_def)
qed

section \<open>What one arm's sweep does\<close>

text \<open>The project's singleton items are keyed on its subject, and shown while one is open.\<close>

definition singletons_keyed :: "string \<Rightarrow> index_db \<Rightarrow> int \<Rightarrow> bool" where
  "singletons_keyed k db p \<longleftrightarrow> list_all (\<lambda>r. di_project r = p \<and> dk_source (di_key r) \<in> set SINGLETON_ARMS \<longrightarrow>
     di_key r = singleton_key k (dk_source (di_key r))) (db_items db)"

definition shown :: "index_db \<Rightarrow> int \<Rightarrow> debt_source \<Rightarrow> bool" where
  "shown db p s \<longleftrightarrow> (\<exists>r \<in> set (db_items db). di_project r = p \<and> dk_source (di_key r) = s \<and> di_state r = ItemOpen)"

abbreviation elsewhere_same :: "index_db \<Rightarrow> index_db \<Rightarrow> int \<Rightarrow> debt_source \<Rightarrow> bool" where
  "elsewhere_same db db' p s \<equiv> \<forall>r. \<not> (di_project r = p \<and> dk_source (di_key r) = s) \<longrightarrow>
     (r \<in> set (db_items db') \<longleftrightarrow> r \<in> set (db_items db))"

lemma singleton_key_simps [simp]:
  "dk_subject (singleton_key k s) = k" "dk_source (singleton_key k s) = s"
  by (simp_all add: singleton_key_def)

lemma arm_sweep_simps [simp]:
  "so_project (arm_sweep db p now s anchor proposed seen) = p"
  "so_source (arm_sweep db p now s anchor proposed seen) = s"
  "so_location (arm_sweep db p now s anchor proposed seen) = anchor"
  "so_basis (arm_sweep db p now s anchor proposed seen) = sr_basis (registry_for s)"
  "so_outcome (arm_sweep db p now s anchor proposed seen) = outcome_at_root db anchor proposed"
  "so_observed_at (arm_sweep db p now s anchor proposed seen) = now"
  by (simp_all add: arm_sweep_def Let_def)

lemma proposal_ok: "proposal k s anchor reading = (proposed, seen) \<Longrightarrow>
    producer_ok k (arm_sweep db p now s anchor proposed seen) seen \<and>
    (proposed = SwComplete \<or> proposed = SwUnobservable \<and> seen = []) \<and>
    map oi_key seen = (case reading of PredicateFalse _ \<Rightarrow> [singleton_key k s] | _ \<Rightarrow> []) \<and>
    (proposed = SwComplete \<longleftrightarrow> reading \<noteq> Unobservable)"
  by (cases reading) (auto simp: producer_ok_def)

lemma outcome_at_root_two: "proposed = SwComplete \<or> proposed = SwUnobservable \<Longrightarrow>
    outcome_at_root db anchor proposed = SwComplete \<or> outcome_at_root db anchor proposed = SwUnobservable"
  by (auto simp: outcome_at_root_def split: option.splits)

definition root_ok :: "index_db \<Rightarrow> int option \<Rightarrow> bool" where
  "root_ok db anchor \<longleftrightarrow> (case anchor of None \<Rightarrow> True | Some l \<Rightarrow> root_is_observable db l)"

lemma outcome_at_root_complete: "outcome_at_root db anchor proposed = SwComplete \<longleftrightarrow> proposed = SwComplete \<and> root_ok db anchor"
  by (auto simp: outcome_at_root_def root_ok_def split: option.splits)

lemma singleton_sweep:
  assumes wf: "debt_wf db" and keyed: "singletons_keyed k db p" and s: "s \<in> set SINGLETON_ARMS"
    and swept: "sweep_arm windows runs p now k s db = Inr (eff, db')"
  obtains anchor reading where "anchor_for windows db p (registry_for s) = Inr anchor"
    and "observe_arm windows runs db p s = Inr reading"
    and "debt_wf db'" and "singletons_keyed k db' p" and "same_facts db db'" and "elsewhere_same db db' p s"
    and "shown db' p s \<longleftrightarrow> (\<exists>x. reading = PredicateFalse x)"
    and "stored_outcome db' p s = Some (if reading \<noteq> Unobservable \<and> root_ok db anchor then SwComplete else SwUnobservable)"
    and "\<And>c. c \<in> set (ef_closed eff) \<Longrightarrow> reading = PredicateTrue \<and> root_ok db anchor \<and>
      (\<exists>r \<in> set (db_items db). di_project r = p \<and> dk_source (di_key r) = s \<and> di_location r = anchor \<and>
         di_basis r = sr_basis (registry_for s) \<and> c = closure_of r)"
    and "\<And>c. c \<in> set (ef_closed eff) \<Longrightarrow> cl_key c \<notin> di_key ` set (db_items db')"
proof -
  obtain anchor reading where anchor: "anchor_for windows db p (registry_for s) = Inr anchor"
    and reading: "observe_arm windows runs db p s = Inr reading"
    using swept by (auto simp: sweep_arm_def split: sum.splits)
  obtain proposed seen where given: "proposal k s anchor reading = (proposed, seen)"
    by (cases "proposal k s anchor reading")
  let ?obs = "arm_sweep db p now s anchor proposed seen"
  have obs: "debt_observe db ?obs seen = Inr (eff, db')"
    using swept anchor reading given by (simp add: sweep_arm_def)
  note pr = proposal_ok [OF given, where db = db and p = p and now = now]
  have ok: "producer_ok k ?obs seen" using pr by blast
  have mine_key: "di_key r = singleton_key k s" if "r \<in> set (db_items db)" "di_project r = p" "dk_source (di_key r) = s" for r
    using keyed that s by (auto simp: singletons_keyed_def list_all_iff)
  have sub: "settled_subject k db ?obs"
    unfolding settled_subject_def list_all_iff arm_sweep_simps by (metis mine_key singleton_key_simps(1))
  note ex = sweep_exact [OF wf sub ok obs]
  have complete: "so_outcome ?obs = SwComplete \<longleftrightarrow> reading \<noteq> Unobservable \<and> root_ok db anchor"
    using pr by (simp add: outcome_at_root_complete)
  have not_partial: "so_outcome ?obs \<noteq> SwPartial"
    using pr outcome_at_root_two [of proposed db anchor] by auto
  let ?new = "filter (\<lambda>x. oi_key x \<notin> di_key ` set (db_items db)) seen"
  have items: "set (db_items db') = {r'. \<exists>r \<in> set (db_items db). after_sweep ?obs seen r = Some r'} \<union>
      set (new_rows ?obs (db_next_item db) ?new)"
    using ex by (auto simp: map_filter_member)
  have new_key: "di_key r \<in> set (map oi_key seen) \<and> di_project r = p \<and> di_state r = ItemOpen"
    if "r \<in> set (new_rows ?obs i xs)" "set xs \<subseteq> set seen" for r i xs
    using that by (induction xs arbitrary: i) (auto simp: new_row_def)
  have seen_key: "set (map oi_key seen) \<subseteq> {singleton_key k s}" using pr by (cases reading) auto
  have new_mine: "di_project r = p \<and> di_key r = singleton_key k s \<and> di_state r = ItemOpen"
    if "r \<in> set (new_rows ?obs (db_next_item db) ?new)" for r
    using new_key [OF that] seen_key by auto
  have kept: "elsewhere_same db db' p s"
  proof (intro allI impI)
    fix r :: debt_row assume other: "\<not> (di_project r = p \<and> dk_source (di_key r) = s)"
    have "after_sweep ?obs seen r0 = Some r \<longleftrightarrow> r0 = r" for r0
    proof
      assume r0: "after_sweep ?obs seen r0 = Some r"
      then have "\<not> mine ?obs r0" using other after_sweep_keeps [OF r0] by simp
      then show "r0 = r" using r0 by (simp add: after_sweep_def)
    next
      assume "r0 = r"
      then show "after_sweep ?obs seen r0 = Some r" using other by (simp add: after_sweep_def)
    qed
    then show "r \<in> set (db_items db') \<longleftrightarrow> r \<in> set (db_items db)"
      unfolding items using new_mine [of r] by (simp only: Un_iff mem_Collect_eq) (use other in auto)
  qed
  have keyed': "singletons_keyed k db' p"
  proof -
    have "di_key r = singleton_key k (dk_source (di_key r))"
      if r: "r \<in> set (db_items db')" "di_project r = p" "dk_source (di_key r) \<in> set SINGLETON_ARMS" for r
    proof (cases "r \<in> set (new_rows ?obs (db_next_item db) ?new)")
      case True
      then show ?thesis using new_mine [OF True] by simp
    next
      case False
      then obtain r0 where "r0 \<in> set (db_items db)" "after_sweep ?obs seen r0 = Some r" using r(1) unfolding items by blast
      then show ?thesis using keyed r(2,3) after_sweep_keeps [of ?obs seen r0 r]
        unfolding singletons_keyed_def list_all_iff by metis
    qed
    then show ?thesis unfolding singletons_keyed_def list_all_iff by blast
  qed
  have shown: "shown db' p s \<longleftrightarrow> (\<exists>x. reading = PredicateFalse x)"
  proof (cases seen)
    case Nil
    have "di_state r' \<noteq> ItemOpen" if "after_sweep ?obs seen r = Some r'" "di_project r' = p" "dk_source (di_key r') = s" for r r'
      using that Nil not_partial after_sweep_keeps [OF that(1)] by (auto simp: after_sweep_def split: if_splits)
    then have "\<not> shown db' p s" using Nil unfolding shown_def items by auto
    then show ?thesis using pr Nil by (cases reading) auto
  next
    case (Cons x xs)
    then have x: "seen = [x]" "oi_key x = singleton_key k s" "\<exists>y. reading = PredicateFalse y" using pr by (cases reading; auto)+
    have "shown db' p s"
    proof (cases "oi_key x \<in> di_key ` set (db_items db)")
      case False
      then have "new_row ?obs (db_next_item db) x \<in> set (db_items db')" unfolding items by (simp add: x(1))
      then show ?thesis unfolding shown_def using x(2) by (force simp: new_row_def)
    next
      case True
      then obtain r where r: "r \<in> set (db_items db)" "di_key r = oi_key x" by auto
      have "di_project r = p"
        using sweep_refused [OF ok, of db] wf obs r x(1) by (auto simp: debt_wf_def)
      then have "after_sweep ?obs seen r = Some (refreshed p x now r)" "di_state (refreshed p x now r) = ItemOpen"
        using r x by (simp_all add: after_sweep_def refreshed_def)
      then have "refreshed p x now r \<in> set (db_items db')" unfolding items using r(1) by blast
      then show ?thesis
        unfolding shown_def using r(2) x(2) \<open>di_project r = p\<close> \<open>di_state (refreshed p x now r) = ItemOpen\<close>
        by (intro bexI [of _ "refreshed p x now r"]) simp_all
    qed
    then show ?thesis using x by simp
  qed
  have out: "so_outcome ?obs = (if reading \<noteq> Unobservable \<and> root_ok db anchor then SwComplete else SwUnobservable)"
    using complete outcome_at_root_two [of proposed db anchor] pr by auto
  have stored: "stored_outcome db' p s = Some (so_outcome ?obs)"
  proof -
    have "latest_sweep db' p s = Some ?obs" using ex by simp
    then have "map_option so_outcome (latest_sweep db' p s) = Some (so_outcome ?obs)" by simp
    then show ?thesis by (simp add: latest_sweep_def stored_outcome_def option.map_comp comp_def)
  qed
  have closed: "reading = PredicateTrue \<and> root_ok db anchor \<and>
      (\<exists>r \<in> set (db_items db). di_project r = p \<and> dk_source (di_key r) = s \<and> di_location r = anchor \<and>
         di_basis r = sr_basis (registry_for s) \<and> c = closure_of r)"
    and gone: "cl_key c \<notin> di_key ` set (db_items db')" if c: "c \<in> set (ef_closed eff)" for c
  proof -
    obtain r where r: "r \<in> set (db_items db)" "di_project r = p" "dk_source (di_key r) = s"
      "di_key r \<notin> oi_key ` set seen" "may_close r ?obs" "c = closure_of r"
      using c ex by auto
    have "di_key r = singleton_key k s" using mine_key r by blast
    then have "\<nexists>x. reading = PredicateFalse x" using pr r(4) by (cases reading) auto
    moreover have "reading \<noteq> Unobservable" "root_ok db anchor" using r(5) complete by (simp_all add: may_close_def)
    ultimately have true: "reading = PredicateTrue" by (cases reading) auto
    then show "reading = PredicateTrue \<and> root_ok db anchor \<and>
      (\<exists>r \<in> set (db_items db). di_project r = p \<and> dk_source (di_key r) = s \<and> di_location r = anchor \<and>
         di_basis r = sr_basis (registry_for s) \<and> c = closure_of r)"
      using r \<open>root_ok db anchor\<close> by (auto simp: may_close_def comparable_def)
    have nil: "seen = []" using pr true by simp
    have "di_key r' \<noteq> di_key r" if "after_sweep ?obs seen r0 = Some r'" "r0 \<in> set (db_items db)" for r0 r'
    proof
      assume "di_key r' = di_key r"
      then have "r0 = r" using after_sweep_keeps [OF that(1)] wf r(1) that(2)
        by (auto simp: debt_wf_def distinct_map dest: inj_onD)
      then show False using that(1) r nil by (simp add: after_sweep_def)
    qed
    then have "di_key r \<notin> di_key ` {r'. \<exists>r \<in> set (db_items db). after_sweep ?obs seen r = Some r'}" by force
    then show "cl_key c \<notin> di_key ` set (db_items db')"
      unfolding items using nil r(6) by (simp add: closure_of_def)
  qed
  have "debt_wf db'" and "same_facts db db'" using ex by (simp_all add: same_facts_def)
  then show thesis using that [OF anchor reading _ keyed' _ kept shown _ closed gone] stored out by simp
qed

lemma observe_sweeps:
  assumes "debt_observe db obs seen = Inr (eff, db')" and "q \<noteq> so_project obs \<or> s \<noteq> so_source obs"
  shows "db_sweeps db' q s = db_sweeps db q s"
proof -
  have see: "see_all obs stored xs (eff, db) = Inr (eff', db') \<Longrightarrow> db_sweeps db' = db_sweeps db" for stored xs eff db eff' db'
    by (induction xs arbitrary: eff db) (auto simp: open_item_def refresh_item_def split: if_splits sum.splits)
  have one: "db_sweeps (snd (miss_one obs i st)) = db_sweeps (snd st)" for i st
    by (cases st) (simp add: miss_one_def delete_item_def withdraw_item_def)
  have miss: "db_sweeps (snd (miss_all obs keys items st)) = db_sweeps (snd st)" for keys items st
    by (induction items arbitrary: st) (simp_all add: one)
  have "miss_all obs keys items st = (eff', db') \<Longrightarrow> db_sweeps db' = db_sweeps (snd st)" for keys items st eff' db'
    using miss [of keys items st] by simp
  then show ?thesis
    using assms see by (fastforce simp: debt_observe_def Let_def upsert_sweep_def split: sum.splits if_splits)
qed

lemma sweep_arm_sweeps:
  assumes "sweep_arm windows runs p now k s db = Inr (eff, db')" and "q \<noteq> p \<or> s' \<noteq> s"
  shows "db_sweeps db' q s' = db_sweeps db q s'"
proof -
  obtain anchor proposed seen where swept: "debt_observe db (arm_sweep db p now s anchor proposed seen) seen = Inr (eff, db')"
    using assms(1) by (auto simp: sweep_arm_def split: sum.splits prod.splits)
  show ?thesis using assms(2) by (intro observe_sweeps [OF swept]) simp
qed

section \<open>What the evaluator does\<close>

text \<open>A source that is on shows an item exactly when its arm finds its predicate false, and its
  sweep is complete exactly when the arm read something at a root that is there.\<close>

definition settled_arm :: "bool \<Rightarrow> ci_runs \<Rightarrow> index_db \<Rightarrow> int \<Rightarrow> debt_source \<Rightarrow> bool" where
  "settled_arm windows runs db p s \<longleftrightarrow>
     (\<exists>anchor reading. anchor_for windows db p (registry_for s) = Inr anchor \<and>
        observe_arm windows runs db p s = Inr reading \<and>
        (shown db p s \<longleftrightarrow> (\<exists>x. reading = PredicateFalse x)) \<and>
        stored_outcome db p s =
          Some (if reading \<noteq> Unobservable \<and> root_ok db anchor then SwComplete else SwUnobservable))"

text \<open>A closure that is earned: of an item of the project, of a source that is on, at the anchor and
  on the basis of the sweep, the arm having found its predicate true at a root that is there.\<close>

definition earned :: "bool \<Rightarrow> ci_runs \<Rightarrow> index_db \<Rightarrow> index_db \<Rightarrow> int \<Rightarrow> debt_closure \<Rightarrow> bool" where
  "earned windows runs db db' p c \<longleftrightarrow>
     (\<exists>r \<in> set (db_items db). c = closure_of r \<and> di_project r = p \<and> di_key r \<notin> di_key ` set (db_items db') \<and>
        check_on db p (dk_source (di_key r)) \<and>
        observe_arm windows runs db' p (dk_source (di_key r)) = Inr PredicateTrue \<and>
        di_basis r = sr_basis (registry_for (dk_source (di_key r))) \<and> root_ok db (di_location r) \<and>
        anchor_for windows db p (registry_for (dk_source (di_key r))) = Inr (di_location r))"

lemma root_ok_facts: "same_facts db db' \<Longrightarrow> root_ok db' anchor = root_ok db anchor"
  by (simp add: root_ok_def same_facts_reads cong: option.case_cong)

lemma run_arms_settle:
  assumes "run_arms windows runs p now k skipped ss (acc, db) = Inr (eff, db')"
    and "debt_wf db" and "singletons_keyed k db p" and "distinct ss" and "set ss \<subseteq> set SINGLETON_ARMS"
    and "AbandonedWithDebt \<notin> set (butlast ss)" and "\<And>s. s \<in> set skipped \<longleftrightarrow> \<not> check_on db p s"
  shows "debt_wf db' \<and> singletons_keyed k db' p \<and> same_facts db db' \<and>
    (\<forall>r. \<not> (di_project r = p \<and> dk_source (di_key r) \<in> set ss \<and> check_on db p (dk_source (di_key r))) \<longrightarrow>
       (r \<in> set (db_items db') \<longleftrightarrow> r \<in> set (db_items db))) \<and>
    (\<forall>q s. \<not> (q = p \<and> s \<in> set ss \<and> check_on db p s) \<longrightarrow> db_sweeps db' q s = db_sweeps db q s) \<and>
    (\<forall>s \<in> set ss. check_on db p s \<longrightarrow> settled_arm windows runs db' p s) \<and>
    (\<exists>new. ef_closed eff = ef_closed acc @ new \<and> (\<forall>c \<in> set new. earned windows runs db db' p c))"
  using assms
proof (induction ss arbitrary: acc db)
  case Nil
  then show ?case by simp
next
  case (Cons s ss)
  have tail: "distinct ss" "set ss \<subseteq> set SINGLETON_ARMS" "AbandonedWithDebt \<notin> set (butlast ss)"
    using Cons.prems(4-6) by (auto split: if_splits)
  show ?case
  proof (cases "check_on db p s")
    case False
    then have "run_arms windows runs p now k skipped ss (acc, db) = Inr (eff, db')"
      using Cons.prems(1,7) by simp
    from Cons.IH [OF this Cons.prems(2,3) tail Cons.prems(7)] False show ?thesis by auto
  next
    case True
    then obtain eff1 db1 where step: "sweep_arm windows runs p now k s db = Inr (eff1, db1)"
      and rest: "run_arms windows runs p now k skipped ss (extend_effect acc eff1, db1) = Inr (eff, db')"
      using Cons.prems(1,7) by (auto split: sum.splits)
    have s: "s \<in> set SINGLETON_ARMS" using Cons.prems(5) by simp
    obtain anchor reading where anchor: "anchor_for windows db p (registry_for s) = Inr anchor"
      and reading: "observe_arm windows runs db p s = Inr reading"
      and wf1: "debt_wf db1" and keyed1: "singletons_keyed k db1 p" and facts1: "same_facts db db1"
      and same1: "elsewhere_same db db1 p s"
      and shown1: "shown db1 p s \<longleftrightarrow> (\<exists>x. reading = PredicateFalse x)"
      and stored1: "stored_outcome db1 p s = Some (if reading \<noteq> Unobservable \<and> root_ok db anchor then SwComplete else SwUnobservable)"
      and closed1: "\<And>c. c \<in> set (ef_closed eff1) \<Longrightarrow> reading = PredicateTrue \<and> root_ok db anchor \<and>
        (\<exists>r \<in> set (db_items db). di_project r = p \<and> dk_source (di_key r) = s \<and> di_location r = anchor \<and>
           di_basis r = sr_basis (registry_for s) \<and> c = closure_of r)"
      and gone1: "\<And>c. c \<in> set (ef_closed eff1) \<Longrightarrow> cl_key c \<notin> di_key ` set (db_items db1)"
      by (rule singleton_sweep [OF Cons.prems(2,3) s step], rule that; assumption)
    have on1: "check_on db1 p x = check_on db p x" for x by (rule same_facts_reads(7) [OF facts1])
    have skip1: "x \<in> set skipped \<longleftrightarrow> \<not> check_on db1 p x" for x using Cons.prems(7) on1 by simp
    note IH = Cons.IH [OF rest wf1 keyed1 tail skip1, unfolded on1]
    have facts: "same_facts db db'" using same_facts_trans [OF facts1] IH by blast
    have s_new: "s \<notin> set ss" using Cons.prems(4) by simp
    have rows: "r \<in> set (db_items db') \<longleftrightarrow> r \<in> set (db_items db1)" if "di_project r \<noteq> p \<or> dk_source (di_key r) = s" for r
      using IH s_new that by blast
    have rows': "r \<in> set (db_items db') \<longleftrightarrow> r \<in> set (db_items db)"
      if "\<not> (di_project r = p \<and> dk_source (di_key r) \<in> set (s # ss) \<and> check_on db p (dk_source (di_key r)))" for r
    proof -
      have "r \<in> set (db_items db') \<longleftrightarrow> r \<in> set (db_items db1)" using IH that by auto
      also have "\<dots> \<longleftrightarrow> r \<in> set (db_items db)" using same1 that True by auto
      finally show ?thesis .
    qed
    have sweeps: "db_sweeps db' q x = db_sweeps db q x" if "\<not> (q = p \<and> x \<in> set (s # ss) \<and> check_on db p x)" for q x
    proof -
      have "db_sweeps db' q x = db_sweeps db1 q x" using IH that by auto
      also have "\<dots> = db_sweeps db q x" by (rule sweep_arm_sweeps [OF step]) (use that True in auto)
      finally show ?thesis .
    qed
    have "db_sweeps db' p s = db_sweeps db1 p s" using IH s_new by blast
    then have stored: "stored_outcome db' p s = stored_outcome db1 p s" by (simp add: stored_outcome_def)
    have shown: "shown db' p s \<longleftrightarrow> shown db1 p s" unfolding shown_def using rows by auto
    have last: "s \<noteq> AbandonedWithDebt \<or> ss = []" using Cons.prems(6) by (auto split: if_splits)
    have reading': "observe_arm windows runs db' p s = Inr reading"
    proof -
      have "observe_arm windows runs db' p s = observe_arm windows runs db p s"
      proof (rule arm_stable [OF facts])
        show "s \<noteq> AbandonedWithDebt \<or> (\<forall>r. \<not> (di_project r = p \<and> dk_source (di_key r) = AbandonedWithDebt) \<longrightarrow>
            (r \<in> set (db_items db') \<longleftrightarrow> r \<in> set (db_items db)))"
          using last rest same1 by auto
      qed
      then show ?thesis using reading by simp
    qed
    have "settled_arm windows runs db' p s"
      unfolding settled_arm_def
      using anchor reading' shown shown1 stored stored1 same_facts_reads(4) [OF facts] root_ok_facts [OF facts] by auto
    moreover have "earned windows runs db db' p c" if c: "c \<in> set (ef_closed eff1)" for c
    proof -
      obtain r where r: "r \<in> set (db_items db)" "di_project r = p" "dk_source (di_key r) = s"
        "di_location r = anchor" "di_basis r = sr_basis (registry_for s)" "c = closure_of r"
        using closed1 [OF c] by blast
      have "di_key r \<notin> di_key ` set (db_items db1)" using gone1 [OF c] r(6) by (simp add: closure_of_def)
      have "di_key r \<notin> di_key ` set (db_items db')"
      proof
        assume "di_key r \<in> di_key ` set (db_items db')"
        then obtain r' where "r' \<in> set (db_items db')" "di_key r' = di_key r" by auto
        then have "r' \<in> set (db_items db1)" using rows [of r'] r(3) by simp
        then show False using \<open>di_key r \<notin> di_key ` set (db_items db1)\<close> \<open>di_key r' = di_key r\<close> by (metis image_eqI)
      qed
      moreover have "reading = PredicateTrue" "root_ok db anchor" using closed1 [OF c] by blast+
      ultimately show ?thesis
        unfolding earned_def using r reading' anchor True by (intro bexI [of _ r]) simp_all
    qed
    moreover have "earned windows runs db db' p c" if c: "earned windows runs db1 db' p c" for c
    proof -
      obtain r where r: "r \<in> set (db_items db1)" "c = closure_of r" "di_project r = p" "di_key r \<notin> di_key ` set (db_items db')"
        "check_on db p (dk_source (di_key r))"
        "observe_arm windows runs db' p (dk_source (di_key r)) = Inr PredicateTrue"
        "di_basis r = sr_basis (registry_for (dk_source (di_key r)))" "root_ok db (di_location r)"
        "anchor_for windows db p (registry_for (dk_source (di_key r))) = Inr (di_location r)"
        using c unfolding earned_def on1 same_facts_reads(4) [OF facts1] root_ok_facts [OF facts1] by blast
      have "dk_source (di_key r) \<noteq> s"
      proof
        assume "dk_source (di_key r) = s"
        then have "r \<in> set (db_items db')" using rows r(1) by blast
        then show False using r(4) by blast
      qed
      then have "r \<in> set (db_items db)" using same1 r(1) by blast
      then show ?thesis unfolding earned_def using r(2-9) by (intro bexI [of _ r]) simp_all
    qed
    ultimately show ?thesis
      using IH facts rows' sweeps by (auto simp: extend_effect_def)
  qed
qed

lemma evaluate_settles:
  assumes "evaluate_singletons windows runs db p now = Inr (eff, db')" and "debt_wf db"
    and "singletons_keyed (subject_key_of db p) db p"
  shows "debt_wf db' \<and> singletons_keyed (subject_key_of db' p) db' p \<and> same_facts db db' \<and>
    (\<forall>r. \<not> (di_project r = p \<and> dk_source (di_key r) \<in> set SINGLETON_ARMS \<and> check_on db p (dk_source (di_key r))) \<longrightarrow>
       (r \<in> set (db_items db') \<longleftrightarrow> r \<in> set (db_items db))) \<and>
    (\<forall>q s. \<not> (q = p \<and> s \<in> set SINGLETON_ARMS \<and> check_on db p s) \<longrightarrow> db_sweeps db' q s = db_sweeps db q s) \<and>
    (\<forall>s \<in> set SINGLETON_ARMS. check_on db p s \<longrightarrow> settled_arm windows runs db' p s) \<and>
    (\<forall>c \<in> set (ef_closed eff). earned windows runs db db' p c)"
proof -
  have "distinct SINGLETON_ARMS" "AbandonedWithDebt \<notin> set (butlast SINGLETON_ARMS)"
    by (simp_all add: SINGLETON_ARMS_def)
  note run = run_arms_settle [OF assms(1) [unfolded evaluate_singletons_def] assms(2,3) this(1) subset_refl this(2) skipped_is_off]
  then have "subject_key_of db' p = subject_key_of db p" using same_facts_reads(6) by blast
  then show ?thesis using run by (simp add: no_effect_def)
qed

text \<open>Nothing keeps an item from being opened where nothing can be read: at a root that is away the
  sweep is recorded unobservable, and the item of a predicate found false is open all the same.\<close>

lemma absent_root_still_opens:
  assumes "evaluate_singletons windows runs db p now = Inr (eff, db')" and "debt_wf db"
    and "singletons_keyed (subject_key_of db p) db p" and "s \<in> set SINGLETON_ARMS" and "check_on db p s"
    and "anchor_for windows db' p (registry_for s) = Inr (Some l)" and "\<not> root_is_observable db' l"
    and "observe_arm windows runs db' p s = Inr (PredicateFalse x)"
  shows "shown db' p s \<and> stored_outcome db' p s = Some SwUnobservable"
proof -
  have "settled_arm windows runs db' p s" using evaluate_settles [OF assms(1-3)] assms(4,5) by blast
  then show ?thesis using assms(6-8) by (auto simp: settled_arm_def root_ok_def)
qed

text \<open>
  C22: after the singletons are evaluated the shown items are the truth. For each source that is on
  for the project an item is open exactly when its arm, read in the state the evaluator leaves,
  finds the predicate false, and its sweep is complete exactly when the arm read something at a root
  that is there; a source that is off or not applicable keeps its items and its sweep, other sources
  and other projects keep theirs, and nothing else of the index is written.
\<close>

theorem singletons_show_the_truth:
  assumes "evaluate_singletons windows runs db p now = Inr (eff, db')" and "debt_wf db"
    and "singletons_keyed (subject_key_of db p) db p"
  shows "(\<forall>s \<in> set SINGLETON_ARMS. check_on db p s \<longrightarrow> settled_arm windows runs db' p s) \<and>
    (\<forall>r. \<not> (di_project r = p \<and> dk_source (di_key r) \<in> set SINGLETON_ARMS \<and> check_on db p (dk_source (di_key r))) \<longrightarrow>
       (r \<in> set (db_items db') \<longleftrightarrow> r \<in> set (db_items db))) \<and>
    (\<forall>q s. \<not> (q = p \<and> s \<in> set SINGLETON_ARMS \<and> check_on db p s) \<longrightarrow> db_sweeps db' q s = db_sweeps db q s) \<and>
    same_facts db db' \<and> debt_wf db' \<and> singletons_keyed (subject_key_of db' p) db' p"
  using evaluate_settles [OF assms] by blast


text \<open>
  C24: the abandoned item does not keep itself. With its check on, it is open after an evaluation
  exactly when the project is in the abandoned band and some other item of it, scored, open and of a
  check that is on, remains; with none left it is closed, so that an abandoned project can be done.
\<close>

theorem abandoned_item_needs_other_work:
  assumes "evaluate_singletons windows runs db p now = Inr (eff, db')" and "debt_wf db"
    and "singletons_keyed (subject_key_of db p) db p" and "check_on db p AbandonedWithDebt"
  shows "shown db' p AbandonedWithDebt \<longleftrightarrow>
    (\<exists>c. project_of db p = Some c \<and> pc_condition_signal c = Some ''abandoned'' \<and> other_work db' p)"
proof -
  have "AbandonedWithDebt \<in> set SINGLETON_ARMS" by (simp add: SINGLETON_ARMS_def)
  with evaluate_settles [OF assms(1-3)] assms(4) obtain reading
    where "observe_arm windows runs db' p AbandonedWithDebt = Inr reading" and facts: "same_facts db db'"
      and shown: "shown db' p AbandonedWithDebt \<longleftrightarrow> (\<exists>x. reading = PredicateFalse x)"
    unfolding settled_arm_def by blast
  then obtain b where "abandoned_conjunct db' p = Inr b" "b = (\<exists>x. reading = PredicateFalse x)"
    by (auto simp: abandoned_arm_def split: sum.splits bool.splits)
  then show ?thesis using conjunct_reads [of db' p b] shown by (simp add: same_facts_reads(1) [OF facts])
qed

section \<open>The evaluator does not fail\<close>

lemma primary_row:
  assumes "keyed db" and "locations_of db p = Inr ls" and "pick_primary windows ls = Some m"
  obtains l where "find (\<lambda>l. lc_id l = lf_id m) (db_locations db) = Some l" and "lc_project l = p"
proof -
  have "m \<in> set ls" using max_by_key_Some [of "live_key windows" ls m] assms(3) by (simp add: pick_primary_def)
  moreover obtain raw where raw: "map map_location (locations_for db p) = map Inr raw" and ls: "ls = fill_display_paths db raw"
    using assms(2) by (auto simp: locations_of_def sequence_results_map split: sum.splits)
  ultimately obtain r where r: "r \<in> set raw" "lf_id r = lf_id m"
    by (auto simp: fill_display_paths_def split: option.splits)
  have "Inr r \<in> set (map map_location (locations_for db p))" unfolding raw using r(1) by simp
  then obtain l where l: "l \<in> set (db_locations db)" "lc_project l = p" "map_location l = Inr r"
    by (auto simp: locations_for_def)
  then have id: "lc_id l = lf_id m" using r(2) map_location_keys by metis
  have "find (\<lambda>l. lc_id l = lf_id m) (db_locations db) = Some l"
  proof (cases "find (\<lambda>l. lc_id l = lf_id m) (db_locations db)")
    case None
    then show ?thesis using l(1) id by (auto simp: find_None_iff)
  next
    case (Some l')
    then have "l' \<in> set (db_locations db)" "lc_id l' = lf_id m" by (auto simp: find_Some_iff)
    moreover have "inj_on lc_id (set (db_locations db))" using assms(1) by (simp add: keyed_def distinct_map)
    ultimately have "l' = l" using l(1) id by (metis inj_onD)
    then show ?thesis using Some by simp
  qed
  then show thesis using l(2) that by blast
qed

lemma arm_reads:
  assumes "keyed db" and "locations_of db p = Inr ls" and "per_project_for db p = Inr pp"
  shows "\<exists>reading. observe_arm windows runs db p s = Inr reading"
proof -
  obtain c where c: "project_of db p = Some c" using per_project_facts(1) [OF assms(3)] by blast
  have "\<exists>reading. no_release_arm windows db p = Inr reading"
  proof (cases "pick_primary windows ls")
    case (Some m)
    then obtain l where "find (\<lambda>l. lc_id l = lf_id m) (db_locations db) = Some l" "lc_project l = p"
      by (rule primary_row [OF assms(1,2)])
    then show ?thesis using Some assms(2) c by (auto simp: no_release_arm_def primary_of_def split: option.splits)
  qed (simp add: no_release_arm_def primary_of_def assms(2))
  moreover have "\<exists>reading. abandoned_arm db p = Inr reading"
    using c assms(3) by (auto simp: abandoned_arm_def abandoned_conjunct_def set_aside_sources_def
        reading_and_hidden_def split: bool.splits prod.splits)
  moreover have "\<exists>reading. presence_arm w x db p = Inr reading" for w x
    by (auto simp: presence_arm_def split: option.splits)
  ultimately show ?thesis
    using assms(2) by (cases s) (auto simp: unpushed_arm_def ci_red_arm_def split: option.splits)
qed

text \<open>Nothing of another project holds the key of one of the project's singletons.\<close>

definition no_twin :: "string \<Rightarrow> index_db \<Rightarrow> int \<Rightarrow> bool" where
  "no_twin k db p \<longleftrightarrow> list_all (\<lambda>r. di_project r \<noteq> p \<longrightarrow>
     di_key r \<notin> singleton_key k ` set SINGLETON_ARMS) (db_items db)"

lemma sweep_arm_runs:
  assumes "debt_wf db" and "keyed db" and "locations_of db p = Inr ls" and "per_project_for db p = Inr pp"
    and "no_twin k db p" and "s \<in> set SINGLETON_ARMS"
  shows "\<exists>eff db'. sweep_arm windows runs p now k s db = Inr (eff, db')"
proof -
  obtain reading where reading: "observe_arm windows runs db p s = Inr reading"
    using arm_reads [OF assms(2-4)] by blast
  obtain anchor where anchor: "anchor_for windows db p (registry_for s) = Inr anchor"
    using assms(3) by (cases "sr_basis (registry_for s) = None") (auto simp: anchor_for_def primary_of_def)
  obtain proposed seen where given: "proposal k s anchor reading = (proposed, seen)"
    by (cases "proposal k s anchor reading")
  let ?obs = "arm_sweep db p now s anchor proposed seen"
  note pr = proposal_ok [OF given, where db = db and p = p and now = now]
  have "so_outcome ?obs = SwComplete \<Longrightarrow> proposed = SwComplete" by (simp add: outcome_at_root_complete)
  moreover have "so_item_count ?obs = (if so_outcome ?obs \<noteq> SwComplete \<and> so_outcome ?obs \<noteq> SwPartial then None
      else if proposed = SwComplete then Some (sat_u32 (length seen)) else None)"
    by (simp add: arm_sweep_def Let_def)
  ultimately have "observes (so_outcome ?obs) \<noteq> (so_item_count ?obs = None)"
    using outcome_at_root_two [of proposed db anchor] pr by (auto simp: observes_def)
  moreover have "\<not> (\<exists>x \<in> set seen. \<exists>r \<in> set (db_items db). di_key r = oi_key x \<and> di_project r \<noteq> so_project ?obs)"
  proof -
    have "oi_key x = singleton_key k s" if "x \<in> set seen" for x
    proof -
      have "oi_key x \<in> set (map oi_key seen)" using that by simp
      then show ?thesis using pr by (cases reading) auto
    qed
    then show ?thesis using assms(5,6) by (auto simp: no_twin_def list_all_iff)
  qed
  moreover have "distinct (map di_key (db_items db))" using assms(1) by (simp add: debt_wf_def)
  ultimately have "debt_observe db ?obs seen \<noteq> Inl DebtRefused" using sweep_refused [of k ?obs seen db] pr by blast
  then show ?thesis using sweep_accepted [of db ?obs seen] anchor reading given by (auto simp: sweep_arm_def)
qed

lemma per_project_survives:
  assumes "same_facts db db'" and "per_project_for db p = Inr pp"
  shows "\<exists>pp'. per_project_for db' p = Inr pp'"
proof -
  have "\<And>x. per_project_for x p = Inr pp \<Longrightarrow> same_facts x db' \<Longrightarrow> \<exists>pp'. per_project_for db' p = Inr pp'" for pp
    unfolding per_project_for_def project_facts_for_def project_of_def location_presences_def locations_for_def
    by (simp add: same_facts_fields split: sum.splits option.splits)
  then show ?thesis using assms by blast
qed

lemma run_arms_runs:
  assumes "debt_wf db" and "keyed db" and "locations_of db p = Inr ls" and "per_project_for db p = Inr pp"
    and "no_twin k db p" and "set ss \<subseteq> set SINGLETON_ARMS" and "singletons_keyed k db p"
  shows "\<exists>eff db'. run_arms windows runs p now k skipped ss (acc, db) = Inr (eff, db')"
  using assms
proof (induction ss arbitrary: acc db pp)
  case (Cons s ss)
  show ?case
  proof (cases "s \<in> set skipped")
    case True
    then show ?thesis using Cons by simp
  next
    case False
    have s: "s \<in> set SINGLETON_ARMS" using Cons.prems(6) by simp
    obtain eff1 db1 where step: "sweep_arm windows runs p now k s db = Inr (eff1, db1)"
      using sweep_arm_runs [OF Cons.prems(1-5) s] by blast
    from singleton_sweep [OF Cons.prems(1,7) s step]
    have wf: "debt_wf db1" and keyed1: "singletons_keyed k db1 p" and facts: "same_facts db db1"
      and same: "elsewhere_same db db1 p s" by blast+
    obtain pp1 where "per_project_for db1 p = Inr pp1" using per_project_survives [OF facts Cons.prems(4)] by blast
    moreover have "keyed db1" using Cons.prems(2) by (simp add: keyed_def same_facts_fields [OF facts])
    moreover have "locations_of db1 p = Inr ls" using Cons.prems(3) same_facts_reads(2) [OF facts] by simp
    moreover have "no_twin k db1 p" using Cons.prems(5) same unfolding no_twin_def list_all_iff by blast
    ultimately show ?thesis using Cons.IH [OF wf] Cons.prems(6) keyed1 step False by simp
  qed
qed simp

text \<open>
  C25: the evaluator does not fail. On a well-formed index whose copies and whose project decode, and
  in which no other project holds the key of one of the project's singletons, the seven arms and
  their sweeps all go through.
\<close>

theorem singletons_never_fail:
  assumes "debt_wf db" and "keyed db" and "locations_of db p = Inr ls" and "per_project_for db p = Inr pp"
    and "no_twin (subject_key_of db p) db p" and "singletons_keyed (subject_key_of db p) db p"
  shows "\<exists>eff db'. evaluate_singletons windows runs db p now = Inr (eff, db')"
  using run_arms_runs [OF assms(1-5) subset_refl assms(6)] unfolding evaluate_singletons_def by blast

section \<open>A project that is evaluated\<close>

lemma sat_u32_code [code]: "sat_u32 n = (if int n \<le> 4294967295 then n else u32_max)"
  by (simp add: sat_u32_def)

text \<open>Abandoned, with no readme and a licence that was missing before.\<close>

definition armed_db :: index_db where
  "armed_db = small_db\<lparr>
     db_projects := [blank_project\<lparr>pc_lineage_key := Some ''l'', pc_condition_signal := Some ''abandoned''\<rparr>],
     db_scans := (\<lambda>_. Some (''absent'', ''present'', ''not_read'', ''present'')),
     db_items := [\<lparr>di_id = 1, di_project = 1, di_key = singleton_key ''lineage:l|remote:'' MissingLicense,
       di_state = ItemOpen, di_scoring = Scored, di_location = Some 1, di_basis = Some BHead,
       di_place = no_place, di_first_seen = 5, di_last_seen = 5\<rparr>],
     db_next_item := 2\<rparr>"

lemma armed_ok:
  "debt_wf armed_db" "keyed armed_db" "singletons_keyed (subject_key_of armed_db 1) armed_db 1"
  "no_twin (subject_key_of armed_db 1) armed_db 1"
  "\<exists>ls. locations_of armed_db 1 = Inr ls" "\<exists>pp. per_project_for armed_db 1 = Inr pp"
proof -
  show "debt_wf armed_db" "keyed armed_db"
    by (simp_all add: debt_wf_def keyed_def armed_db_def small_db_def blank_location_def)
  show "singletons_keyed (subject_key_of armed_db 1) armed_db 1" "no_twin (subject_key_of armed_db 1) armed_db 1"
    by code_simp+
  have "(case locations_of armed_db 1 of Inr _ \<Rightarrow> True | Inl _ \<Rightarrow> False)"
    "(case per_project_for armed_db 1 of Inr _ \<Rightarrow> True | Inl _ \<Rightarrow> False)" by code_simp+
  then show "\<exists>ls. locations_of armed_db 1 = Inr ls" "\<exists>pp. per_project_for armed_db 1 = Inr pp"
    by (auto split: sum.splits)
qed

lemma armed_runs: "\<exists>eff db'. evaluate_singletons False (\<lambda>_. []) armed_db 1 70 = Inr (eff, db')"
proof -
  obtain ls pp where "locations_of armed_db 1 = Inr ls" "per_project_for armed_db 1 = Inr pp" using armed_ok by blast
  from run_arms_runs [OF armed_ok(1,2) this armed_ok(4) subset_refl armed_ok(3)]
  show ?thesis unfolding evaluate_singletons_def by blast
qed

lemma armed_readings:
  "observe_arm False (\<lambda>_. []) armed_db 1 MissingLicense = Inr PredicateTrue"
  "observe_arm False (\<lambda>_. []) armed_db 1 MissingReadme = Inr (PredicateFalse (item_for [] (registry_for MissingReadme)))"
  "check_on armed_db 1 MissingLicense" "check_on armed_db 1 MissingReadme" "check_on armed_db 1 AbandonedWithDebt"
  by code_simp+

theorem singletons_never_fail_witness:
  "\<exists>eff db'. evaluate_singletons False (\<lambda>_. []) armed_db 1 70 = Inr (eff, db')"
proof -
  obtain ls pp where "locations_of armed_db 1 = Inr ls" "per_project_for armed_db 1 = Inr pp" using armed_ok by blast
  then show ?thesis by (rule singletons_never_fail [OF armed_ok(1,2) _ _ armed_ok(4,3)])
qed

theorem singletons_show_the_truth_witness:
  "\<exists>eff db'. evaluate_singletons False (\<lambda>_. []) armed_db 1 70 = Inr (eff, db') \<and>
     shown db' 1 MissingReadme \<and> \<not> shown db' 1 MissingLicense \<and> shown armed_db 1 MissingLicense"
proof -
  obtain eff db' where run: "evaluate_singletons False (\<lambda>_. []) armed_db 1 70 = Inr (eff, db')"
    using armed_runs by blast
  note truth = singletons_show_the_truth [OF run armed_ok(1,3)]
  have arms: "MissingReadme \<in> set SINGLETON_ARMS" "MissingLicense \<in> set SINGLETON_ARMS"
    by (simp_all add: SINGLETON_ARMS_def)
  have facts: "same_facts armed_db db'" using truth by blast
  have "settled_arm False (\<lambda>_. []) db' 1 MissingReadme" "settled_arm False (\<lambda>_. []) db' 1 MissingLicense"
    using truth arms armed_readings(3,4) by blast+
  moreover have "observe_arm False (\<lambda>_. []) db' 1 s = observe_arm False (\<lambda>_. []) armed_db 1 s"
    if "s \<noteq> AbandonedWithDebt" for s
    using that by (intro arm_stable [OF facts]) simp
  ultimately have "shown db' 1 MissingReadme" "\<not> shown db' 1 MissingLicense"
    using armed_readings(1,2) by (auto simp: settled_arm_def simp del: observe_arm.simps registry_for.simps)
  moreover have "shown armed_db 1 MissingLicense" by (simp add: shown_def armed_db_def)
  ultimately show ?thesis using run by blast
qed

theorem abandoned_item_needs_other_work_witness:
  "\<exists>eff db'. evaluate_singletons False (\<lambda>_. []) armed_db 1 70 = Inr (eff, db') \<and>
     (shown db' 1 AbandonedWithDebt \<longleftrightarrow> other_work db' 1)"
proof -
  obtain eff db' where run: "evaluate_singletons False (\<lambda>_. []) armed_db 1 70 = Inr (eff, db')"
    using armed_runs by blast
  have "map_option pc_condition_signal (project_of armed_db 1) = Some (Some ''abandoned'')" by code_simp
  then have "\<exists>c. project_of armed_db 1 = Some c \<and> pc_condition_signal c = Some ''abandoned''" by auto
  then show ?thesis
    using abandoned_item_needs_other_work [OF run armed_ok(1,3) armed_readings(5)] run by auto
qed

text \<open>With the licence check alone switched on: the licence is there, and its item is closed.\<close>

definition licence_only_db :: index_db where
  "licence_only_db = armed_db\<lparr>db_meta := (\<lambda>k. if k = switch_key MissingLicense then Some ''1'' else Some ''0'')\<rparr>"


end
