(* ===== verification/Content_Scan.thy ===== *)
theory Content_Scan
  imports Debt_Arms
begin

text \<open>
  The content scan of a repository's head (\<open>jobs/markers.rs\<close>, \<open>content_scan.rs\<close>, \<open>presence.rs\<close>,
  and the tables of \<open>j7_markers.rs\<close>): the marker pass over a blob, the blob cache, the four
  presence predicates over the paths, the row of a project's scan with its chunks, and what the
  scan hands to the debt items. A blob and a path are bytes, one \<open>char\<close> each. The automaton that
  finds the literals, the hash and the lossy decoding are arguments.
\<close>

section \<open>Markers\<close>

datatype marker = Todo | Fixme | Hack

definition MARKERS :: "string list" where "MARKERS = [''TODO'', ''FIXME'', ''HACK'']"

fun marker_slug :: "marker \<Rightarrow> string" where
  "marker_slug Todo = ''TODO''"
| "marker_slug Fixme = ''FIXME''"
| "marker_slug Hack = ''HACK''"

definition marker_from_slug :: "string \<Rightarrow> marker option" where
  "marker_from_slug s =
     (if s = ''TODO'' then Some Todo
      else if s = ''FIXME'' then Some Fixme
      else if s = ''HACK'' then Some Hack
      else None)"

definition J7_SCANNER_VERSION :: int where "J7_SCANNER_VERSION = 1"
definition J7_BLOB_BYTE_CAP :: int where "J7_BLOB_BYTE_CAP = 512 * 1024"
definition J7_BINARY_SNIFF_BYTES :: nat where "J7_BINARY_SNIFF_BYTES = 8 * 1024"
definition J7_CHUNK_BLOBS :: nat where "J7_CHUNK_BLOBS = 512"

record blob_occurrence =
  bo_ordinal :: nat
  bo_marker :: marker
  bo_line :: nat
  bo_column :: nat
  bo_sha :: string
  bo_salient :: string

definition SALIENT_CAP_BYTES :: nat where "SALIENT_CAP_BYTES = 200"

text \<open>In UTF-8 a continuation byte starts no character.\<close>

definition is_char_boundary :: "string \<Rightarrow> nat \<Rightarrow> bool" where
  "is_char_boundary s i \<longleftrightarrow>
     i = 0 \<or> i = length s \<or> (i < length s \<and> \<not> (128 \<le> char_code (s ! i) \<and> char_code (s ! i) < 192))"

fun cut_back :: "string \<Rightarrow> nat \<Rightarrow> nat" where
  "cut_back s 0 = 0"
| "cut_back s (Suc n) = (if is_char_boundary s (Suc n) then Suc n else cut_back s n)"

definition collapse_words :: "string list \<Rightarrow> string" where
  "collapse_words ws = foldl (\<lambda>acc w. (if acc \<noteq> [] then acc @ '' '' else acc) @ w) [] ws"

definition normalise_salient :: "(string \<Rightarrow> string) \<Rightarrow> string \<Rightarrow> string" where
  "normalise_salient lossy raw =
     (let collapsed = collapse_words (split_whitespace (lossy raw))
      in if length collapsed \<le> SALIENT_CAP_BYTES then collapsed
         else take (cut_back collapsed SALIENT_CAP_BYTES) collapsed)"

definition word_byte :: "char \<Rightarrow> bool" where
  "word_byte b \<longleftrightarrow> is_alpha b \<or> is_digit b \<or> b = CHR ''_''"

definition boundary_before :: "string \<Rightarrow> nat \<Rightarrow> bool" where
  "boundary_before bytes start \<longleftrightarrow>
     start = 0 \<or> length bytes \<le> start - 1 \<or> \<not> word_byte (bytes ! (start - 1))"

text \<open>The lines crossed between two hits: the offset after the last newline and the line's number.\<close>

definition advance_line :: "string \<Rightarrow> nat \<Rightarrow> nat \<Rightarrow> nat \<times> nat \<Rightarrow> nat \<times> nat" where
  "advance_line bytes scanned start st =
     foldl (\<lambda>(line_start, line_number) i.
              if bytes ! i = CHR 0x0A then (i + 1, sat_u32 (line_number + 1)) else (line_start, line_number))
       st [scanned..<min start (length bytes)]"

definition salient_line :: "string \<Rightarrow> nat \<Rightarrow> string" where
  "salient_line bytes start = takeWhile (\<lambda>b. b \<noteq> CHR 0x0A) (drop start bytes)"

text \<open>The loop over the hits of the automaton, each a start and the index of its literal.\<close>

fun scan_hits ::
  "(string \<Rightarrow> string) \<Rightarrow> (string \<Rightarrow> string) \<Rightarrow> string \<Rightarrow> (nat \<times> nat) list \<Rightarrow>
   blob_occurrence list \<Rightarrow> nat \<times> nat \<Rightarrow> nat \<Rightarrow> blob_occurrence list" where
  "scan_hits lossy sha bytes [] out line scanned = out"
| "scan_hits lossy sha bytes ((start, pattern) # hits) out line scanned =
     (if \<not> boundary_before bytes start then scan_hits lossy sha bytes hits out line scanned
      else case (if pattern < length MARKERS then marker_from_slug (MARKERS ! pattern) else None) of
             None \<Rightarrow> scan_hits lossy sha bytes hits out line scanned
           | Some m \<Rightarrow>
               (let (line_start, line_number) = advance_line bytes scanned start line;
                    salient = normalise_salient lossy (salient_line bytes start)
                in scan_hits lossy sha bytes hits
                     (out @ [\<lparr>bo_ordinal = sat_u32 (length out), bo_marker = m, bo_line = line_number,
                              bo_column = sat_u32 (start - line_start + 1), bo_sha = sha salient,
                              bo_salient = salient\<rparr>])
                     (line_start, line_number) start))"

definition scan_blob ::
  "(string \<Rightarrow> (nat \<times> nat) list) \<Rightarrow> (string \<Rightarrow> string) \<Rightarrow> (string \<Rightarrow> string) \<Rightarrow> string \<Rightarrow> blob_occurrence list" where
  "scan_blob find_iter lossy sha bytes = scan_hits lossy sha bytes (find_iter bytes) [] (0, 1) 0"

section \<open>The blob cache\<close>

datatype blob_outcome = Scanned | TooLarge | Binary

text \<open>Both tables are keyed by the blob and the version of the scanner.\<close>

record blob_cache =
  bc_scan :: "string \<Rightarrow> int \<Rightarrow> (blob_outcome \<times> int \<times> int) option"
  bc_findings :: "string \<Rightarrow> int \<Rightarrow> blob_occurrence list"

record blob_read =
  br_oid :: string
  br_size :: int
  br_bytes :: "string option"

definition record_blob_scan :: "blob_cache \<Rightarrow> string \<Rightarrow> int \<Rightarrow> blob_outcome \<Rightarrow> int \<Rightarrow> int \<Rightarrow> blob_cache" where
  "record_blob_scan cache oid version out bytes now =
     cache\<lparr>bc_scan := (bc_scan cache)(oid := (bc_scan cache oid)(version \<mapsto> (out, min bytes i64_max, now)))\<rparr>"

definition record_findings :: "blob_cache \<Rightarrow> string \<Rightarrow> int \<Rightarrow> blob_occurrence list \<Rightarrow> blob_cache" where
  "record_findings cache oid version found =
     cache\<lparr>bc_findings := (bc_findings cache)(oid := (bc_findings cache oid)(version := found))\<rparr>"

definition read_outcome :: "blob_read \<Rightarrow> blob_outcome" where
  "read_outcome r =
     (case br_bytes r of
        None \<Rightarrow> TooLarge
      | Some bytes \<Rightarrow>
          (if int (length bytes) > J7_BLOB_BYTE_CAP then TooLarge
           else if list_ex (\<lambda>b. b = CHR 0x00) (take J7_BINARY_SNIFF_BYTES bytes) then Binary
           else Scanned))"

definition record_read :: "(string \<Rightarrow> blob_occurrence list) \<Rightarrow> int \<Rightarrow> int \<Rightarrow> blob_cache \<Rightarrow> blob_read \<Rightarrow> blob_cache" where
  "record_read scan version now cache r =
     (let cache = record_blob_scan cache (br_oid r) version (read_outcome r) (br_size r) now
      in if read_outcome r = Scanned
         then record_findings cache (br_oid r) version
                (scan (case br_bytes r of None \<Rightarrow> [] | Some bytes \<Rightarrow> bytes))
         else cache)"

definition cached_scan :: "blob_cache \<Rightarrow> string \<Rightarrow> int \<Rightarrow> (blob_outcome \<times> int) option" where
  "cached_scan cache oid version = map_option (\<lambda>(out, bytes, _). (out, bytes)) (bc_scan cache oid version)"

definition missing_blobs :: "blob_cache \<Rightarrow> string list \<Rightarrow> int \<Rightarrow> string list" where
  "missing_blobs cache wanted version = filter (\<lambda>oid. cached_scan cache oid version = None) wanted"

definition findings_for_blob :: "blob_cache \<Rightarrow> string \<Rightarrow> int \<Rightarrow> blob_occurrence list" where
  "findings_for_blob cache oid version = sort_key bo_ordinal (bc_findings cache oid version)"

section \<open>Presence\<close>

record tree_entry =
  te_mode :: string
  te_kind :: string
  te_oid :: string
  te_path :: string

definition README_NAMES :: "string list" where
  "README_NAMES = [''README.md'', ''README.rst'', ''README.txt'', ''README'', ''readme.md'']"

definition LICENSE_STEMS :: "string list" where
  "LICENSE_STEMS = [''license'', ''licence'', ''copying'', ''copyright'', ''unlicense'']"

definition LICENSE_EXTENSIONS :: "string list" where "LICENSE_EXTENSIONS = [''md'', ''txt'', ''rst'']"

definition TEST_COMPONENTS :: "string list" where
  "TEST_COMPONENTS = [''test'', ''tests'', ''spec'', ''specs'', ''__tests__'', ''testing'']"

definition TEST_BASENAME_SHAPES :: "(string \<times> string) list" where
  "TEST_BASENAME_SHAPES =
     [([], ''_test.go''), ([], ''_test.rs''), (''test_'', ''.py''), ([], ''_test.py''), ([], ''.test.ts''),
      ([], ''.test.tsx''), ([], ''.test.js''), ([], ''.test.jsx''), ([], ''.test.mjs''), ([], ''.test.cjs''),
      ([], ''.spec.ts''), ([], ''.spec.tsx''), ([], ''.spec.js''), ([], ''.spec.jsx''), ([], ''test.java''),
      ([], ''tests.cs''), ([], ''_spec.rb'')]"

definition CI_DIRECTORIES :: "string list" where
  "CI_DIRECTORIES = [''.circleci'', ''.buildkite'', ''.woodpecker'']"

definition CI_WORKFLOW_EXTENSIONS :: "string list" where "CI_WORKFLOW_EXTENSIONS = [''yml'', ''yaml'']"

definition CI_BASENAMES :: "string list" where
  "CI_BASENAMES = [''.gitlab-ci.yml'', ''jenkinsfile'', ''azure-pipelines.yml'', ''azure-pipelines.yaml'',
     ''.travis.yml'', ''.drone.yml'', ''bitbucket-pipelines.yml'']"

text \<open>Folding keeps every byte that is not ASCII; what the lossy decoding makes of those is in none
  of the lists.\<close>

definition folded :: "string \<Rightarrow> string" where "folded path = to_lower path"

definition is_license :: "string \<Rightarrow> bool \<Rightarrow> string \<Rightarrow> bool" where
  "is_license path root base =
     (if starts_with ''licenses/'' path then True
      else if \<not> root then False
      else let stem = (case rsplit_once CHR ''.'' base of
                         Some (head, ext) \<Rightarrow> if ext \<in> set LICENSE_EXTENSIONS then head else base
                       | None \<Rightarrow> base);
               stem = (case split_once CHR ''-'' stem of Some (head, _) \<Rightarrow> head | None \<Rightarrow> stem)
           in stem \<in> set LICENSE_STEMS)"

definition is_test :: "string \<Rightarrow> string \<Rightarrow> bool" where
  "is_test path base \<longleftrightarrow>
     list_ex (\<lambda>c. c \<in> set TEST_COMPONENTS) (split_on CHR ''/'' path) \<or>
     list_ex (\<lambda>(pre, suf). length base > length pre + length suf \<and>
        starts_with pre base \<and> ends_with suf base) TEST_BASENAME_SHAPES"

definition is_ci :: "string \<Rightarrow> string \<Rightarrow> bool" where
  "is_ci path base =
     (let dirs = butlast (split_on CHR ''/'' path);
          extension = map_option snd (rsplit_once CHR ''.'' base)
      in if list_ex (\<lambda>(a, b). a = ''.github'' \<and> b = ''workflows'') (zip dirs (tl dirs)) \<and>
            (case extension of None \<Rightarrow> False | Some ext \<Rightarrow> ext \<in> set CI_WORKFLOW_EXTENSIONS)
         then True
         else if list_ex (\<lambda>d. d \<in> set CI_DIRECTORIES) dirs then True
         else base \<in> set CI_BASENAMES)"

definition answer_entry :: "presence_answers \<Rightarrow> tree_entry \<Rightarrow> presence_answers" where
  "answer_entry answers entry =
     (let path = folded (te_path entry);
          root = (CHR ''/'' \<notin> set path);
          base = last (split_on CHR ''/'' path);
          answers = (if root \<and> list_ex (\<lambda>n. to_lower n = base) README_NAMES
                     then answers\<lparr>pa_readme := SPresent\<rparr> else answers);
          answers = (if is_license path root base then answers\<lparr>pa_license := SPresent\<rparr> else answers);
          answers = (if is_test path base then answers\<lparr>pa_tests := SPresent\<rparr> else answers)
      in if is_ci path base then answers\<lparr>pa_ci := SPresent\<rparr> else answers)"

definition presence_for :: "tree_entry list \<Rightarrow> presence_answers" where
  "presence_for entries =
     foldl answer_entry \<lparr>pa_readme = SAbsent, pa_license = SAbsent, pa_tests = SAbsent, pa_ci = SAbsent\<rparr> entries"

definition presence_not_read :: presence_answers where
  "presence_not_read = \<lparr>pa_readme = SNotRead, pa_license = SNotRead, pa_tests = SNotRead, pa_ci = SNotRead\<rparr>"

section \<open>The row of a project's scan\<close>

text \<open>The columns of \<open>project_content_scan\<close> beside the four answers, which the index keeps in
  \<open>db_scans\<close>.\<close>

record scan_cols =
  sn_head :: string
  sn_complete :: "string option"
  sn_total :: "int option"
  sn_pending :: "int option"
  sn_version :: int
  sn_presence_at :: int
  sn_enumerated_at :: int
  sn_completed_at :: "int option"

record scan_state =
  sc_db :: index_db
  sc_rows :: "int \<Rightarrow> scan_cols option"
  sc_cache :: blob_cache

record content_scan_row =
  cs_head_oid :: string
  cs_complete_head_oid :: "string option"
  cs_blobs_total :: "int option"
  cs_blobs_pending :: "int option"

definition content_scan_row :: "scan_state \<Rightarrow> int \<Rightarrow> content_scan_row option" where
  "content_scan_row st p = map_option (\<lambda>r.
     \<lparr>cs_head_oid = sn_head r, cs_complete_head_oid = sn_complete r, cs_blobs_total = sn_total r,
      cs_blobs_pending = sn_pending r\<rparr>) (sc_rows st p)"

definition head_oid_of :: "index_db \<Rightarrow> int \<Rightarrow> string option" where
  "head_oid_of db location = Option.bind (find (\<lambda>l. lc_id l = location) (db_locations db)) lc_head_oid"

definition PREDICATE_VERSION :: int where "PREDICATE_VERSION = 1"

definition answer_slugs :: "presence_answers \<Rightarrow> string \<times> string \<times> string \<times> string" where
  "answer_slugs a = (presence_slug (pa_readme a), presence_slug (pa_license a), presence_slug (pa_tests a),
     presence_slug (pa_ci a))"

definition write_enumeration ::
  "int \<Rightarrow> string \<Rightarrow> presence_answers \<Rightarrow> int option \<Rightarrow> int \<Rightarrow> scan_state \<Rightarrow> scan_state" where
  "write_enumeration p head answers total_blobs now st =
     st\<lparr>sc_db := (sc_db st)\<lparr>db_scans := (db_scans (sc_db st))(p \<mapsto> answer_slugs answers)\<rparr>,
        sc_rows := (sc_rows st)(p \<mapsto>
          (case sc_rows st p of
             None \<Rightarrow> \<lparr>sn_head = head, sn_complete = None, sn_total = total_blobs, sn_pending = total_blobs,
                      sn_version = PREDICATE_VERSION, sn_presence_at = now, sn_enumerated_at = now,
                      sn_completed_at = None\<rparr>
           | Some r \<Rightarrow> \<lparr>sn_head = head, sn_complete = (if sn_head r = head then sn_complete r else None),
                      sn_total = total_blobs,
                      sn_pending = (if sn_head r = head then sn_pending r else total_blobs),
                      sn_version = PREDICATE_VERSION, sn_presence_at = now, sn_enumerated_at = now,
                      sn_completed_at = (if sn_head r = head then sn_completed_at r else None)\<rparr>))\<rparr>"

definition restart_scan :: "int \<Rightarrow> scan_state \<Rightarrow> scan_state" where
  "restart_scan p st =
     st\<lparr>sc_rows := (sc_rows st)(p := map_option (\<lambda>r.
          r\<lparr>sn_complete := None, sn_completed_at := None, sn_pending := sn_total r\<rparr>) (sc_rows st p))\<rparr>"

definition coalesce_0 :: "int option \<Rightarrow> int" where
  "coalesce_0 v = (case v of None \<Rightarrow> 0 | Some n \<Rightarrow> n)"

text \<open>No row is no pending count, which the query refuses.\<close>

definition commit_chunk ::
  "(string \<Rightarrow> blob_occurrence list) \<Rightarrow> int \<Rightarrow> string \<Rightarrow> blob_read list \<Rightarrow> int \<Rightarrow> int \<Rightarrow> scan_state
   \<Rightarrow> (int \<times> scan_state) option" where
  "commit_chunk scan p head reads consumed now st =
     (let st = st\<lparr>sc_cache := foldl (record_read scan J7_SCANNER_VERSION now) (sc_cache st) reads\<rparr>
      in case sc_rows st p of
           None \<Rightarrow> None
         | Some r \<Rightarrow>
             (let r = (if sn_head r = head then r\<lparr>sn_pending := Some (max 0 (coalesce_0 (sn_pending r) - consumed))\<rparr> else r);
                  pending = coalesce_0 (sn_pending r);
                  r = (if pending = 0 \<and> sn_head r = head
                       then r\<lparr>sn_complete := Some head, sn_completed_at := Some now\<rparr> else r)
              in Some (pending, st\<lparr>sc_rows := (sc_rows st)(p \<mapsto> r)\<rparr>)))"

definition cursor_ordinal :: "string option \<Rightarrow> nat" where
  "cursor_ordinal resume =
     (case Option.bind resume (parse_unsigned u64_max) of None \<Rightarrow> 0 | Some n \<Rightarrow> n)"

text \<open>The revocation takes what the grant produced, of every project.\<close>

definition revoke_content_scan :: "scan_state \<Rightarrow> scan_state" where
  "revoke_content_scan st =
     st\<lparr>sc_cache := \<lparr>bc_scan = (\<lambda>_ _. None), bc_findings = (\<lambda>_ _. [])\<rparr>,
        sc_rows := (\<lambda>p. map_option (\<lambda>r.
          r\<lparr>sn_complete := None, sn_total := None, sn_pending := None, sn_completed_at := None\<rparr>) (sc_rows st p))\<rparr>"

section \<open>Gates\<close>

record content_gates =
  cg_is_reference :: "bool option"
  cg_granted :: bool
  cg_compute_suppressed :: bool

definition gate_runs :: "content_gates \<Rightarrow> bool" where "gate_runs g \<longleftrightarrow> cg_is_reference g = Some False"

definition reads_blobs :: "content_gates \<Rightarrow> bool" where
  "reads_blobs g \<longleftrightarrow> gate_runs g \<and> cg_granted g \<and> \<not> cg_compute_suppressed g"

definition is_reference :: "index_db \<Rightarrow> int \<Rightarrow> bool option" where
  "is_reference db p =
     (case project_of db p of
        None \<Rightarrow> None
      | Some c \<Rightarrow> if pc_authored_by_user c = None then None else Some (pc_is_reference c \<noteq> 0))"

definition gates_for :: "index_db \<Rightarrow> int \<Rightarrow> content_gates" where
  "gates_for db p =
     \<lparr>cg_is_reference = is_reference db p, cg_granted = content_scan_enabled db,
      cg_compute_suppressed =
        (let (acknowledged_at, archived) =
               (case project_of db p of
                  None \<Rightarrow> (None, False)
                | Some c \<Rightarrow> (pc_acknowledged_at c, pc_is_archived c \<noteq> 0))
         in compute_suppressed (is_enrolled acknowledged_at) archived)\<rparr>"

text \<open>Where a run starts, or nothing to do; a scan whose sweep was withdrawn starts afresh.\<close>

definition start_ordinal ::
  "content_gates \<Rightarrow> int \<Rightarrow> int \<Rightarrow> string \<Rightarrow> content_scan_row option \<Rightarrow> string option \<Rightarrow> scan_state
   \<Rightarrow> nat option \<times> scan_state" where
  "start_ordinal gates p location head stored resume st =
     (let complete = (case stored of None \<Rightarrow> False | Some r \<Rightarrow> cs_complete_head_oid r = Some head);
          withdrawn = (complete \<and> reads_blobs gates \<and>
             stored_outcome (sc_db st) p TodoMarker = Some SwUnobservable \<and>
             root_is_observable (sc_db st) location)
      in if complete \<and> \<not> withdrawn then (None, st)
         else let st = (if withdrawn then restart_scan p st else st);
                  moved = (case stored of None \<Rightarrow> False | Some r \<Rightarrow> cs_head_oid r \<noteq> head)
              in (Some (if moved \<or> withdrawn then 0 else cursor_ordinal resume), st))"

section \<open>What the scan hands over\<close>

text \<open>Rules 1 to 3 over an enumeration; whether a path is of a programming language is an argument.\<close>

definition filtered_entries :: "(string \<Rightarrow> bool) \<Rightarrow> tree_entry list \<Rightarrow> tree_entry list" where
  "filtered_entries programming entries =
     sort_key te_path (filter (\<lambda>e. te_kind e = ''blob'' \<and> (te_mode e = ''100644'' \<or> te_mode e = ''100755'') \<and>
       programming (te_path e)) entries)"

datatype content_outcome = ContentComplete | ContentPartial

record content_sweep_state =
  ct_outcome :: content_outcome
  ct_basis :: string
  ct_head_oid :: string
  ct_blobs_total :: "int option"
  ct_blobs_read :: int
  ct_blobs_pending :: "int option"

definition content_sweep_state :: "scan_state \<Rightarrow> int \<Rightarrow> content_sweep_state option" where
  "content_sweep_state st p = map_option (\<lambda>row.
     \<lparr>ct_outcome = (if cs_complete_head_oid row = Some (cs_head_oid row) then ContentComplete else ContentPartial),
      ct_basis = ''head'', ct_head_oid = cs_head_oid row, ct_blobs_total = cs_blobs_total row,
      ct_blobs_read = (case (cs_blobs_total row, cs_blobs_pending row) of
           (Some n, Some pending) \<Rightarrow> max 0 (sat_i64 (n - pending))
         | _ \<Rightarrow> 0),
      ct_blobs_pending = cs_blobs_pending row\<rparr>) (content_scan_row st p)"

record content_occurrence =
  oc_blob :: string
  oc_path :: string
  oc_line :: nat
  oc_column :: nat
  oc_marker :: marker
  oc_sha :: string
  oc_salient :: string

definition occurrence_in :: "tree_entry \<Rightarrow> blob_occurrence \<Rightarrow> content_occurrence" where
  "occurrence_in entry found =
     \<lparr>oc_blob = te_oid entry, oc_path = te_path entry, oc_line = bo_line found, oc_column = bo_column found,
      oc_marker = bo_marker found, oc_sha = bo_sha found, oc_salient = bo_salient found\<rparr>"

definition occurrences_for_project :: "blob_cache \<Rightarrow> tree_entry list \<Rightarrow> content_occurrence list" where
  "occurrences_for_project cache entries =
     sort_key (\<lambda>x. (oc_path x, oc_line x, oc_column x))
       (concat (map (\<lambda>entry. map (occurrence_in entry) (findings_for_blob cache (te_oid entry) J7_SCANNER_VERSION)) entries))"

section \<open>The pass finds every marker where it is\<close>

text \<open>What the automaton promises: the literals' occurrences, in order. No literal overlaps another,
  so that leftmost and non-overlapping is all of them.\<close>

definition literal_at :: "string \<Rightarrow> nat \<Rightarrow> nat option" where
  "literal_at bytes i = find (\<lambda>k. starts_with (MARKERS ! k) (drop i bytes)) [0, 1, 2]"

definition all_hits :: "string \<Rightarrow> (nat \<times> nat) list" where
  "all_hits bytes = List.map_filter (\<lambda>i. map_option (Pair i) (literal_at bytes i)) [0..<length bytes]"

text \<open>The marker of a literal, its line and its column, counted afresh from the start of the blob.\<close>

definition marker_of :: "nat \<Rightarrow> marker" where
  "marker_of k = (if k = 0 then Todo else if k = 1 then Fixme else Hack)"

definition line_of :: "string \<Rightarrow> nat \<Rightarrow> nat" where
  "line_of bytes i = Suc (length (filter (\<lambda>b. b = CHR 0x0A) (take i bytes)))"

definition column_of :: "string \<Rightarrow> nat \<Rightarrow> nat" where
  "column_of bytes i = Suc (length (takeWhile (\<lambda>b. b \<noteq> CHR 0x0A) (rev (take i bytes))))"

definition found_at ::
  "(string \<Rightarrow> string) \<Rightarrow> (string \<Rightarrow> string) \<Rightarrow> string \<Rightarrow> nat \<Rightarrow> nat \<Rightarrow> blob_occurrence" where
  "found_at lossy sha bytes ordinal i =
     (let salient = normalise_salient lossy (takeWhile (\<lambda>b. b \<noteq> CHR 0x0A) (drop i bytes))
      in \<lparr>bo_ordinal = ordinal, bo_marker = marker_of (the (literal_at bytes i)), bo_line = line_of bytes i,
          bo_column = column_of bytes i, bo_sha = sha salient, bo_salient = salient\<rparr>)"

definition marker_positions :: "string \<Rightarrow> nat list" where
  "marker_positions bytes =
     filter (\<lambda>i. literal_at bytes i \<noteq> None \<and> (i = 0 \<or> \<not> word_byte (bytes ! (i - 1)))) [0..<length bytes]"

definition line_state :: "string \<Rightarrow> nat \<Rightarrow> nat \<times> nat" where
  "line_state bytes i = (Suc i - column_of bytes i, line_of bytes i)"

lemma column_of_bound: "i \<le> length bytes \<Longrightarrow> column_of bytes i \<le> Suc i"
  unfolding column_of_def using length_takeWhile_le [of _ "rev (take i bytes)"] by (simp add: le_trans)

lemma line_state_Suc:
  assumes "i < length bytes"
  shows "line_state bytes (Suc i) =
    (if bytes ! i = CHR 0x0A then (Suc i, Suc (line_of bytes i)) else line_state bytes i)"
  using assms column_of_bound [of i bytes]
  by (simp add: line_state_def line_of_def column_of_def take_Suc_conv_app_nth Suc_diff_le)

lemma line_of_bound: "i \<le> length bytes \<Longrightarrow> line_of bytes i \<le> Suc i"
  unfolding line_of_def using length_filter_le [of _ "take i bytes"] by (simp add: le_trans)

lemma advance_line_state:
  assumes "length bytes < u32_max" and "a \<le> b" and "b \<le> length bytes"
  shows "advance_line bytes a b (line_state bytes a) = line_state bytes b"
  using assms(2,3)
proof (induction b)
  case (Suc b)
  show ?case
  proof (cases "a = Suc b")
    case False
    then have "a \<le> b" and b: "b < length bytes" using Suc.prems by simp_all
    then have IH: "advance_line bytes a b (line_state bytes a) = line_state bytes b" using Suc.IH by simp
    have small: "line_of bytes b + 1 \<le> u32_max" using line_of_bound [of b bytes] b assms(1) by simp
    have "[a..<min (Suc b) (length bytes)] = [a..<min b (length bytes)] @ [b]"
      using \<open>a \<le> b\<close> b by (simp add: min_def)
    then have "advance_line bytes a (Suc b) (line_state bytes a) =
        (\<lambda>(ls, ln). if bytes ! b = CHR 0x0A then (b + 1, sat_u32 (ln + 1)) else (ls, ln)) (line_state bytes b)"
      using IH by (simp add: advance_line_def split: prod.split)
    also have "\<dots> = line_state bytes (Suc b)"
      unfolding line_state_Suc [OF b] using small by (simp add: line_state_def sat_u32_in_range)
    finally show ?thesis .
  qed (simp add: advance_line_def)
qed (simp add: advance_line_def)

lemma literal_at_marker: "literal_at bytes i = Some k \<Longrightarrow>
    k < length MARKERS \<and> marker_from_slug (MARKERS ! k) = Some (marker_of k) \<and> i < length bytes"
proof -
  assume at: "literal_at bytes i = Some k"
  then have "k \<in> {0, 1, 2}" and "starts_with (MARKERS ! k) (drop i bytes)"
    by (auto simp: literal_at_def find_Some_iff nth_Cons' split: if_splits)
  then show ?thesis
    by (auto simp: MARKERS_def marker_from_slug_def marker_of_def starts_with_def intro: ccontr)
qed

lemma boundary_is: "i < length bytes \<Longrightarrow>
    boundary_before bytes i \<longleftrightarrow> i = 0 \<or> \<not> word_byte (bytes ! (i - 1))"
  by (auto simp: boundary_before_def)

lemma scan_hits_from:
  assumes "length bytes < u32_max"
    and "\<forall>i \<in> set ps. literal_at bytes i \<noteq> None \<and> scanned \<le> i" and "sorted ps"
    and "scanned \<le> length bytes" and "length out + length ps \<le> u32_max"
  shows "scan_hits lossy sha bytes (map (\<lambda>i. (i, the (literal_at bytes i))) ps) out (line_state bytes scanned) scanned =
    out @ map (\<lambda>(k, i). found_at lossy sha bytes k i)
      (enumerate (length out) (filter (\<lambda>i. i = 0 \<or> \<not> word_byte (bytes ! (i - 1))) ps))"
  using assms(2-5)
proof (induction ps arbitrary: out scanned)
  case (Cons i ps)
  obtain k where k: "literal_at bytes i = Some k" using Cons.prems(1) by auto
  note at = literal_at_marker [OF k]
  have i: "i \<le> length bytes" "scanned \<le> i" using at Cons.prems(1) by simp_all
  show ?case
  proof (cases "boundary_before bytes i")
    case False
    then show ?thesis
      using Cons.IH [of scanned out] Cons.prems boundary_is at by simp
  next
    case True
    have adv: "advance_line bytes scanned i (line_state bytes scanned) = line_state bytes i"
      using advance_line_state [OF assms(1) i(2,1)] .
    have later: "\<forall>j \<in> set ps. literal_at bytes j \<noteq> None \<and> i \<le> j" using Cons.prems(1,2) by auto
    have column: "sat_u32 (i - (Suc i - column_of bytes i) + 1) = column_of bytes i"
    proof -
      have "0 < column_of bytes i" by (simp add: column_of_def)
      then have "i - (Suc i - column_of bytes i) + 1 = column_of bytes i" using column_of_bound [OF i(1)] by linarith
      moreover have "column_of bytes i \<le> u32_max" using column_of_bound [OF i(1)] i(1) assms(1) by linarith
      ultimately show ?thesis by (simp only: sat_u32_in_range)
    qed
    have ordinal: "sat_u32 (length out) = length out" using Cons.prems(4) by (simp add: sat_u32_in_range)
    have here: "scan_hits lossy sha bytes (map (\<lambda>i. (i, the (literal_at bytes i))) (i # ps)) out (line_state bytes scanned) scanned =
        scan_hits lossy sha bytes (map (\<lambda>i. (i, the (literal_at bytes i))) ps)
          (out @ [found_at lossy sha bytes (length out) i]) (line_state bytes i) i"
      using True k at adv column ordinal
      by (simp add: Let_def line_state_def found_at_def salient_line_def)
    show ?thesis
      unfolding here using Cons.IH [OF later _ i(1), of "out @ [found_at lossy sha bytes (length out) i]"] Cons.prems(2,4)
        True boundary_is [of i bytes] at by simp
  qed
qed simp

lemma map_filter_positions:
  "List.map_filter (\<lambda>i. map_option (Pair i) (literal_at bytes i)) is =
     map (\<lambda>i. (i, the (literal_at bytes i))) (filter (\<lambda>i. literal_at bytes i \<noteq> None) is)"
  by (induction "is") (auto simp: List.map_filter_def)

text \<open>
  C21: the pass over a blob finds every marker and only those, each where it is. With the automaton
  reporting every occurrence of the three literals, the findings are, in order and numbered from
  zero, the occurrences with no letter, digit or underscore before them, each with the marker, the
  line and the column counted afresh, and the normalised rest of its line with its hash.
\<close>

theorem scan_finds_every_marker:
  assumes "find_iter bytes = all_hits bytes" and "length bytes < u32_max"
  shows "scan_blob find_iter lossy sha bytes =
    map (\<lambda>(k, i). found_at lossy sha bytes k i) (enumerate 0 (marker_positions bytes))"
proof -
  let ?ps = "filter (\<lambda>i. literal_at bytes i \<noteq> None) [0..<length bytes]"
  have "length ?ps \<le> length bytes" by (rule order.trans [OF length_filter_le]) simp
  then have "scan_hits lossy sha bytes (map (\<lambda>i. (i, the (literal_at bytes i))) ?ps) [] (line_state bytes 0) 0 =
      map (\<lambda>(k, i). found_at lossy sha bytes k i)
        (enumerate 0 (filter (\<lambda>i. i = 0 \<or> \<not> word_byte (bytes ! (i - 1))) ?ps))"
    using scan_hits_from [OF assms(2), of ?ps 0 "[]" lossy sha] assms(2) by (simp add: sorted_wrt_filter)
  moreover have "line_state bytes 0 = (0, 1)" by (simp add: line_state_def line_of_def column_of_def)
  moreover have "filter (\<lambda>i. i = 0 \<or> \<not> word_byte (bytes ! (i - 1))) ?ps = marker_positions bytes"
    by (simp add: marker_positions_def conj_commute)
  ultimately show ?thesis
    by (simp add: scan_blob_def assms(1) all_hits_def map_filter_positions)
qed

theorem scan_finds_every_marker_witness:
  "map (\<lambda>x. (bo_marker x, bo_line x, bo_column x, bo_salient x))
     (scan_blob all_hits (\<lambda>s. s) (\<lambda>s. s) (''a TODO  x'' @ [CHR 0x0A] @ ''NOTODO HACKs'')) =
   [(Todo, 1, 3, ''TODO x''), (Hack, 2, 8, ''HACKs'')]"
proof -
  have "scan_blob all_hits (\<lambda>s. s) (\<lambda>s. s) (''a TODO  x'' @ [CHR 0x0A] @ ''NOTODO HACKs'') =
    map (\<lambda>(k, i). found_at (\<lambda>s. s) (\<lambda>s. s) (''a TODO  x'' @ [CHR 0x0A] @ ''NOTODO HACKs'') k i)
      (enumerate 0 (marker_positions (''a TODO  x'' @ [CHR 0x0A] @ ''NOTODO HACKs'')))"
    by (rule scan_finds_every_marker) simp_all
  moreover have "map (\<lambda>x. (bo_marker x, bo_line x, bo_column x, bo_salient x))
      (map (\<lambda>(k, i). found_at (\<lambda>s. s) (\<lambda>s. s) (''a TODO  x'' @ [CHR 0x0A] @ ''NOTODO HACKs'') k i)
        (enumerate 0 (marker_positions (''a TODO  x'' @ [CHR 0x0A] @ ''NOTODO HACKs'')))) =
    [(Todo, 1, 3, ''TODO x''), (Hack, 2, 8, ''HACKs'')]" by code_simp
  ultimately show ?thesis by (simp only:)
qed

end
