(* ===== verification/Debt_Markers.thy ===== *)
theory Debt_Markers
  imports Content_Scan "HOL-Library.Multiset"
begin

text \<open>
  The marker items of a project (\<open>debt/markers.rs\<close>) and the job that scans a head in chunks and
  builds them (\<open>run_j7\<close> of \<open>jobs/j7_markers.rs\<close>). Git, the automaton, the hash and the decoding
  are arguments; each closure handed to \<open>write\<close> is one transaction. The day's payout and the
  health delta of the item build are not part of the model.
\<close>

section \<open>Items from occurrences\<close>

fun ordinals_loop :: "(string \<Rightarrow> int option) \<Rightarrow> content_occurrence list \<Rightarrow> int list" where
  "ordinals_loop counts [] = []"
| "ordinals_loop counts (x # xs) =
     (let n = (case counts (oc_sha x) of None \<Rightarrow> 0 | Some n \<Rightarrow> n)
      in n # ordinals_loop (counts(oc_sha x \<mapsto> sat_i64 (n + 1))) xs)"

definition project_ordinals :: "content_occurrence list \<Rightarrow> int list" where
  "project_ordinals occurrences = ordinals_loop Map.empty occurrences"

definition basis_of :: "string \<Rightarrow> basis" where
  "basis_of raw =
     (if raw = ''index'' then BIndex
      else if raw = ''worktree'' then BWorktree
      else if raw = ''refs'' then BRefs
      else if raw = ''remote'' then BRemote
      else BHead)"

definition sweep_from_content ::
  "content_sweep_state \<Rightarrow> content_gates \<Rightarrow> int option \<Rightarrow> nat option \<Rightarrow> int \<Rightarrow> int \<Rightarrow> sweep_obs" where
  "sweep_from_content state gates location item_count p now =
     (let out = (if gate_runs gates
                 then if cg_compute_suppressed gates then SwSkippedSuppressed
                      else case ct_outcome state of
                             ContentComplete \<Rightarrow> SwComplete
                           | ContentPartial \<Rightarrow> SwPartial
                 else SwSkippedReference)
      in \<lparr>so_project = p, so_source = TodoMarker, so_outcome = out, so_location = location,
          so_generation = None, so_basis = Some (basis_of (ct_basis state)),
          so_item_count = (if observes out then item_count else None), so_observed_at = now\<rparr>)"

definition marker_item ::
  "(string \<Rightarrow> string) \<Rightarrow> string \<Rightarrow> int option \<Rightarrow> content_occurrence \<Rightarrow> int \<Rightarrow> observed_item" where
  "marker_item lossy subject location x ordinal =
     \<lparr>oi_key = content_key subject (oc_sha x) (nat ordinal),
      oi_scoring = sr_scoring (registry_for TodoMarker), oi_location = location,
      oi_basis = sr_basis (registry_for TodoMarker),
      oi_place = \<lparr>ip_path_bytes = Some (map char_code (oc_path x)), ip_path_display = Some (lossy (oc_path x)),
                  ip_line = Some (oc_line x), ip_column = Some (oc_column x), ip_salient = Some (oc_salient x)\<rparr>\<rparr>"

definition seen_markers ::
  "(string \<Rightarrow> string) \<Rightarrow> string \<Rightarrow> int option \<Rightarrow> content_occurrence list \<Rightarrow> observed_item list" where
  "seen_markers lossy subject location occurrences =
     map (\<lambda>(x, n). marker_item lossy subject location x n) (zip occurrences (project_ordinals occurrences))"

definition marker_sweep ::
  "index_db \<Rightarrow> content_sweep_state \<Rightarrow> content_gates \<Rightarrow> int option \<Rightarrow> nat \<Rightarrow> int \<Rightarrow> int \<Rightarrow> sweep_obs" where
  "marker_sweep db state gates location seen p now =
     (let obs = sweep_from_content state gates location (Some (sat_u32 seen)) p now;
          obs = obs\<lparr>so_outcome := outcome_at_root db location (so_outcome obs)\<rparr>
      in if observes (so_outcome obs) then obs else obs\<lparr>so_item_count := None\<rparr>)"

definition build_items ::
  "(string \<Rightarrow> string) \<Rightarrow> scan_state \<Rightarrow> int \<Rightarrow> int option \<Rightarrow> content_gates \<Rightarrow> content_occurrence list \<Rightarrow> int
   \<Rightarrow> debt_error + (sweep_effect \<times> scan_state)" where
  "build_items lossy st p location gates occurrences now =
     (if TodoMarker \<in> set (off_sources (read_switches (sc_db st)) (cg_granted gates)) then Inr (no_effect, st)
      else case content_sweep_state st p of
             None \<Rightarrow> Inr (no_effect, st)
           | Some state \<Rightarrow>
               (let seen = seen_markers lossy (subject_key_of (sc_db st) p) location occurrences
                in case debt_observe (sc_db st)
                          (marker_sweep (sc_db st) state gates location (length seen) p now) seen of
                     Inl e \<Rightarrow> Inl e
                   | Inr (eff, db) \<Rightarrow> Inr (eff, st\<lparr>sc_db := db\<rparr>)))"

section \<open>The job\<close>

text \<open>What the job is given: the programming-language test of a path, the decoding, the marker pass,
  git's enumeration of the head and its answer to a batch of blobs.\<close>

record j7_env =
  je_programming :: "string \<Rightarrow> bool"
  je_lossy :: "string \<Rightarrow> string"
  je_scan :: "string \<Rightarrow> blob_occurrence list"
  je_tree :: "git_error + tree_entry list"
  je_read :: "string list \<Rightarrow> git_error + (blob_read list \<times> nat)"

definition cached_blobs :: "blob_cache \<Rightarrow> tree_entry list \<Rightarrow> string list" where
  "cached_blobs cache window =
     (let wanted = map te_oid window; missing = missing_blobs cache wanted J7_SCANNER_VERSION
      in filter (\<lambda>oid. oid \<notin> set missing) wanted)"

definition wanted_blobs :: "string list \<Rightarrow> tree_entry list \<Rightarrow> string list" where
  "wanted_blobs cached window =
     foldl (\<lambda>wanted e. if te_oid e \<notin> set cached \<and> te_oid e \<notin> set wanted then wanted @ [te_oid e] else wanted)
       [] window"

definition finish :: "int \<Rightarrow> nat \<Rightarrow> int \<Rightarrow> job_outcome" where
  "finish pending n blobs = (if pending = 0 then OutDone else Partial (show_nat n) (int n) (Some blobs))"

definition write_chunk ::
  "j7_env \<Rightarrow> int \<Rightarrow> int \<Rightarrow> content_gates \<Rightarrow> string \<Rightarrow> tree_entry list \<Rightarrow> blob_read list \<Rightarrow> nat \<Rightarrow> nat \<Rightarrow> int
   \<Rightarrow> scan_state \<Rightarrow> (debt_error job_error + job_outcome) \<times> scan_state" where
  "write_chunk env p location gates head filtered reads consumed n now st =
     (case commit_chunk (je_scan env) p head reads (int consumed) now st of
        None \<Rightarrow> (Inl (JeIndex DebtRefused), st)
      | Some (pending, st1) \<Rightarrow>
          (case build_items (je_lossy env) st1 p (Some location) gates
                  (occurrences_for_project (sc_cache st1) filtered) now of
             Inl e \<Rightarrow> (Inl (JeIndex e), st)
           | Inr (eff, st2) \<Rightarrow> (Inr (finish pending (n + consumed) (int (length filtered))), st2)))"

definition run_chunk ::
  "j7_env \<Rightarrow> int \<Rightarrow> int \<Rightarrow> content_gates \<Rightarrow> string \<Rightarrow> nat \<Rightarrow> tree_entry list \<Rightarrow> int \<Rightarrow> scan_state
   \<Rightarrow> (debt_error job_error + job_outcome) \<times> scan_state" where
  "run_chunk env p location gates head n filtered now st =
     (let window = take J7_CHUNK_BLOBS (drop n filtered)
      in if window = [] then write_chunk env p location gates head filtered [] 0 n now st
         else let cached = cached_blobs (sc_cache st) window; wanted = wanted_blobs cached window
              in if \<not> reads_blobs gates then (Inr OutDone, st)
                 else case je_read env wanted of
                        Inl err \<Rightarrow> (Inl (JeGit err), st)
                      | Inr (reads, covered) \<Rightarrow>
                          (let answered = take covered wanted;
                               consumed = length (takeWhile
                                 (\<lambda>e. te_oid e \<in> set cached \<or> te_oid e \<in> set answered) window)
                           in write_chunk env p location gates head filtered reads consumed n now st))"

definition run_j7 ::
  "j7_env \<Rightarrow> int \<Rightarrow> int \<Rightarrow> string option \<Rightarrow> int \<Rightarrow> scan_state
   \<Rightarrow> (debt_error job_error + job_outcome) \<times> scan_state" where
  "run_j7 env p location resume now st =
     (let gates = gates_for (sc_db st) p
      in if \<not> gate_runs gates then (Inr OutDone, st)
         else case head_oid_of (sc_db st) location of
                None \<Rightarrow> (Inr OutDone, st)
              | Some head \<Rightarrow>
           (case start_ordinal gates p location head (content_scan_row st p) resume st of
              (None, st) \<Rightarrow> (Inr OutDone, st)
            | (Some n, st) \<Rightarrow>
           (case je_tree env of
              Inl err \<Rightarrow> (Inl (JeGit err), write_enumeration p head presence_not_read None now st)
            | Inr entries \<Rightarrow>
                (let filtered = filtered_entries (je_programming env) entries;
                     st = write_enumeration p head (presence_for entries) (Some (int (length filtered))) now st
                 in run_chunk env p location gates head n filtered now st))))"

section \<open>Ordinals make keys\<close>

text \<open>An occurrence's text and its ordinal, as its key has them.\<close>

definition text_ordinals :: "content_occurrence list \<Rightarrow> (string \<times> int) list" where
  "text_ordinals xs = zip (map oc_sha xs) (project_ordinals xs)"

definition next_ordinal :: "(string \<Rightarrow> int option) \<Rightarrow> string \<Rightarrow> int" where
  "next_ordinal counts s = (case counts s of None \<Rightarrow> 0 | Some n \<Rightarrow> n)"

lemma ordinals_loop_length [simp]: "length (ordinals_loop counts xs) = length xs"
  by (induction xs arbitrary: counts) (simp_all add: Let_def)

lemma ordinals_loop_range:
  assumes "\<And>s. 0 \<le> next_ordinal counts s" and "\<And>s. next_ordinal counts s + int (length xs) \<le> i64_max"
  shows "set (zip (map oc_sha xs) (ordinals_loop counts xs)) =
      {(s, next_ordinal counts s + int k) | s k. k < count (mset (map oc_sha xs)) s} \<and>
    distinct (zip (map oc_sha xs) (ordinals_loop counts xs))"
  using assms
proof (induction xs arbitrary: counts)
  case (Cons x xs)
  let ?n = "next_ordinal counts (oc_sha x)"
  let ?c = "counts(oc_sha x \<mapsto> sat_i64 (?n + 1))"
  have sat: "sat_i64 (?n + 1) = ?n + 1"
    using Cons.prems(1,2) [of "oc_sha x"] by (intro sat_i64_in_range) (simp add: in_i64_def)
  have n': "next_ordinal ?c s = (if s = oc_sha x then ?n + 1 else next_ordinal counts s)" for s
    by (simp add: next_ordinal_def sat [unfolded next_ordinal_def])
  have zero: "0 \<le> next_ordinal ?c s" for s using Cons.prems(1) [of s] Cons.prems(1) [of "oc_sha x"] unfolding n' by auto
  have fit: "next_ordinal ?c s + int (length xs) \<le> i64_max" for s
    using Cons.prems(2) [of s] Cons.prems(2) [of "oc_sha x"] unfolding n' by auto
  have zip: "zip (map oc_sha (x # xs)) (ordinals_loop counts (x # xs)) =
      (oc_sha x, ?n) # zip (map oc_sha xs) (ordinals_loop ?c xs)"
    by (simp add: Let_def next_ordinal_def)
  note IH = Cons.IH [of ?c, OF zero fit]
  have tail: "set (zip (map oc_sha xs) (ordinals_loop ?c xs)) =
      {(s, (if s = oc_sha x then ?n + 1 else next_ordinal counts s) + int k) | s k. k < count (mset (map oc_sha xs)) s}"
    using IH unfolding n' by blast
  have "(oc_sha x, ?n) \<notin> set (zip (map oc_sha xs) (ordinals_loop ?c xs))" unfolding tail by auto
  moreover have "insert (oc_sha x, ?n) (set (zip (map oc_sha xs) (ordinals_loop ?c xs))) =
      {(s, next_ordinal counts s + int k) | s k. k < count (mset (map oc_sha (x # xs))) s}"
  proof (intro set_eqI iffI)
    fix sk assume "sk \<in> insert (oc_sha x, ?n) (set (zip (map oc_sha xs) (ordinals_loop ?c xs)))"
    then consider "sk = (oc_sha x, ?n + int 0)"
      | s k where "sk = (s, (if s = oc_sha x then ?n + 1 else next_ordinal counts s) + int k)"
          "k < count (mset (map oc_sha xs)) s"
      unfolding tail by auto
    then show "sk \<in> {(s, next_ordinal counts s + int k) | s k. k < count (mset (map oc_sha (x # xs))) s}"
    proof cases
      case 1
      then show ?thesis by fastforce
    next
      case (2 s k)
      then have "sk = (s, next_ordinal counts s + int (if s = oc_sha x then Suc k else k))"
        "(if s = oc_sha x then Suc k else k) < count (mset (map oc_sha (x # xs))) s" by auto
      then show ?thesis by blast
    qed
  next
    fix sk assume "sk \<in> {(s, next_ordinal counts s + int k) | s k. k < count (mset (map oc_sha (x # xs))) s}"
    then obtain s k where sk: "sk = (s, next_ordinal counts s + int k)" "k < count (mset (map oc_sha (x # xs))) s" by blast
    show "sk \<in> insert (oc_sha x, ?n) (set (zip (map oc_sha xs) (ordinals_loop ?c xs)))"
    proof (cases "s = oc_sha x")
      case True
      then show ?thesis using sk unfolding tail by (cases k) auto
    next
      case False
      then show ?thesis using sk unfolding tail by auto
    qed
  qed
  ultimately show ?case unfolding zip list.set distinct.simps using IH by blast
qed simp

lemma project_ordinals_range:
  assumes "int (length xs) \<le> i64_max"
  shows "set (text_ordinals xs) = {(s, int k) | s k. k < count (mset (map oc_sha xs)) s}"
    and "distinct (text_ordinals xs)"
  using ordinals_loop_range [of Map.empty xs] assms
  by (simp_all add: text_ordinals_def project_ordinals_def next_ordinal_def)

lemma digits_no_colon: "CHR '':'' \<notin> set (show_nat n)"
  using show_nat_digits [of n] by (auto simp: list_all_iff is_digit_def char_code_def)

lemma content_key_inj: "content_key k s n = content_key k s' n' \<longleftrightarrow> s = s' \<and> n = n'"
proof
  assume eq: "content_key k s n = content_key k s' n'"
  have split: "takeWhile (\<lambda>c. c \<noteq> CHR '':'') (rev (s @ '':'' @ show_nat n)) = rev (show_nat n)" for s n
    using digits_no_colon [of n] by (auto simp: takeWhile_append2 takeWhile_tail)
  have "s @ '':'' @ show_nat n = s' @ '':'' @ show_nat n'" using eq by (simp add: content_key_def)
  moreover from this have "show_nat n = show_nat n'" using split [of s n] split [of s' n'] by simp
  moreover from this have "n = n'" by (metis show_nat_digits)
  ultimately show "s = s' \<and> n = n'" by simp
qed simp

definition marker_keys :: "string \<Rightarrow> content_occurrence list \<Rightarrow> debt_key set" where
  "marker_keys k xs = {content_key k s n | s n. n < count (mset (map oc_sha xs)) s}"

lemma seen_markers_keys:
  "map oi_key (seen_markers lossy k location xs) = map (\<lambda>(s, n). content_key k s (nat n)) (text_ordinals xs)"
  by (simp add: seen_markers_def text_ordinals_def marker_item_def zip_map1 comp_def case_prod_beta)

lemma content_key_simps [simp]:
  "dk_subject (content_key k s n) = k" "dk_source (content_key k s n) = TodoMarker"
  by (simp_all add: content_key_def)

lemma seen_markers_ok:
  assumes "int (length xs) \<le> i64_max" and "so_source obs = TodoMarker"
  shows "producer_ok k obs (seen_markers lossy k location xs)"
    and "oi_key ` set (seen_markers lossy k location xs) = marker_keys k xs"
proof -
  note range = project_ordinals_range [OF assms(1)]
  have "inj_on (\<lambda>(s, n). content_key k s (nat n)) (set (text_ordinals xs))"
    unfolding range(1) by (auto simp: inj_on_def content_key_inj)
  then have "distinct (map oi_key (seen_markers lossy k location xs))"
    unfolding seen_markers_keys using range(2) by (simp add: distinct_map)
  moreover have "dk_subject (oi_key x) = k \<and> dk_source (oi_key x) = TodoMarker"
    if "x \<in> set (seen_markers lossy k location xs)" for x
    using that by (auto simp: seen_markers_def marker_item_def)
  ultimately show "producer_ok k obs (seen_markers lossy k location xs)"
    using assms(2) by (auto simp: producer_ok_def list_all_iff)
  have "oi_key ` set (seen_markers lossy k location xs) = (\<lambda>(s, n). content_key k s (nat n)) ` set (text_ordinals xs)"
    using arg_cong [OF seen_markers_keys, of set] by simp
  also have "\<dots> = marker_keys k xs"
    unfolding range(1) marker_keys_def by (auto simp: image_iff) (metis nat_int)+
  finally show "oi_key ` set (seen_markers lossy k location xs) = marker_keys k xs" .
qed

section \<open>What one build does\<close>

text \<open>The project's markers are keyed on its subject.\<close>

definition markers_keyed :: "string \<Rightarrow> index_db \<Rightarrow> int \<Rightarrow> bool" where
  "markers_keyed k db p \<longleftrightarrow> list_all (\<lambda>r. di_project r = p \<and> dk_source (di_key r) = TodoMarker \<longrightarrow>
     dk_subject (di_key r) = k) (db_items db)"

definition markers_on :: "index_db \<Rightarrow> content_gates \<Rightarrow> bool" where
  "markers_on db gates \<longleftrightarrow> cg_granted gates \<and>
     (case db_meta db (switch_key TodoMarker) of None \<Rightarrow> True | Some v \<Rightarrow> v = ''1'')"

lemma markers_off: "TodoMarker \<in> set (off_sources (read_switches db) granted) \<longleftrightarrow>
    \<not> (granted \<and> (case db_meta db (switch_key TodoMarker) of None \<Rightarrow> True | Some v \<Rightarrow> v = ''1''))"
  by (auto simp: off_sources_def read_switches_def needs_grant_def image_iff)

lemma marker_sweep_simps [simp]:
  "so_project (marker_sweep db state gates location n p now) = p"
  "so_source (marker_sweep db state gates location n p now) = TodoMarker"
  "so_location (marker_sweep db state gates location n p now) = location"
  "so_basis (marker_sweep db state gates location n p now) = Some (basis_of (ct_basis state))"
  "so_observed_at (marker_sweep db state gates location n p now) = now"
  "so_outcome (marker_sweep db state gates location n p now) =
     outcome_at_root db location (so_outcome (sweep_from_content state gates location (Some (sat_u32 n)) p now))"
  by (simp_all add: marker_sweep_def sweep_from_content_def Let_def)

lemma build_idle:
  "\<not> (markers_on (sc_db st) gates \<and> sc_rows st p \<noteq> None) \<Longrightarrow>
     build_items lossy st p location gates xs now = Inr (no_effect, st)"
  by (auto simp: build_items_def markers_off markers_on_def content_sweep_state_def content_scan_row_def)

lemma build_sweeps:
  assumes "build_items lossy st p location gates xs now = Inr (eff, st')"
    and "markers_on (sc_db st) gates" and "sc_rows st p \<noteq> None"
  obtains state db' where "content_sweep_state st p = Some state"
    and "debt_observe (sc_db st) (marker_sweep (sc_db st) state gates location (length (seen_markers lossy
         (subject_key_of (sc_db st) p) location xs)) p now)
         (seen_markers lossy (subject_key_of (sc_db st) p) location xs) = Inr (eff, db')"
    and "st' = st\<lparr>sc_db := db'\<rparr>"
proof -
  obtain state where state: "content_sweep_state st p = Some state"
    using assms(3) by (cases "content_sweep_state st p") (auto simp: content_sweep_state_def content_scan_row_def)
  have on: "TodoMarker \<notin> set (off_sources (read_switches (sc_db st)) (cg_granted gates))"
    using assms(2) unfolding markers_off markers_on_def by simp
  show thesis
    using assms(1) that [OF state] unfolding build_items_def if_not_P [OF on] state Let_def option.case
    by (simp split: sum.splits prod.splits)
qed

lemma build_settles:
  assumes "debt_wf (sc_db st)" and "markers_keyed (subject_key_of (sc_db st) p) (sc_db st) p"
    and "int (length xs) \<le> i64_max" and "build_items lossy st p location gates xs now = Inr (eff, st')"
    and "markers_on (sc_db st) gates" and "sc_rows st p \<noteq> None"
  obtains state where "content_sweep_state st p = Some state"
    and "debt_wf (sc_db st')" and "same_facts (sc_db st) (sc_db st')" and "sc_rows st' = sc_rows st"
    and "sc_cache st' = sc_cache st"
    and "markers_keyed (subject_key_of (sc_db st) p) (sc_db st') p"
    and "ef_opened eff = filter (\<lambda>x. x \<notin> di_key ` set (db_items (sc_db st)))
           (map oi_key (seen_markers lossy (subject_key_of (sc_db st) p) location xs))"
    and "\<And>c. c \<in> set (ef_closed eff) \<Longrightarrow> \<exists>r \<in> set (db_items (sc_db st)). c = closure_of r \<and> di_project r = p \<and>
           dk_source (di_key r) = TodoMarker \<and> di_key r \<notin> marker_keys (subject_key_of (sc_db st) p) xs \<and>
           may_close r (marker_sweep (sc_db st) state gates location (length (seen_markers lossy
             (subject_key_of (sc_db st) p) location xs)) p now)"
    and "\<And>x. x \<in> marker_keys (subject_key_of (sc_db st) p) xs \<Longrightarrow>
           \<exists>r \<in> set (db_items (sc_db st')). di_key r = x \<and> di_project r = p \<and> di_state r = ItemOpen"
    and "\<And>r. r \<in> set (db_items (sc_db st)) \<Longrightarrow> di_project r = p \<Longrightarrow> di_key r \<in> marker_keys (subject_key_of (sc_db st) p) xs \<Longrightarrow>
           \<exists>r' \<in> set (db_items (sc_db st')). di_id r' = di_id r \<and> di_key r' = di_key r \<and> di_first_seen r' = di_first_seen r"
proof -
  obtain state db' where swept: "content_sweep_state st p = Some state"
    "debt_observe (sc_db st) (marker_sweep (sc_db st) state gates location (length (seen_markers lossy
         (subject_key_of (sc_db st) p) location xs)) p now)
         (seen_markers lossy (subject_key_of (sc_db st) p) location xs) = Inr (eff, db')"
    "st' = st\<lparr>sc_db := db'\<rparr>"
    by (rule build_sweeps [OF assms(4-6)])
  let ?k = "subject_key_of (sc_db st) p" and ?db = "sc_db st"
  let ?seen = "seen_markers lossy ?k location xs"
  let ?obs = "marker_sweep ?db state gates location (length ?seen) p now"
  have ok: "producer_ok ?k ?obs ?seen" by (rule seen_markers_ok(1) [OF assms(3)]) simp
  have keys: "oi_key ` set ?seen = marker_keys ?k xs" by (rule seen_markers_ok(2) [OF assms(3), of ?obs]) simp
  have sub: "settled_subject ?k ?db ?obs"
    using assms(2) by (simp add: settled_subject_def markers_keyed_def list_all_iff)
  note ex = sweep_exact [OF assms(1) sub ok swept(2)]
  let ?new = "filter (\<lambda>x. oi_key x \<notin> di_key ` set (db_items ?db)) ?seen"
  have items: "set (db_items db') = {r'. \<exists>r \<in> set (db_items ?db). after_sweep ?obs ?seen r = Some r'} \<union>
      set (new_rows ?obs (db_next_item ?db) ?new)"
    using ex by (auto simp: map_filter_member)
  have facts: "same_facts ?db db'" using ex by (simp add: same_facts_def)
  have "settled_subject ?k db' ?obs" using ex by blast
  then have keyed': "markers_keyed ?k db' p" by (simp add: settled_subject_def markers_keyed_def list_all_iff)
  have shared: "di_project r = p" if "r \<in> set (db_items ?db)" "di_key r \<in> oi_key ` set ?seen" for r
    using sweep_refused [OF ok, of ?db] assms(1) swept(2) that by (force simp: debt_wf_def)
  have refreshed: "\<exists>x. after_sweep ?obs ?seen r = Some (refreshed p x now r) \<and> oi_key x = di_key r"
    if r: "r \<in> set (db_items ?db)" "di_key r \<in> oi_key ` set ?seen" for r
  proof -
    obtain y where y: "y \<in> set ?seen" "oi_key y = di_key r" using r(2) by auto
    then obtain x where x: "find (\<lambda>x. oi_key x = di_key r) ?seen = Some x"
      by (cases "find (\<lambda>x. oi_key x = di_key r) ?seen") (auto simp: find_None_iff)
    then have "oi_key x = di_key r" by (auto simp: find_Some_iff)
    moreover have "dk_source (di_key r) = TodoMarker" using ok y by (auto simp: producer_ok_def list_all_iff)
    ultimately show ?thesis using x shared [OF r] by (auto simp: after_sweep_def)
  qed
  have open_all: "\<exists>r \<in> set (db_items db'). di_key r = x \<and> di_project r = p \<and> di_state r = ItemOpen"
    if x: "x \<in> marker_keys ?k xs" for x
  proof (cases "x \<in> di_key ` set (db_items ?db)")
    case True
    then obtain r where r: "r \<in> set (db_items ?db)" "di_key r = x" by auto
    then have seen: "di_key r \<in> oi_key ` set ?seen" using x keys by simp
    obtain y where y: "after_sweep ?obs ?seen r = Some (refreshed p y now r)" "oi_key y = di_key r"
      using refreshed [OF r(1) seen] by blast
    then have "refreshed p y now r \<in> set (db_items db')" unfolding items using r(1) by blast
    moreover have "di_state (refreshed p y now r) = ItemOpen" using y(2) shared [OF r(1) seen] by (simp add: refreshed_def)
    ultimately show ?thesis using r(2) shared [OF r(1) seen] by (intro bexI [of _ "refreshed p y now r"]) simp_all
  next
    case False
    moreover have "x \<in> oi_key ` set ?seen" using x keys by simp
    ultimately obtain y where y: "y \<in> set ?new" "oi_key y = x" by auto
    have "\<exists>r \<in> set (new_rows o1 i ys). di_key r = oi_key y \<and> di_project r = so_project o1 \<and> di_state r = ItemOpen"
      if "y \<in> set ys" for o1 i ys
      using that
    proof (induction ys arbitrary: i)
      case (Cons z ys)
      then show ?case by (cases "z = y") (auto simp: new_row_def)
    qed simp
    from this [OF y(1), of ?obs "db_next_item ?db"] show ?thesis unfolding items using y(2) by auto
  qed
  have "ef_opened eff = map oi_key ?new" using ex by blast
  then have opened: "ef_opened eff = filter (\<lambda>x. x \<notin> di_key ` set (db_items ?db)) (map oi_key ?seen)"
    by (simp add: filter_map comp_def)
  have kept: "\<exists>r' \<in> set (db_items db'). di_id r' = di_id r \<and> di_key r' = di_key r \<and> di_first_seen r' = di_first_seen r"
    if r: "r \<in> set (db_items ?db)" "di_project r = p" "di_key r \<in> marker_keys ?k xs" for r
  proof -
    obtain y where "after_sweep ?obs ?seen r = Some (refreshed p y now r)" using refreshed [OF r(1)] r(3) keys by blast
    then have "refreshed p y now r \<in> set (db_items db')" unfolding items using r(1) by blast
    then show ?thesis by (intro bexI [of _ "refreshed p y now r"]) simp_all
  qed
  have closed: "\<exists>r \<in> set (db_items ?db). c = closure_of r \<and> di_project r = p \<and> dk_source (di_key r) = TodoMarker \<and>
      di_key r \<notin> marker_keys ?k xs \<and> may_close r ?obs" if "c \<in> set (ef_closed eff)" for c
  proof -
    have "ef_closed eff = map closure_of (filter (\<lambda>r. di_key r \<notin> oi_key ` set ?seen \<and> may_close r ?obs)
        (stored_items ?db p TodoMarker))" using ex by simp
    then show ?thesis using that keys by auto
  qed
  show thesis
    by (rule that [OF swept(1)]) (use ex facts keyed' opened closed open_all kept swept(3) in auto)
qed



section \<open>Chunks add up\<close>

definition blob_known :: "blob_cache \<Rightarrow> string \<Rightarrow> bool" where
  "blob_known cache oid \<longleftrightarrow> bc_scan cache oid J7_SCANNER_VERSION \<noteq> None"

lemma record_read_known:
  "blob_known (record_read scan J7_SCANNER_VERSION now cache r) oid \<longleftrightarrow> oid = br_oid r \<or> blob_known cache oid"
  by (auto simp: blob_known_def record_read_def record_blob_scan_def record_findings_def Let_def)

lemma record_reads_known:
  "blob_known (foldl (record_read scan J7_SCANNER_VERSION now) cache reads) oid \<longleftrightarrow>
     oid \<in> br_oid ` set reads \<or> blob_known cache oid"
  by (induction reads arbitrary: cache) (auto simp: record_read_known)

lemma cached_blobs_set: "set (cached_blobs cache window) = {oid \<in> te_oid ` set window. blob_known cache oid}"
  by (auto simp: cached_blobs_def missing_blobs_def cached_scan_def blob_known_def Let_def)

lemma wanted_blobs_set: "set (wanted_blobs cached window) = te_oid ` set window - set cached"
  unfolding wanted_blobs_def by (induction window rule: rev_induct) auto

lemma wanted_blobs_first: "te_oid e \<notin> set cached \<Longrightarrow>
    \<exists>rest. wanted_blobs cached (e # window) = te_oid e # rest"
  unfolding wanted_blobs_def by (induction window rule: rev_induct) auto

lemma observe_same_facts:
  assumes "debt_observe db obs seen = Inr (eff, db')"
  shows "same_facts db db'"
proof -
  have see: "see_all obs stored xs (eff, db) = Inr (eff', db') \<Longrightarrow> same_facts db db'" for stored xs eff db eff' db'
  proof (induction xs arbitrary: eff db)
    case (Cons x xs)
    have "same_facts db (refresh_item db (so_project obs) x (so_observed_at obs))"
      by (simp add: same_facts_def refresh_item_def)
    moreover have "open_item db (so_project obs) x (so_observed_at obs) = Inr d \<Longrightarrow> same_facts db d" for d
      by (auto simp: same_facts_def open_item_def split: if_splits)
    ultimately show ?case
      using Cons same_facts_trans by (fastforce split: if_splits sum.splits)
  qed simp
  have one: "same_facts (snd st) (snd (miss_one obs i st))" for i st
    by (cases st) (simp add: miss_one_def delete_item_def withdraw_item_def same_facts_def)
  have miss: "same_facts (snd st) (snd (miss_all obs keys items st))" for keys items st
  proof (induction items arbitrary: st)
    case (Cons i items)
    show ?case
      using Cons.IH [of st] same_facts_trans [OF one [of st i] Cons.IH [of "miss_one obs i st"]] by simp
  qed simp
  obtain db1 eff2 db2 where u: "upsert_sweep db obs = Inr db1"
    and s: "see_all obs (stored_items db1 (so_project obs) (so_source obs)) seen (no_effect, db1) = Inr (eff2, db2)"
    and m: "db' = snd (miss_all obs (oi_key ` set seen) (stored_items db1 (so_project obs) (so_source obs)) (eff2, db2))"
    using assms by (auto simp: debt_observe_def Let_def split: sum.splits)
  have "same_facts db db1" using u by (auto simp: upsert_sweep_def same_facts_def split: if_splits)
  moreover have "same_facts db2 db'" using miss [of "(eff2, db2)"] m by simp
  ultimately show ?thesis using see [OF s] same_facts_trans by blast
qed

lemma build_same:
  assumes "build_items lossy st p location gates xs now = Inr (eff, st')"
  shows "same_facts (sc_db st) (sc_db st') \<and> sc_rows st' = sc_rows st \<and> sc_cache st' = sc_cache st"
proof (cases "markers_on (sc_db st) gates \<and> sc_rows st p \<noteq> None")
  case True
  then obtain state db' where "debt_observe (sc_db st) (marker_sweep (sc_db st) state gates location (length (seen_markers lossy
         (subject_key_of (sc_db st) p) location xs)) p now)
         (seen_markers lossy (subject_key_of (sc_db st) p) location xs) = Inr (eff, db')"
    "st' = st\<lparr>sc_db := db'\<rparr>"
    using build_sweeps [OF assms] by metis
  then show ?thesis using observe_same_facts by simp
next
  case False
  then show ?thesis using assms build_idle [OF False] by simp
qed

text \<open>A scan under way at a head: so many blobs read off the front of the enumeration, the others
  pending, and no claim of completeness.\<close>

definition scanned_to :: "tree_entry list \<Rightarrow> int \<Rightarrow> string \<Rightarrow> nat \<Rightarrow> scan_state \<Rightarrow> bool" where
  "scanned_to filtered p head n st \<longleftrightarrow>
     n \<le> length filtered \<and> list_all (\<lambda>e. blob_known (sc_cache st) (te_oid e)) (take n filtered) \<and>
     (\<exists>r. sc_rows st p = Some r \<and> sn_head r = head \<and> sn_complete r \<noteq> Some head \<and>
        sn_pending r = Some (int (length filtered) - int n))"

definition scan_complete :: "tree_entry list \<Rightarrow> int \<Rightarrow> string \<Rightarrow> scan_state \<Rightarrow> bool" where
  "scan_complete filtered p head st \<longleftrightarrow>
     list_all (\<lambda>e. blob_known (sc_cache st) (te_oid e)) filtered \<and>
     (\<exists>r. sc_rows st p = Some r \<and> sn_head r = head \<and> sn_complete r = Some head)"

text \<open>What the backend promises of a batch: a first part of the request is answered, not an empty one,
  and each blob of it is read. Every blob of a head is in the repository.\<close>

definition git_answers :: "j7_env \<Rightarrow> bool" where
  "git_answers env \<longleftrightarrow> (\<forall>oids reads n. je_read env oids = Inr (reads, n) \<longrightarrow>
     n \<le> length oids \<and> (oids \<noteq> [] \<longrightarrow> 0 < n) \<and> set (take n oids) \<subseteq> br_oid ` set reads)"

lemma write_chunk_steps:
  assumes "scanned_to filtered p head n st" and "n + consumed \<le> length filtered"
    and known: "\<And>e. e \<in> set (take consumed (drop n filtered)) \<Longrightarrow>
      te_oid e \<in> br_oid ` set reads \<or> blob_known (sc_cache st) (te_oid e)"
    and "write_chunk env p location gates head filtered reads consumed n now st = (Inr out, st')"
  shows "(if n + consumed = length filtered then out = OutDone \<and> scan_complete filtered p head st'
          else out = Partial (show_nat (n + consumed)) (int (n + consumed)) (Some (int (length filtered))) \<and>
            scanned_to filtered p head (n + consumed) st') \<and>
    db_projects (sc_db st') = db_projects (sc_db st) \<and> db_meta (sc_db st') = db_meta (sc_db st) \<and>
    db_locations (sc_db st') = db_locations (sc_db st)"
proof -
  obtain r where r: "sc_rows st p = Some r" "sn_head r = head" "sn_complete r \<noteq> Some head"
    "sn_pending r = Some (int (length filtered) - int n)"
    using assms(1) by (auto simp: scanned_to_def)
  let ?cache = "foldl (record_read (je_scan env) J7_SCANNER_VERSION now) (sc_cache st) reads"
  let ?left = "int (length filtered) - int (n + consumed)"
  have left: "max 0 (coalesce_0 (sn_pending r) - int consumed) = ?left"
    using assms(2) r(4) by (simp add: coalesce_0_def)
  obtain st1 where commit: "commit_chunk (je_scan env) p head reads (int consumed) now st = Some (?left, st1)"
    and st1: "sc_db st1 = sc_db st" "sc_cache st1 = ?cache"
      "sc_rows st1 p = Some (if ?left = 0
         then r\<lparr>sn_pending := Some ?left, sn_complete := Some head, sn_completed_at := Some now\<rparr>
         else r\<lparr>sn_pending := Some ?left\<rparr>)"
    using r left by (auto simp: commit_chunk_def Let_def coalesce_0_def)
  obtain eff st2 where build: "build_items (je_lossy env) st1 p (Some location) gates
      (occurrences_for_project (sc_cache st1) filtered) now = Inr (eff, st2)"
    and out: "out = finish ?left (n + consumed) (int (length filtered))" "st' = st2"
    using assms(4) commit by (auto simp: write_chunk_def split: sum.splits)
  note same = build_same [OF build]
  have cache: "blob_known (sc_cache st') oid \<longleftrightarrow> oid \<in> br_oid ` set reads \<or> blob_known (sc_cache st) oid" for oid
    using same st1(2) out(2) by (simp add: record_reads_known)
  have "take (n + consumed) filtered = take n filtered @ take consumed (drop n filtered)" by (rule take_add)
  then have front: "list_all (\<lambda>e. blob_known (sc_cache st') (te_oid e)) (take (n + consumed) filtered)"
    using assms(1) known unfolding cache by (auto simp: scanned_to_def list_all_iff)
  have row: "sc_rows st' p = Some (if ?left = 0
         then r\<lparr>sn_pending := Some ?left, sn_complete := Some head, sn_completed_at := Some now\<rparr>
         else r\<lparr>sn_pending := Some ?left\<rparr>)"
    using same st1(3) out(2) by simp
  have db: "db_projects (sc_db st') = db_projects (sc_db st)" "db_meta (sc_db st') = db_meta (sc_db st)"
    "db_locations (sc_db st') = db_locations (sc_db st)"
    using same st1(1) out(2) same_facts_fields [of "sc_db st1" "sc_db st2"] by simp_all
  show ?thesis
  proof (cases "n + consumed = length filtered")
    case True
    then show ?thesis using front row out(1) r db by (simp add: finish_def scan_complete_def)
  next
    case False
    then show ?thesis using front row out(1) r db assms(2) by (simp add: finish_def scanned_to_def)
  qed
qed

lemma run_chunk_steps:
  assumes at: "scanned_to filtered p head n st" and "git_answers env" and gates: "reads_blobs gates"
    and run: "run_chunk env p location gates head n filtered now st = (Inr out, st')"
  obtains (finished) "out = OutDone" "scan_complete filtered p head st'"
    | (further) m where "n < m" "m < length filtered" "scanned_to filtered p head m st'"
        "out = Partial (show_nat m) (int m) (Some (int (length filtered)))"
        "db_projects (sc_db st') = db_projects (sc_db st)" "db_meta (sc_db st') = db_meta (sc_db st)"
        "db_locations (sc_db st') = db_locations (sc_db st)"
proof -
  let ?window = "take J7_CHUNK_BLOBS (drop n filtered)"
  have n: "n \<le> length filtered" using at by (simp add: scanned_to_def)
  show thesis
  proof (cases "?window = []")
    case True
    then have whole: "n = length filtered" using n by (simp add: J7_CHUNK_BLOBS_def)
    have "write_chunk env p location gates head filtered [] 0 n now st = (Inr out, st')"
      using run True by (simp add: run_chunk_def)
    from write_chunk_steps [OF at _ _ this] whole show thesis by (intro finished) simp_all
  next
    case False
    let ?cached = "cached_blobs (sc_cache st) ?window"
    let ?wanted = "wanted_blobs ?cached ?window"
    obtain reads covered where read: "je_read env ?wanted = Inr (reads, covered)"
      using run False gates by (auto simp: run_chunk_def Let_def split: sum.splits)
    let ?P = "\<lambda>e. te_oid e \<in> set ?cached \<or> te_oid e \<in> set (take covered ?wanted)"
    let ?consumed = "length (takeWhile ?P ?window)"
    have written: "write_chunk env p location gates head filtered reads ?consumed n now st = (Inr out, st')"
      using run False gates read by (simp add: run_chunk_def Let_def)
    have answers: "?wanted \<noteq> [] \<Longrightarrow> 0 < covered" "set (take covered ?wanted) \<subseteq> br_oid ` set reads"
      using assms(2) read by (auto simp: git_answers_def)
    have "length ?window \<le> length filtered - n" by simp
    then have "?consumed \<le> length filtered - n" by (rule order.trans [OF length_takeWhile_le])
    then have fits: "n + ?consumed \<le> length filtered" using n by arith
    have front: "take ?consumed ?window = takeWhile ?P ?window"
      by (metis takeWhile_eq_take)
    have "?consumed \<le> J7_CHUNK_BLOBS" by (rule order.trans [OF length_takeWhile_le]) simp
    then have "take ?consumed ?window = take ?consumed (drop n filtered)" by (simp only: take_take min.absorb1)
    then have "take ?consumed (drop n filtered) = takeWhile ?P ?window" using front by (simp only:)
    then have known: "te_oid e \<in> br_oid ` set reads \<or> blob_known (sc_cache st) (te_oid e)"
      if "e \<in> set (take ?consumed (drop n filtered))" for e
      using that answers(2) set_takeWhileD [of e ?P ?window] by (auto simp: cached_blobs_set)
    obtain e rest where window: "?window = e # rest" using False by (cases ?window) auto
    have "?P e"
    proof (cases "te_oid e \<in> set ?cached")
      case False
      then obtain more where "?wanted = te_oid e # more" using wanted_blobs_first [of e ?cached rest] window by auto
      then show ?thesis using answers(1) by (cases covered) auto
    qed simp
    then have some: "0 < ?consumed" using window by simp
    note steps = write_chunk_steps [OF at fits known written]
    show thesis
    proof (cases "n + ?consumed = length filtered")
      case True
      then show thesis using steps by (intro finished) simp_all
    next
      case False
      then show thesis using steps fits some by (intro further [of "n + ?consumed"]) simp_all
    qed
  qed
qed

section \<open>A scan ends with the whole tree read\<close>

text \<open>The job queued again at each chunk boundary, as the scheduler does with its cursor, until it
  ends; the first component tells a scan that ended from one that failed.\<close>

fun drive_j7 :: "j7_env \<Rightarrow> int \<Rightarrow> int \<Rightarrow> int \<Rightarrow> nat \<Rightarrow> string option \<Rightarrow> scan_state \<Rightarrow> (bool \<times> scan_state) option" where
  "drive_j7 env p location now 0 resume st = None"
| "drive_j7 env p location now (Suc fuel) resume st =
     (case run_j7 env p location resume now st of
        (Inl e, st') \<Rightarrow> Some (False, st')
      | (Inr (Partial c n blobs), st') \<Rightarrow> drive_j7 env p location now fuel (Some c) st'
      | (Inr _, st') \<Rightarrow> Some (True, st'))"

lemma enumeration_same [simp]:
  "db_projects (sc_db (write_enumeration p head a n now st)) = db_projects (sc_db st)"
  "db_meta (sc_db (write_enumeration p head a n now st)) = db_meta (sc_db st)"
  "db_locations (sc_db (write_enumeration p head a n now st)) = db_locations (sc_db st)"
  "sc_cache (write_enumeration p head a n now st) = sc_cache st"
  by (simp_all add: write_enumeration_def)

lemma gates_cong:
  "db_projects db' = db_projects db \<Longrightarrow> db_meta db' = db_meta db \<Longrightarrow> gates_for db' p = gates_for db p"
  unfolding gates_for_def is_reference_def project_of_def content_scan_enabled_def by simp

lemma head_cong: "db_locations db' = db_locations db \<Longrightarrow> head_oid_of db' location = head_oid_of db location"
  by (simp add: head_oid_of_def)

lemma cursor_ordinal_of: "n \<le> u64_max \<Longrightarrow> cursor_ordinal (Some (show_nat n)) = n"
  using parse_unsigned_digits [of "show_nat n" u64_max] show_nat_digits [of n] by (simp add: cursor_ordinal_def)

text \<open>One run at a head under way, its cursor the count of what was read.\<close>

lemma run_j7_resumes:
  assumes "scanned_to filtered p head n st" and "git_answers env" and "reads_blobs (gates_for (sc_db st) p)"
    and "head_oid_of (sc_db st) location = Some head" and "je_tree env = Inr entries"
    and "filtered = filtered_entries (je_programming env) entries" and "cursor_ordinal resume = n"
  shows "\<exists>st1. run_j7 env p location resume now st =
      run_chunk env p location (gates_for (sc_db st) p) head n filtered now st1 \<and>
    scanned_to filtered p head n st1 \<and> db_projects (sc_db st1) = db_projects (sc_db st) \<and>
    db_meta (sc_db st1) = db_meta (sc_db st) \<and> db_locations (sc_db st1) = db_locations (sc_db st)"
proof -
  obtain r where r: "sc_rows st p = Some r" "sn_head r = head" "sn_complete r \<noteq> Some head"
    "sn_pending r = Some (int (length filtered) - int n)"
    using assms(1) by (auto simp: scanned_to_def)
  let ?st = "write_enumeration p head (presence_for entries) (Some (int (length filtered))) now st"
  have "start_ordinal (gates_for (sc_db st) p) p location head (content_scan_row st p) resume st = (Some n, st)"
    using r assms(7) by (simp add: start_ordinal_def content_scan_row_def Let_def)
  then have "run_j7 env p location resume now st = run_chunk env p location (gates_for (sc_db st) p) head n filtered now ?st"
    using assms(3-6) by (simp add: run_j7_def Let_def reads_blobs_def)
  moreover have "scanned_to filtered p head n ?st"
    using assms(1) r by (simp add: scanned_to_def write_enumeration_def)
  ultimately show ?thesis by (intro exI [of _ ?st]) simp
qed

lemma drive_resumes:
  assumes "git_answers env" and "je_tree env = Inr entries"
    and "filtered = filtered_entries (je_programming env) entries" and "length filtered \<le> u64_max"
  shows "scanned_to filtered p head n st \<Longrightarrow> cursor_ordinal resume = n \<Longrightarrow>
    reads_blobs (gates_for (sc_db st) p) \<Longrightarrow> head_oid_of (sc_db st) location = Some head \<Longrightarrow>
    length filtered < n + fuel \<Longrightarrow>
    \<exists>ok st'. drive_j7 env p location now fuel resume st = Some (ok, st') \<and> (ok \<longrightarrow> scan_complete filtered p head st')"
proof (induction fuel arbitrary: n resume st)
  case 0
  then show ?case by (simp add: scanned_to_def)
next
  case (Suc fuel)
  obtain st1 where run: "run_j7 env p location resume now st =
      run_chunk env p location (gates_for (sc_db st) p) head n filtered now st1"
    and at: "scanned_to filtered p head n st1" and same: "db_projects (sc_db st1) = db_projects (sc_db st)"
      "db_meta (sc_db st1) = db_meta (sc_db st)" "db_locations (sc_db st1) = db_locations (sc_db st)"
    using run_j7_resumes [OF Suc.prems(1) assms(1) Suc.prems(3,4) assms(2,3) Suc.prems(2)] by metis
  obtain res st' where res: "run_j7 env p location resume now st = (res, st')" by (cases "run_j7 env p location resume now st")
  show ?case
  proof (cases res)
    case (Inl e)
    then show ?thesis using res by (intro exI [of _ False] exI [of _ st']) simp
  next
    case (Inr out)
    have chunk: "run_chunk env p location (gates_for (sc_db st) p) head n filtered now st1 = (Inr out, st')"
      using run res Inr by simp
    show ?thesis
    proof (cases rule: run_chunk_steps [OF at assms(1) Suc.prems(3) chunk])
      case 1
      then show ?thesis using res Inr by (intro exI [of _ True] exI [of _ st']) simp
    next
      case (2 m)
      have "reads_blobs (gates_for (sc_db st') p)" "head_oid_of (sc_db st') location = Some head"
        using Suc.prems(3,4) 2 same gates_cong [of "sc_db st'" "sc_db st" p] head_cong [of "sc_db st'" "sc_db st" location]
        by simp_all
      moreover have "cursor_ordinal (Some (show_nat m)) = m" using 2(2) assms(4) by (intro cursor_ordinal_of) simp
      ultimately have "\<exists>ok st''. drive_j7 env p location now fuel (Some (show_nat m)) st' = Some (ok, st'') \<and>
          (ok \<longrightarrow> scan_complete filtered p head st'')"
        using Suc.prems(5) 2 by (intro Suc.IH [of m]) simp_all
      then show ?thesis using res Inr 2 by simp
    qed
  qed
qed


section \<open>Where the count is lost\<close>

text \<open>A pending count that is NULL is read as nothing pending: whatever the first chunk covers, the
  scan is then recorded as complete and the job as done. The enumeration keeps the stored count at
  an unchanged head, so both a first enumeration that failed and a grant that was withdrawn and given
  again leave it NULL.\<close>

lemma uncounted_scan_completes_early:
  assumes "sc_rows st p = Some r" and "sn_head r = head" and "sn_complete r \<noteq> Some head" and "sn_pending r = None"
    and "reads_blobs (gates_for (sc_db st) p)" and "head_oid_of (sc_db st) location = Some head"
    and "je_tree env = Inr entries" and "run_j7 env p location resume now st = (Inr out, st')"
  shows "out = OutDone \<and> (\<exists>r'. sc_rows st' p = Some r' \<and> sn_head r' = head \<and> sn_complete r' = Some head)"
proof -
  let ?filtered = "filtered_entries (je_programming env) entries"
  let ?st = "write_enumeration p head (presence_for entries) (Some (int (length ?filtered))) now st"
  have row: "\<exists>r. sc_rows ?st p = Some r \<and> sn_head r = head \<and> sn_pending r = None"
    using assms(1,2,4) by (simp add: write_enumeration_def)
  have start: "start_ordinal (gates_for (sc_db st) p) p location head (content_scan_row st p) resume st
      = (Some (cursor_ordinal resume), st)"
    using assms(1-3) by (simp add: start_ordinal_def content_scan_row_def Let_def)
  have chunk: "write_chunk env p location g head ?filtered reads n m now ?st = (Inr out, st') \<Longrightarrow>
      out = OutDone \<and> (\<exists>r'. sc_rows st' p = Some r' \<and> sn_head r' = head \<and> sn_complete r' = Some head)" for g reads n m
  proof -
    assume w: "write_chunk env p location g head ?filtered reads n m now ?st = (Inr out, st')"
    obtain r2 where r2: "sc_rows ?st p = Some r2" "sn_head r2 = head" "sn_pending r2 = None" using row by blast
    then obtain st1 r3 where c: "commit_chunk (je_scan env) p head reads (int n) now ?st = Some (0, st1)"
      "sc_rows st1 p = Some r3" "sn_head r3 = head" "sn_complete r3 = Some head"
      by (auto simp: commit_chunk_def Let_def coalesce_0_def)
    then obtain eff where b: "build_items (je_lossy env) st1 p (Some location) g
        (occurrences_for_project (sc_cache st1) ?filtered) now = Inr (eff, st')" and "out = finish 0 (m + n) (int (length ?filtered))"
      using w by (auto simp: write_chunk_def split: sum.splits)
    then show ?thesis using build_same [OF b] c by (simp add: finish_def)
  qed
  have "run_chunk env p location (gates_for (sc_db st) p) head (cursor_ordinal resume) ?filtered now ?st = (Inr out, st')"
    using assms(5-8) start by (simp add: run_j7_def reads_blobs_def Let_def)
  then show ?thesis
    using assms(5) chunk by (auto simp: run_chunk_def Let_def split: if_splits sum.splits)
qed

lemma failed_enumeration_is_uncounted:
  assumes "sc_rows st p = None" and "reads_blobs (gates_for (sc_db st) p)"
    and "head_oid_of (sc_db st) location = Some head" and "je_tree env = Inl err"
    and "run_j7 env p location resume now st = (res, st')"
  shows "res = Inl (JeGit err) \<and>
    (\<exists>r. sc_rows st' p = Some r \<and> sn_head r = head \<and> sn_complete r \<noteq> Some head \<and> sn_pending r = None)"
  using assms
  by (auto simp: run_j7_def reads_blobs_def start_ordinal_def content_scan_row_def write_enumeration_def Let_def)

lemma revoked_scan_is_uncounted:
  "sc_rows (revoke_content_scan st) p = Some r \<Longrightarrow> sn_complete r = None \<and> sn_pending r = None"
  by (auto simp: revoke_content_scan_def)

section \<open>A small repository\<close>

definition scan_db :: index_db where
  "scan_db = small_db\<lparr>
     db_projects := [blank_project\<lparr>pc_lineage_key := Some ''l'', pc_authored_by_user := Some 1, pc_acknowledged_at := Some 2\<rparr>],
     db_locations := [blank_location\<lparr>lc_head_oid := Some ''h''\<rparr>],
     db_items := [marker_row 1 ''lineage:l|remote:'' ''aa''], db_next_item := 2,
     db_meta := (\<lambda>k. if k = ''content_scan_enabled'' then Some ''1'' else None)\<rparr>"

definition scan_start :: scan_state where
  "scan_start = \<lparr>sc_db = scan_db, sc_rows = Map.empty,
     sc_cache = \<lparr>bc_scan = (\<lambda>_ _. None), bc_findings = (\<lambda>_ _. [])\<rparr>\<rparr>"

definition blob_entry :: "string \<Rightarrow> string \<Rightarrow> tree_entry" where
  "blob_entry oid path = \<lparr>te_mode = ''100644'', te_kind = ''blob'', te_oid = oid, te_path = path\<rparr>"

definition small_env :: j7_env where
  "small_env = \<lparr>je_programming = (\<lambda>path. True), je_lossy = (\<lambda>s. s), je_scan = scan_blob all_hits (\<lambda>s. s) (\<lambda>s. s),
     je_tree = Inr [blob_entry ''o1'' ''b.rs'', blob_entry ''o2'' ''a.rs''],
     je_read = (\<lambda>oids. Inr (map (\<lambda>o1. \<lparr>br_oid = o1, br_size = 9, br_bytes = Some ''// TODO x''\<rparr>) oids, length oids))\<rparr>"

lemma scan_start_gates: "reads_blobs (gates_for (sc_db scan_start) 1)" "head_oid_of (sc_db scan_start) 1 = Some ''h''"
  by code_simp+


definition scan_done :: scan_state where
  "scan_done = scan_start\<lparr>sc_rows := [1 \<mapsto> \<lparr>sn_head = ''h'', sn_complete = Some ''h'', sn_total = Some 2,
     sn_pending = Some 0, sn_version = 1, sn_presence_at = 5, sn_enumerated_at = 5, sn_completed_at = Some 5\<rparr>]\<rparr>"

definition todo_in :: "string \<Rightarrow> nat \<Rightarrow> content_occurrence" where
  "todo_in path line = \<lparr>oc_blob = ''o1'', oc_path = path, oc_line = line, oc_column = 1, oc_marker = Todo,
     oc_sha = ''aa'', oc_salient = ''TODO''\<rparr>"

lemma scan_done_ok:
  "debt_wf (sc_db scan_done)" "markers_keyed (subject_key_of (sc_db scan_done) 1) (sc_db scan_done) 1"
  "markers_on (sc_db scan_done) (gates_for (sc_db scan_done) 1)" "sc_rows scan_done 1 \<noteq> None"
  "cg_granted (gates_for (sc_db scan_done) 1)"
proof -
  show "debt_wf (sc_db scan_done)"
    by (simp add: debt_wf_def scan_done_def scan_start_def scan_db_def small_db_def marker_row_def)
  show "markers_keyed (subject_key_of (sc_db scan_done) 1) (sc_db scan_done) 1"
    "markers_on (sc_db scan_done) (gates_for (sc_db scan_done) 1)" "cg_granted (gates_for (sc_db scan_done) 1)"
    by code_simp+
  show "sc_rows scan_done 1 \<noteq> None" by (simp add: scan_done_def)
qed



end
