(* ===== verification/Spec2Isabelle.thy ===== *)
theory Spec2Isabelle
  imports Uninstall_Reports Job_Pool Sync_Runner Session_World Proto_Loop Calendar Shelf_Page Debt_Markers
begin

text \<open>
  A verification library for Codotheca's core (the Rust crate under \<open>src/core\<close>): a desktop
  library of the Git repositories on a machine. The core indexes repositories into SQLite with
  background jobs, keeps what a forge says of them fresh, times the sessions
  spent in them, and, before it will move a working folder to the trash, checks that nothing in it
  exists only there. The library models the parts in which a mistake costs the user work, recorded
  time, or the forge's goodwill.

  \<^bold>\<open>The Uninstall check\<close> (\<open>src/core/src/analyser/\<close>, with \<open>git/repo.rs\<close>, \<open>mount.rs\<close>,
  \<open>identity/lineage.rs\<close>). \<open>Uninstall_Verdict\<close> has the vocabulary: the blockers in the order
  the enum declares them, dispositions and their fold, the seal, what the remotes say and which
  blockers a push can discharge (\<open>verdict.rs\<close>, \<open>remote.rs\<close>, \<open>compose.rs\<close>).
  \<open>Uninstall_Worktree\<close> has paths, handles, the path gates, the junk rule and the walk of the
  worktree (\<open>gates.rs\<close>, \<open>worktree.rs\<close>, \<open>nested.rs\<close>). \<open>Uninstall_Analysis\<close> has the
  recursive analysis of a repository and of what is nested in it, the verdict, and the last read
  before the act (\<open>mod.rs\<close>, \<open>roots.rs\<close>, \<open>snapshot.rs\<close>). The recursion carries the code's
  depth and its bound \<open>MAX_NESTING\<close> (three), so it is total without fuel; past the bound the
  answer is a blocker, never a silence. What git, the trash and the network answer is the record
  \<open>uninstall_env\<close>, a parameter. \<open>Uninstall_Safety\<close> states, without the code's order of steps,
  what it is for a repository to be settled, and proves that the check answers Safe exactly then;
  \<open>Uninstall_Reports\<close> proves what the rest of the verdict says.

  \<^bold>\<open>The job scheduler\<close> (\<open>src/core/src/jobs/\<close>, with the failures of \<open>git/error.rs\<close>).
  \<open>Job_Model\<close> has kinds, bands, outcomes, the durable row with its retries and resets, and the
  chain of jobs after each job (\<open>mod.rs\<close>, \<open>state.rs\<close>). \<open>Job_Queue\<close> has the queue over an
  ordered map (\<open>Ordered_Map\<close>, Rust's \<open>BTreeMap\<close> as a sorted association list) and the slot
  table (\<open>queue.rs\<close>). Two locales state what the pool relies on: \<open>slot_table\<close> (giving and
  taking a slot keep the table the count of a multiset of holders) and \<open>admitting_queue\<close> (a
  pop hands out an admissible job and takes its slot); both are interpreted on the code's
  functions. \<open>Job_Pool\<close> has the settle and the worker pool as a step relation
  (\<open>scheduler.rs\<close>): workers, settles and callers interleave at the mutex, in any order.

  \<^bold>\<open>Remote sync\<close> (\<open>src/core/src/sync/\<close>). \<open>Sync_Policy\<close> has the response classifier, the
  outcome table of a task's row and the rate budget (\<open>outcome.rs\<close>, \<open>state.rs\<close>,
  \<open>budget.rs\<close>). \<open>Sync_Runner\<close> has the task table, the schedule and the single thread that
  runs the tasks, as a step relation between its critical sections (\<open>runner.rs\<close>,
  \<open>schedule.rs\<close>).

  \<^bold>\<open>Sessions and playtime\<close> (\<open>src/core/src/session/\<close>, with \<open>clock.rs\<close> and
  \<open>ledger/focus.rs\<close>). \<open>Clock\<close> has local days and the search for their bounds.
  \<open>Session_Segment\<close> has the per-session state machine that turns focus and activity into
  segments (\<open>segment.rs\<close>). \<open>Session_Store\<close> has the statements on the session and segment
  rows, the day measure and the Focus contribution of a close (\<open>store.rs\<close>,
  \<open>measure.rs\<close>, \<open>ledger/focus.rs\<close>). \<open>Session_Focus\<close> says what the measure counts, as
  sets of instants, and \<open>Session_History\<close> what every sequence of the tables' steps keeps.
  \<open>Session_Manager\<close> has the registry of live sessions, its handlers and the recovery after a
  crash (\<open>manager.rs\<close>, \<open>orphan.rs\<close>); \<open>Session_Lifecycle\<close> the invariant that ties the
  registry to the tables, \<open>Session_World\<close> the handlers and crashes as one step relation that
  refines the steps of the tables. The loop over the days of a close is a
  \<open>partial_function (option)\<close>, since the code's loop has no syntactic bound; that it returns is
  proved for instants within \<open>10 ^ 15\<close> milliseconds of the epoch. Clock readings, zone offsets,
  the answers of the activity filter and the processes that finished are arguments of the steps.

  \<^bold>\<open>The pipes to the shell\<close> (\<open>src/core/src/proto/\<close>, with the consumer in
  \<open>src/app/src/main/core/streams.ts\<close>). \<open>Proto_Frame\<close> has the frame codec over bytes, UTF-8
  included, and the reader and writer threads (\<open>frame.rs\<close>, \<open>transport.rs\<close>).
  \<open>Proto_Publish\<close> has the topics' queues, the publisher and the bounded channel to the writer
  (\<open>pubsub.rs\<close>, \<open>wire.rs\<close>), and the consumer that counts what arrives; the locale
  \<open>stream_op\<close> states what the process relies on, that an operation on the publisher only
  appends and continues every live topic's stream, and is interpreted on each of them.
  \<open>Proto_Loop\<close> has the command loop (\<open>dispatch.rs\<close>) as a list of acts that interleave with
  the reader, the workers and the writer. JSON, the handler and the parent's state are parameters.

  \<^bold>\<open>The query language\<close> (\<open>src/core/src/query/\<close>). \<open>Query_Parse\<close> has the tokenizer,
  the terms and their parser, \<open>Query_Execute\<close> the evaluation of a term over a loaded row, with
  three truth values. Letter case is folded for ASCII only.

  \<^bold>\<open>Projects, rows and the shelf\<close>. \<open>Calendar\<close> has the conversions between instants and
  dates of \<open>clock.rs\<close>, \<open>art/compose.rs\<close>, \<open>stats/reveal.rs\<close> and
  \<open>provider/github.rs\<close>. \<open>Project_Tables\<close> has the index as the project code reads it: the
  stored vocabularies and the rows. \<open>Derive\<close> has the derived clocks, the condition ladder and the
  description (\<open>derive/\<close>); \<open>Completion\<close> the ten checks, their write and the user's ruling
  (\<open>completion/\<close>, \<open>index/completion.rs\<close>); \<open>Health\<close> the readings of one project and of
  the whole library (\<open>health/\<close>); \<open>Shelf_Rows\<close> the rows of \<open>projects/rows.rs\<close> and their
  loaders; \<open>Shelf_Page\<close> the sections, the order, the window and the list command
  (\<open>projects/\<close>).

  \<^bold>\<open>Debt items and the content scan\<close> (\<open>src/core/src/debt/\<close>, with
  \<open>index/subject.rs\<close> and the jobs \<open>markers.rs\<close>, \<open>content_scan.rs\<close>,
  \<open>presence.rs\<close> and \<open>j7_markers.rs\<close>). \<open>Subject\<close> has what recognises a project across a
  rebuild, and its key. \<open>Debt_Store\<close> has the registry of sources, the sweep rules and the diff
  of a sweep against the stored items (\<open>mod.rs\<close>, \<open>identity.rs\<close>, \<open>sweep.rs\<close>,
  \<open>store.rs\<close>); \<open>Debt_Arms\<close> the seven singleton arms and their evaluator
  (\<open>singletons.rs\<close>, \<open>abandoned.rs\<close>); \<open>Content_Scan\<close> the pass over a blob, the blob cache,
  the presence answers and the rows of a scan; \<open>Debt_Markers\<close> the items built from a scan
  (\<open>debt/markers.rs\<close>) and one chunk of the job that scans a head, driven until it is done with
  one run more than the head has blobs as fuel. The hash, the lossy decoding, the language of a
  path, the multi-literal search and git are arguments; the day's payout of a fixed item and the
  restoration record, which share the chunk's transaction, are not modelled.

  \<^bold>\<open>How the theories correspond to the code.\<close> Functions, structs, enums and constants keep the
  source's names where HOL leaves them free. An \<open>i64\<close> is an \<open>int\<close> with its saturation or
  wrap-around written out (\<open>Prelude\<close>), an unsigned counter a \<open>nat\<close> with its saturation. SQL
  statements over a table are the list or map function they compute. A clock reading is an
  argument. An error is the left of a sum or a constructor of the source's error enum.

  \<^bold>\<open>What the groups of theorems show.\<close> For the check: Safe means exactly settled; trouble in a
  nested repository reaches the verdict; the seal identifies what is shown; the act proceeds only
  on the state that was analysed. For the scheduler: caps hold in every interleaving, the queue's
  two views agree, a pop is fair within its band, failures are bounded, chains end and reach every
  kind. For the sync: at most one row runs, a blocked task is never revived behind the user's
  back, parks release strictly later and are bounded, nothing runnable is slept over. For the sessions: credit never exceeds the wall
  clock, idle time is bounded, the registry and the tables agree across crashes, no handler fails,
  and the Focus rows of a day add up to the union of the day's segments. For the pipes:
  frames round-trip and a stream is read exactly, requests are answered once and in order, and a
  subscriber never sees a gap. For the queries: typed terms are read back, and an unknown fact
  matches neither a term nor its negation. For the projects: derived facts are those of the copies,
  a check rests on evidence, Done is earned, the tile and the page show one row, and the shelf
  files every row once. For the debt: a sweep does exactly what its rules say, an item keeps its
  identity through every history, the shown singletons are the truth and close only when earned, the
  pass finds every marker, a moved marker keeps its item, and a scan ends with the whole head read.

  \<^bold>\<open>Not modelled.\<close> SQLite itself, child processes and their output, HTTP and the keychain, and
  time; the work a job or a sync task computes (their results are inputs of the settle); the
  projections for the renderer and the renderer itself. Of the modelled areas: the peek of a row,
  the delta gate of health, the advisory producer, the ledger beyond the Focus rows, identity merges,
  the sidecar and its restore, cover art, installation and the removal commands.
\<close>

end
